(* ===== verification/Prelude.thy ===== *)
theory Prelude
  imports Complex_Main "HOL-Library.Word" "HOL-Library.Multiset" "HOL-Library.Sublist"
begin

text \<open>
  Shared vocabulary of the development: the faults a C++ operation can end in, 32-bit signed
  arithmetic, the contract of \<^verbatim>\<open>std::sort\<close>, and list lemmas used by several components.

  A fallible operation returns \<open>fault + 'a\<close>. Signed integers of the source are \<^typ>\<open>int\<close>
  values kept in the range of their width by \<open>wrap32\<close>, the two's complement reduction that the
  target (x86-64, as set in base/CMakeLists.txt) performs; where the C++ standard calls the
  overflow undefined, the theorems show that it does not happen.
\<close>

named_theorems i32_simps \<open>32-bit arithmetic that does not wrap\<close>
named_theorems result_simps \<open>unfolding of the fault monad\<close>

section \<open>Faults\<close>

text \<open>
  How an operation can fail: a read outside a matrix or an array, \<^verbatim>\<open>std::length_error\<close>, an
  exception of OpenCV or of the ini reader, a failed \<^verbatim>\<open>CHECK\<close> or \<^verbatim>\<open>assert\<close>, the use of a freed
  or never initialised object, a byte loaded as a \<^verbatim>\<open>bool\<close> that is neither 0 nor 1.
\<close>

datatype fault =
    Out_Of_Bounds
  | Length_Error
  | Cv_Exception
  | Ini_Exception
  | Check_Failed
  | Use_After_Free
  | Uninitialised
  | Invalid_Bool

type_synonym 'a result = "fault + 'a"

definition bind_result :: "'a result \<Rightarrow> ('a \<Rightarrow> 'b result) \<Rightarrow> 'b result" where
  [result_simps]: "bind_result m f = (case m of Inl e \<Rightarrow> Inl e | Inr x \<Rightarrow> f x)"

lemma bind_result_Inr_iff:
  "bind_result m f = Inr y \<longleftrightarrow> (\<exists>x. m = Inr x \<and> f x = Inr y)"
  by (auto simp: bind_result_def split: sum.splits)

lemma bind_result_simps [simp]:
  "bind_result (Inr x) f = f x" "bind_result (Inl e) f = Inl e"
  by (simp_all add: bind_result_def)

text \<open>A \<^verbatim>\<open>DCHECK\<close> of the debugging build.\<close>

definition dcheck :: "bool \<Rightarrow> unit result" where
  "dcheck b = (if b then Inr () else Inl Check_Failed)"

section \<open>32-bit signed integers\<close>

definition wrap32 :: "int \<Rightarrow> int" where
  "wrap32 x = signed_take_bit 31 x"

definition is_i32 :: "int \<Rightarrow> bool" where
  "is_i32 x \<longleftrightarrow> - (2 ^ 31) \<le> x \<and> x < 2 ^ 31"

definition add32 :: "int \<Rightarrow> int \<Rightarrow> int" where
  "add32 a b = wrap32 (a + b)"

definition sub32 :: "int \<Rightarrow> int \<Rightarrow> int" where
  "sub32 a b = wrap32 (a - b)"

definition mul32 :: "int \<Rightarrow> int \<Rightarrow> int" where
  "mul32 a b = wrap32 (a * b)"

text \<open>Integer division of C++ truncates towards zero; the divisors of the source are positive.\<close>

definition quot32 :: "int \<Rightarrow> int \<Rightarrow> int" where
  "quot32 a b = (if a < 0 then - ((- a) div b) else a div b)"

text \<open>\<^verbatim>\<open>std::abs\<close> of an \<^verbatim>\<open>int\<close>: the most negative value is its own absolute value.\<close>

definition abs32 :: "int \<Rightarrow> int" where
  "abs32 a = wrap32 \<bar>a\<bar>"

lemma wrap32_is_i32 [simp]: "is_i32 (wrap32 x)"
  using signed_take_bit_int_less_exp [of 31 x] signed_take_bit_int_greater_eq_minus_exp [of 31 x]
  by (simp add: is_i32_def wrap32_def)

lemma wrap32_id [i32_simps]: "is_i32 x \<Longrightarrow> wrap32 x = x"
  by (simp add: is_i32_def wrap32_def signed_take_bit_int_eq_self)

lemma wrap32_wrap32 [simp]: "wrap32 (wrap32 x) = wrap32 x"
  by (simp add: wrap32_id)

lemma wrap32_overflow: "2 ^ 31 \<le> x \<Longrightarrow> x < 2 ^ 32 \<Longrightarrow> wrap32 x = x - 2 ^ 32"
proof -
  assume x: "2 ^ 31 \<le> x" "x < 2 ^ 32"
  have "(x + 2 ^ 31) mod 2 ^ 32 = (x + 2 ^ 31 - 2 ^ 32) mod 2 ^ 32"
    by (rule minus_mod_self2 [symmetric])
  also have "\<dots> = x + 2 ^ 31 - 2 ^ 32" using x by (intro mod_pos_pos_trivial) auto
  finally show ?thesis
    by (simp add: wrap32_def signed_take_bit_eq_take_bit_shift take_bit_eq_mod)
qed

lemma add32_id [i32_simps]: "is_i32 (a + b) \<Longrightarrow> add32 a b = a + b"
  by (simp add: add32_def wrap32_id)

lemma sub32_id [i32_simps]: "is_i32 (a - b) \<Longrightarrow> sub32 a b = a - b"
  by (simp add: sub32_def wrap32_id)

lemma mul32_id [i32_simps]: "is_i32 (a * b) \<Longrightarrow> mul32 a b = a * b"
  by (simp add: mul32_def wrap32_id)

lemma abs32_id [i32_simps]: "is_i32 a \<Longrightarrow> a \<noteq> - (2 ^ 31) \<Longrightarrow> abs32 a = \<bar>a\<bar>"
  unfolding abs32_def by (rule wrap32_id) (auto simp: is_i32_def)

lemma arith32_is_i32 [simp]:
  "is_i32 (add32 a b)" "is_i32 (sub32 a b)" "is_i32 (mul32 a b)" "is_i32 (abs32 a)"
  by (simp_all add: add32_def sub32_def mul32_def abs32_def)

lemma mul32_commute: "mul32 a b = mul32 b a"
  by (simp add: mul32_def mult.commute)

lemma i32I: "- 2147483648 \<le> x \<Longrightarrow> x \<le> 2147483647 \<Longrightarrow> is_i32 x"
  by (simp add: is_i32_def)

lemma is_i32_iff: "is_i32 x \<longleftrightarrow> - 2147483648 \<le> x \<and> x \<le> 2147483647"
  by (auto simp: is_i32_def)

text \<open>Adding up 32-bit values left to right, as \<^verbatim>\<open>std::accumulate\<close> with an \<^verbatim>\<open>int\<close> start does.\<close>

definition accumulate32 :: "int list \<Rightarrow> int \<Rightarrow> int" where
  "accumulate32 xs init = foldl add32 init xs"

lemma accumulate32_exact:
  assumes "\<forall>x \<in> set xs. 0 \<le> x" "0 \<le> s" "s + sum_list xs < 2 ^ 31"
  shows "accumulate32 xs s = s + sum_list xs"
  using assms
proof (induction xs arbitrary: s)
  case Nil
  then show ?case by (simp add: accumulate32_def)
next
  case (Cons x xs)
  have "0 \<le> sum_list xs" using Cons.prems by (simp add: sum_list_nonneg)
  then have "add32 s x = s + x" using Cons.prems
    by (intro add32_id) (auto simp: is_i32_def)
  moreover have "accumulate32 xs (s + x) = s + x + sum_list xs"
    using Cons by simp
  ultimately show ?case by (simp add: accumulate32_def)
qed

lemma add32_wrap32_left [simp]: "add32 (wrap32 a) b = wrap32 (a + b)"
proof -
  have "(a + b + 2 ^ 31) mod 2 ^ 32 = ((a + 2 ^ 31) mod 2 ^ 32 + b) mod 2 ^ (32::nat)"
    by (simp add: mod_simps algebra_simps)
  then show ?thesis
    by (simp add: add32_def wrap32_def signed_take_bit_eq_take_bit_shift take_bit_eq_mod)
qed

lemma accumulate32_wraps: "is_i32 s \<Longrightarrow> accumulate32 xs s = wrap32 (s + sum_list xs)"
proof -
  have "accumulate32 xs (wrap32 s) = wrap32 (s + sum_list xs)" for s
    by (induction xs arbitrary: s) (simp_all add: accumulate32_def add.assoc)
  then show "is_i32 s \<Longrightarrow> ?thesis" by (metis wrap32_id)
qed

section \<open>Sizes\<close>

text \<open>
  \<^verbatim>\<open>size_t\<close> is a 64-bit unsigned type: its sums and differences are reduced modulo \<open>2 ^ 64\<close>, and
  \<^verbatim>\<open>npos\<close> is its greatest value. \<open>pos_of\<close> is the position a search returns, as that number.
\<close>

definition npos :: nat where
  "npos = 2 ^ 64 - 1"

definition szadd :: "nat \<Rightarrow> nat \<Rightarrow> nat" where
  "szadd a b = (a + b) mod 2 ^ 64"

definition szsub :: "nat \<Rightarrow> nat \<Rightarrow> nat" where
  "szsub a b = (a + (2 ^ 64 - b)) mod 2 ^ 64"

definition pos_of :: "nat option \<Rightarrow> nat" where
  "pos_of r = (case r of None \<Rightarrow> npos | Some i \<Rightarrow> i)"

lemma szadd_id: "a + b < 2 ^ 64 \<Longrightarrow> szadd a b = a + b"
  by (simp add: szadd_def)

lemma szsub_id: "b \<le> a \<Longrightarrow> a < 2 ^ 64 \<Longrightarrow> szsub a b = a - b"
  by (simp add: szsub_def mod_if)

lemma szsub_0 [simp]: "szsub (szsub a b) 0 = szsub a b"
  by (simp add: szsub_def)

lemma npos_wraps: "szadd npos 1 = 0" "szsub 0 1 = npos"
  by (simp_all add: szadd_def szsub_def npos_def)

lemma pos_of_simps [simp]: "pos_of None = npos" "pos_of (Some i) = i"
  by (simp_all add: pos_of_def)

section \<open>The contract of std::sort\<close>

text \<open>
  \<^verbatim>\<open>std::sort\<close> permutes its range so that no element precedes, by the comparator, one placed
  before it. The relative order of equivalent elements is unspecified, so the sorting routine is
  an argument of every definition that sorts, and the contract is the hypothesis \<open>std_sort\<close>.
\<close>

definition cmp_sorted :: "('a \<Rightarrow> 'a \<Rightarrow> bool) \<Rightarrow> 'a list \<Rightarrow> bool" where
  "cmp_sorted cmp xs \<longleftrightarrow> sorted_wrt (\<lambda>a b. \<not> cmp b a) xs"

definition strict_weak :: "'a set \<Rightarrow> ('a \<Rightarrow> 'a \<Rightarrow> bool) \<Rightarrow> bool" where
  "strict_weak A cmp \<longleftrightarrow> (\<forall>a \<in> A. \<not> cmp a a) \<and>
     (\<forall>a \<in> A. \<forall>b \<in> A. \<forall>c \<in> A. cmp a b \<longrightarrow> cmp b c \<longrightarrow> cmp a c) \<and>
     (\<forall>a \<in> A. \<forall>b \<in> A. \<forall>c \<in> A. \<not> cmp a b \<longrightarrow> \<not> cmp b c \<longrightarrow> \<not> cmp a c)"

definition std_sort :: "(('a \<Rightarrow> 'a \<Rightarrow> bool) \<Rightarrow> 'a list \<Rightarrow> 'a list) \<Rightarrow> bool" where
  "std_sort srt \<longleftrightarrow> (\<forall>cmp xs. strict_weak (set xs) cmp \<longrightarrow>
     mset (srt cmp xs) = mset xs \<and> cmp_sorted cmp (srt cmp xs))"

lemma std_sortD:
  assumes "std_sort srt" "strict_weak (set xs) cmp"
  shows "mset (srt cmp xs) = mset xs" "cmp_sorted cmp (srt cmp xs)"
    "set (srt cmp xs) = set xs" "length (srt cmp xs) = length xs"
    "distinct (srt cmp xs) \<longleftrightarrow> distinct xs"
  using assms unfolding std_sort_def
  by (auto dest: mset_eq_setD mset_eq_length mset_eq_imp_distinct_iff)

lemma strict_weak_subset: "strict_weak B cmp \<Longrightarrow> A \<subseteq> B \<Longrightarrow> strict_weak A cmp"
  unfolding strict_weak_def by (meson subsetD)

lemma strict_weak_key:
  fixes f :: "'a \<Rightarrow> 'b::linorder"
  shows "strict_weak A (\<lambda>a b. f a < f b)"
  by (auto simp: strict_weak_def)

lemma strict_weak_key_greater:
  fixes f :: "'a \<Rightarrow> 'b::linorder"
  shows "strict_weak A (\<lambda>a b. f a > f b)"
  by (auto simp: strict_weak_def)

text \<open>An insertion sort that is one implementation of the contract.\<close>

fun insert_by :: "('a \<Rightarrow> 'a \<Rightarrow> bool) \<Rightarrow> 'a \<Rightarrow> 'a list \<Rightarrow> 'a list" where
  "insert_by cmp x [] = [x]"
| "insert_by cmp x (y # ys) = (if cmp y x then y # insert_by cmp x ys else x # y # ys)"

fun sort_by :: "('a \<Rightarrow> 'a \<Rightarrow> bool) \<Rightarrow> 'a list \<Rightarrow> 'a list" where
  "sort_by cmp [] = []"
| "sort_by cmp (x # xs) = insert_by cmp x (sort_by cmp xs)"

lemma mset_insert_by [simp]: "mset (insert_by cmp x xs) = add_mset x (mset xs)"
  by (induction xs) auto

lemma mset_sort_by [simp]: "mset (sort_by cmp xs) = mset xs"
  by (induction xs) auto

lemma set_insert_by [simp]: "set (insert_by cmp x xs) = insert x (set xs)"
  by (metis mset_insert_by set_mset_add_mset_insert set_mset_mset)

lemma cmp_sorted_insert_by:
  assumes "strict_weak (insert x (set xs)) cmp" "cmp_sorted cmp xs"
  shows "cmp_sorted cmp (insert_by cmp x xs)"
  using assms
proof (induction xs)
  case Nil
  then show ?case by (simp add: cmp_sorted_def)
next
  case (Cons y ys)
  let ?A = "insert x (set (y # ys))"
  have trans: "a \<in> ?A \<Longrightarrow> b \<in> ?A \<Longrightarrow> c \<in> ?A \<Longrightarrow> \<not> cmp b a \<Longrightarrow> \<not> cmp c b \<Longrightarrow> \<not> cmp c a" for a b c
    using Cons.prems(1) unfolding strict_weak_def by blast
  have asym: "a \<in> ?A \<Longrightarrow> b \<in> ?A \<Longrightarrow> cmp a b \<Longrightarrow> \<not> cmp b a" for a b
    using Cons.prems(1) unfolding strict_weak_def by blast
  have IH: "cmp_sorted cmp (insert_by cmp x ys)"
    using Cons.prems by (intro Cons.IH) (auto simp: cmp_sorted_def elim: strict_weak_subset)
  from Cons.prems have ys: "\<forall>z \<in> set ys. \<not> cmp z y" "cmp_sorted cmp ys"
    by (auto simp: cmp_sorted_def)
  show ?case
  proof (cases "cmp y x")
    case True
    then show ?thesis using IH ys asym by (simp add: cmp_sorted_def)
  next
    case False
    then have "\<forall>z \<in> set ys. \<not> cmp z x" using ys(1) trans [of x y] by auto
    with False ys show ?thesis by (simp add: cmp_sorted_def)
  qed
qed

lemma std_sort_sort_by: "std_sort sort_by"
  unfolding std_sort_def
proof (intro allI impI)
  fix cmp :: "'a \<Rightarrow> 'a \<Rightarrow> bool" and xs
  assume "strict_weak (set xs) cmp"
  then have "cmp_sorted cmp (sort_by cmp xs)"
  proof (induction xs)
    case (Cons x xs)
    then show ?case
      by (auto intro!: cmp_sorted_insert_by Cons.IH elim: strict_weak_subset
          simp: mset_eq_setD [OF mset_sort_by])
  qed (simp add: cmp_sorted_def)
  then show "mset (sort_by cmp xs) = mset xs \<and> cmp_sorted cmp (sort_by cmp xs)" by simp
qed

text \<open>
  Instances of the same template on two element types, with comparators that agree through \<open>f\<close>,
  make the same moves.
\<close>

definition sorts_alike ::
  "(('a \<Rightarrow> 'a \<Rightarrow> bool) \<Rightarrow> 'a list \<Rightarrow> 'a list) \<Rightarrow> (('b \<Rightarrow> 'b \<Rightarrow> bool) \<Rightarrow> 'b list \<Rightarrow> 'b list) \<Rightarrow> bool" where
  "sorts_alike srt1 srt2 \<longleftrightarrow> (\<forall>f cmp1 cmp2 xs. (\<forall>a b. cmp1 a b = cmp2 (f a) (f b)) \<longrightarrow>
     map f (srt1 cmp1 xs) = srt2 cmp2 (map f xs))"

lemma sorts_alike_sort_by: "sorts_alike sort_by sort_by"
  unfolding sorts_alike_def
proof (intro allI impI)
  fix f :: "'a \<Rightarrow> 'b" and cmp1 :: "'a \<Rightarrow> 'a \<Rightarrow> bool" and cmp2 xs
  assume *: "\<forall>a b. cmp1 a b = cmp2 (f a) (f b)"
  have "map f (insert_by cmp1 x ys) = insert_by cmp2 (f x) (map f ys)" for x ys
    using * by (induction ys) auto
  then show "map f (sort_by cmp1 xs) = sort_by cmp2 (map f xs)"
    by (induction xs) auto
qed

section \<open>Lists\<close>

lemma cmp_sorted_filter: "cmp_sorted cmp xs \<Longrightarrow> cmp_sorted cmp (filter P xs)"
  by (simp add: cmp_sorted_def sorted_wrt_filter)

lemma subseq_mset: "subseq xs ys \<Longrightarrow> mset xs \<subseteq># mset ys"
  by (induction rule: list_emb.induct) (auto intro: subset_mset.order_trans [OF _ multi_psub_of_add_self [THEN subset_mset.less_imp_le]])

lemma subseq_set: "subseq xs ys \<Longrightarrow> set xs \<subseteq> set ys"
  by (induction rule: list_emb.induct) auto

lemma subseq_sorted_wrt: "subseq xs ys \<Longrightarrow> sorted_wrt R ys \<Longrightarrow> sorted_wrt R xs"
  by (induction rule: list_emb.induct) (auto dest: subseq_set)

lemma sum_list_bounded:
  fixes xs :: "int list"
  assumes "\<forall>x \<in> set xs. x \<le> b"
  shows "sum_list xs \<le> b * int (length xs)"
  using assms by (induction xs) (auto simp: algebra_simps)

lemma min_fold_le:
  fixes xs :: "int list"
  shows "fold min xs m \<le> m \<and> (\<forall>x \<in> set xs. fold min xs m \<le> x)"
proof (induction xs arbitrary: m)
  case (Cons y ys)
  from Cons [of "min y m"] show ?case by auto
qed simp

lemma drop_upto: "pos \<le> i \<Longrightarrow> take (i - pos) (drop pos xs) @ drop i xs = drop pos xs"
  by (metis append_take_drop_id drop_drop le_add_diff_inverse2)

lemma take_upto: "pos \<le> i \<Longrightarrow> take pos xs @ take (i - pos) (drop pos xs) = take i xs"
  by (metis le_add_diff_inverse take_add)

lemma prefix_take: "prefix p xs \<longleftrightarrow> length p \<le> length xs \<and> take (length p) xs = p"
proof
  assume "length p \<le> length xs \<and> take (length p) xs = p"
  then show "prefix p xs" using take_is_prefix [of "length p" xs] by simp
qed (auto simp: prefix_def)

lemma suffix_drop_iff: "suffix p xs \<longleftrightarrow> length p \<le> length xs \<and> drop (length xs - length p) xs = p"
proof
  assume "length p \<le> length xs \<and> drop (length xs - length p) xs = p"
  then show "suffix p xs" using suffix_drop [of "length xs - length p" xs] by simp
qed (auto simp: suffix_def)

section \<open>Decimal notation\<close>

text \<open>The decimal digits of an integer, as a stream inserter prints them.\<close>

definition digit_char :: "nat \<Rightarrow> char" where
  "digit_char d = char_of (48 + d)"

fun dec_of_nat :: "nat \<Rightarrow> string" where
  "dec_of_nat n = (if n < 10 then [digit_char n] else dec_of_nat (n div 10) @ [digit_char (n mod 10)])"

declare dec_of_nat.simps [simp del]

definition dec_of_int :: "int \<Rightarrow> string" where
  "dec_of_int i = (if i < 0 then CHR ''-'' # dec_of_nat (nat (- i)) else dec_of_nat (nat i))"

text \<open>Reading digits back, most significant first.\<close>

definition digit_val :: "char \<Rightarrow> nat" where
  "digit_val c = of_char c - 48"

definition is_digit :: "char \<Rightarrow> bool" where
  "is_digit c \<longleftrightarrow> 48 \<le> (of_char c :: nat) \<and> (of_char c :: nat) \<le> 57"

definition nat_of_dec :: "string \<Rightarrow> nat" where
  "nat_of_dec s = foldl (\<lambda>n c. 10 * n + digit_val c) 0 s"

lemma of_char_digit_char: "d < 10 \<Longrightarrow> (of_char (digit_char d) :: nat) = 48 + d"
  by (simp add: digit_char_def)

lemma digit_char_simps [simp]:
  "d < 10 \<Longrightarrow> digit_val (digit_char d) = d" "d < 10 \<Longrightarrow> is_digit (digit_char d)"
  by (simp_all add: digit_val_def is_digit_def of_char_digit_char)

lemma dec_of_nat_digits: "c \<in> set (dec_of_nat n) \<Longrightarrow> is_digit c"
proof (induction n rule: dec_of_nat.induct)
  case (1 n)
  then show ?case by (cases "n < 10") (auto simp: dec_of_nat.simps [of n])
qed

lemma dec_of_nat_nonempty [simp]: "dec_of_nat n \<noteq> []"
  by (subst dec_of_nat.simps) simp

lemma nat_of_dec_of_nat [simp]: "nat_of_dec (dec_of_nat n) = n"
proof (induction n rule: dec_of_nat.induct)
  case (1 n)
  then show ?case
    by (cases "n < 10") (auto simp: dec_of_nat.simps [of n] nat_of_dec_def)
qed

lemma dec_of_nat_inj: "dec_of_nat m = dec_of_nat n \<longleftrightarrow> m = n"
  by (metis nat_of_dec_of_nat)

end
