(* ===== verification/Binary64.thy ===== *)
theory Binary64
  imports Prelude "HOL-Library.Log_Nat"
begin

text \<open>
  The \<^verbatim>\<open>double\<close> arithmetic of the source: IEEE 754 binary64 with rounding to nearest, ties to
  even, as x86-64 computes it. A finite value is the rational it stands for, so that every
  operation computes; infinities and NaN are constructors of their own. The sign of a zero is not
  kept: the modelled code divides by a zero only where the divisor is an integer converted to
  \<^verbatim>\<open>double\<close>, which is a positive zero.
\<close>

datatype dbl = Fin rat | PInf | NInf | NaN

section \<open>Rounding\<close>

text \<open>Round a rational to the nearest integer, ties to even.\<close>

definition rne :: "rat \<Rightarrow> int" where
  "rne y = (let f = \<lfloor>y\<rfloor>; d = y - of_int f in
     if d < 1 / 2 then f else if 1 / 2 < d then f + 1 else if even f then f else f + 1)"

text \<open>The exponent of the leading bit of a positive rational.\<close>

definition ilog2 :: "rat \<Rightarrow> int" where
  "ilog2 x = (case quotient_of x of (p, q) \<Rightarrow>
     let e = bitlen p - bitlen q in if 2 powi e \<le> x then e else e - 1)"

text \<open>52 fraction bits, exponents down to the subnormal range, overflow to infinity.\<close>

definition round64 :: "rat \<Rightarrow> dbl" where
  "round64 x = (if x = 0 then Fin 0 else
     let e = max (- 1074) (ilog2 \<bar>x\<bar> - 52); r = of_int (rne (x / 2 powi e)) * 2 powi e
     in if 2 ^ 1024 \<le> r then PInf else if r \<le> - (2 ^ 1024) then NInf else Fin r)"

lemma rne_of_int [simp]: "rne (of_int n) = n"
  by (simp add: rne_def)

lemma rne_bounds: "\<lfloor>y\<rfloor> \<le> rne y" "rne y \<le> \<lfloor>y\<rfloor> + 1"
  by (auto simp: rne_def Let_def)

lemma rne_mono: "x \<le> y \<Longrightarrow> rne x \<le> rne y"
proof -
  assume le: "x \<le> y"
  consider "\<lfloor>x\<rfloor> < \<lfloor>y\<rfloor>" | "\<lfloor>x\<rfloor> = \<lfloor>y\<rfloor>"
    using floor_mono [OF le] by linarith
  then show ?thesis
  proof cases
    case 1
    then show ?thesis using rne_bounds(2) [of x] rne_bounds(1) [of y] by linarith
  next
    case 2
    then show ?thesis using le by (auto simp: rne_def Let_def)
  qed
qed

lemma bitlen_pow_bounds:
  assumes "0 < p"
  shows "2 powi (bitlen p - 1) \<le> (of_int p :: rat)" "(of_int p :: rat) < 2 powi (bitlen p)"
proof -
  have pos: "0 < bitlen p" using assms bitlen_nonneg [of p] bitlen_eq_zero_iff [of p] by linarith
  have b: "2 ^ nat (bitlen p - 1) \<le> p \<and> p < 2 ^ nat (bitlen p)"
    using bitlen_bounds [OF assms] .
  have "(of_int (2 ^ nat (bitlen p - 1)) :: rat) \<le> of_int p"
    using b by (subst of_int_le_iff) simp
  then show "2 powi (bitlen p - 1) \<le> (of_int p :: rat)"
    using pos by (simp add: power_int_def)
  have "(of_int p :: rat) < of_int (2 ^ nat (bitlen p))"
    using b by (subst of_int_less_iff) simp
  then show "(of_int p :: rat) < 2 powi (bitlen p)"
    using pos by (simp add: power_int_def)
qed

lemma ilog2_upper: "0 < x \<Longrightarrow> x < 2 powi (ilog2 x + 1)"
proof -
  assume x: "0 < x"
  obtain p q where pq: "quotient_of x = (p, q)" by fastforce
  have q: "0 < q" using quotient_of_denom_pos [OF pq] .
  have xd: "x = of_int p / of_int q" using quotient_of_div [OF pq] .
  have p: "0 < p" using x xd q by (simp add: zero_less_divide_iff)
  have "x < 2 powi (bitlen p) / of_int q"
    unfolding xd using bitlen_pow_bounds(2) [OF p] q by (simp add: divide_strict_right_mono)
  also have "\<dots> \<le> 2 powi (bitlen p) / 2 powi (bitlen q - 1)"
    using bitlen_pow_bounds(1) [OF q] q by (intro divide_left_mono) auto
  also have "\<dots> = 2 powi (bitlen p - bitlen q + 1)"
    by (simp add: power_int_diff power_int_add)
  finally show ?thesis
    unfolding ilog2_def pq Let_def by (auto simp: not_le)
qed

lemma ilog2_lower: "0 < x \<Longrightarrow> 2 powi (ilog2 x) \<le> x"
proof -
  assume x: "0 < x"
  obtain p q where pq: "quotient_of x = (p, q)" by fastforce
  have q: "0 < q" using quotient_of_denom_pos [OF pq] .
  have xd: "x = of_int p / of_int q" using quotient_of_div [OF pq] .
  have p: "0 < p" using x xd q by (simp add: zero_less_divide_iff)
  have "2 powi (bitlen p - bitlen q - 1) = (2 powi (bitlen p - 1) / 2 powi (bitlen q) :: rat)"
    by (simp add: power_int_diff)
  also have "\<dots> \<le> of_int p / 2 powi (bitlen q)"
    using bitlen_pow_bounds(1) [OF p] by (intro divide_right_mono) auto
  also have "\<dots> \<le> x"
    unfolding xd using bitlen_pow_bounds(2) [OF q] p q by (intro divide_left_mono) auto
  finally show ?thesis
    unfolding ilog2_def pq Let_def by auto
qed

lemma ilog2_less: "0 < x \<Longrightarrow> x < 2 powi k \<Longrightarrow> ilog2 x < k"
proof (rule ccontr)
  assume x: "0 < x" "x < 2 powi k" and "\<not> ilog2 x < k"
  then have "(2 :: rat) powi k \<le> 2 powi (ilog2 x)" by (intro power_int_increasing) auto
  with x ilog2_lower [OF x(1)] show False by linarith
qed

lemma powi_le_one_grid: "e \<le> 0 \<Longrightarrow> of_int n / (2 :: rat) powi e = of_int (n * 2 ^ nat (- e))"
proof -
  assume e: "e \<le> 0"
  then have "(2 :: rat) powi e = inverse (2 ^ nat (- e))"
    by (cases "e = 0") (simp_all add: power_int_def power_one_over inverse_eq_divide)
  then show ?thesis by (simp add: divide_inverse)
qed

text \<open>Integers of up to 53 bits are exact; in particular every \<^verbatim>\<open>int\<close> is.\<close>

lemma round64_of_int:
  assumes "\<bar>n\<bar> < 2 ^ 53"
  shows "round64 (of_int n) = Fin (of_int n)"
proof (cases "n = 0")
  case True
  then show ?thesis by (simp add: round64_def)
next
  case False
  have lt: "\<bar>of_int n :: rat\<bar> < 2 ^ 53"
    using assms by (metis of_int_abs of_int_less_iff of_int_numeral of_int_power)
  then have "\<bar>of_int n :: rat\<bar> < 2 powi 53" by (simp add: power_int_def)
  then have e: "max (- 1074) (ilog2 \<bar>of_int n\<bar> - 52) \<le> 0"
    using ilog2_less [of "\<bar>of_int n\<bar>" 53] False by simp
  let ?e = "max (- 1074) (ilog2 \<bar>of_int n :: rat\<bar> - 52)"
  have "of_int (rne (of_int n / 2 powi ?e)) = (of_int n / 2 powi ?e :: rat)"
    unfolding powi_le_one_grid [OF e] rne_of_int ..
  then have r: "of_int (rne (of_int n / 2 powi ?e)) * 2 powi ?e = (of_int n :: rat)" by simp
  have "(2::rat) ^ 53 \<le> 2 ^ 1024" by (rule power_increasing) auto
  with lt have "\<not> (2::rat) ^ 1024 \<le> of_int n" "\<not> of_int n \<le> - ((2::rat) ^ 1024)" by linarith+
  with False r show ?thesis by (simp add: round64_def Let_def del: of_int_mult)
qed

text \<open>Rounding stays within integer bounds below \<open>2 ^ 53\<close>.\<close>

lemma round64_between:
  assumes "of_int a \<le> x" "x \<le> of_int b" "\<bar>a\<bar> < 2 ^ 53" "\<bar>b\<bar> < 2 ^ 53"
  shows "\<exists>r. round64 x = Fin r \<and> of_int a \<le> r \<and> r \<le> of_int b"
proof (cases "x = 0")
  case True
  with assms show ?thesis by (simp add: round64_def)
next
  case False
  have ab: "\<bar>of_int a :: rat\<bar> < 2 ^ 53" "\<bar>of_int b :: rat\<bar> < 2 ^ 53"
    using assms(3,4) by (metis of_int_abs of_int_less_iff of_int_numeral of_int_power)+
  with assms(1,2) have "\<bar>x\<bar> < 2 powi 53" by (simp add: power_int_def)
  then have e: "max (- 1074) (ilog2 \<bar>x\<bar> - 52) \<le> 0"
    using ilog2_less [of "\<bar>x\<bar>" 53] False by simp
  let ?e = "max (- 1074) (ilog2 \<bar>x\<bar> - 52)"
  let ?r = "of_int (rne (x / 2 powi ?e)) * 2 powi ?e :: rat"
  have pos: "(0::rat) < 2 powi ?e" by simp
  have "rne (of_int a / 2 powi ?e) \<le> rne (x / 2 powi ?e)"
    using assms(1) pos by (intro rne_mono divide_right_mono) auto
  then have "of_int a / 2 powi ?e \<le> (of_int (rne (x / 2 powi ?e)) :: rat)"
    unfolding powi_le_one_grid [OF e] rne_of_int of_int_le_iff .
  then have lo: "of_int a \<le> ?r" by (simp only: divide_le_eq [of "of_int a"] pos if_True)
  have "rne (x / 2 powi ?e) \<le> rne (of_int b / 2 powi ?e)"
    using assms(2) pos by (intro rne_mono divide_right_mono) auto
  then have "(of_int (rne (x / 2 powi ?e)) :: rat) \<le> of_int b / 2 powi ?e"
    unfolding powi_le_one_grid [OF e] rne_of_int of_int_le_iff .
  then have hi: "?r \<le> of_int b" by (simp only: le_divide_eq pos if_True)
  have big: "(2::rat) ^ 53 \<le> 2 ^ 1024" by (rule power_increasing) auto
  have "\<not> 2 ^ 1024 \<le> ?r" "\<not> ?r \<le> - (2 ^ 1024)" using lo hi ab big by linarith+
  then have "round64 x = Fin ?r" using False by (simp add: round64_def Let_def)
  with lo hi show ?thesis by blast
qed

text \<open>Rounding keeps the sign of a number that is not tiny.\<close>

lemma rne_negative: "y \<le> - 1 \<Longrightarrow> rne y \<le> - 1"
  using rne_mono [of y "of_int (- 1)"] rne_of_int [of "- 1"] by simp

lemma round64_exponent_scale:
  assumes "x \<noteq> 0" "2 powi (- 1000) \<le> \<bar>x\<bar>"
  shows "1 \<le> \<bar>x\<bar> / 2 powi (max (- 1074) (ilog2 \<bar>x\<bar> - 52))"
proof -
  let ?e = "max (- 1074) (ilog2 \<bar>x\<bar> - 52)"
  have "(2 :: rat) powi ?e \<le> \<bar>x\<bar>"
  proof (cases "ilog2 \<bar>x\<bar> - 52 \<le> - 1074")
    case True
    have "(2 :: rat) powi (- 1074) \<le> 2 powi (- 1000)" by (rule power_int_increasing) auto
    with True assms(2) show ?thesis by (simp only: max_absorb1)
  next
    case False
    have "(2 :: rat) powi (ilog2 \<bar>x\<bar> - 52) \<le> 2 powi (ilog2 \<bar>x\<bar>)"
      by (rule power_int_increasing) auto
    also have "\<dots> \<le> \<bar>x\<bar>" using assms(1) by (intro ilog2_lower) simp
    finally show ?thesis using False by (simp only: max_absorb2)
  qed
  then show ?thesis by (simp add: le_divide_eq)
qed

fun dbl_negative :: "dbl \<Rightarrow> bool" where
  "dbl_negative (Fin a) = (a < 0)"
| "dbl_negative NInf = True"
| "dbl_negative _ = False"

lemma round64_negative:
  assumes "x \<le> - (2 powi (- 1000))"
  shows "dbl_negative (round64 x)"
proof -
  have "(0 :: rat) < 2 powi (- 1000)" by simp
  then have x: "x < 0" using assms by linarith
  let ?e = "max (- 1074) (ilog2 \<bar>x\<bar> - 52)"
  have pos: "(0 :: rat) < 2 powi ?e" by simp
  have "1 \<le> \<bar>x\<bar> / 2 powi ?e" using x assms by (intro round64_exponent_scale) auto
  then have "x / 2 powi ?e \<le> - 1" using x by simp
  then have "rne (x / 2 powi ?e) \<le> - 1" by (rule rne_negative)
  then have "of_int (rne (x / 2 powi ?e)) < (0 :: rat)" by linarith
  then have neg: "of_int (rne (x / 2 powi ?e)) * 2 powi ?e < (0 :: rat)"
    using pos by (rule mult_neg_pos)
  have "\<not> (2::rat) ^ 1024 \<le> of_int (rne (x / 2 powi ?e)) * 2 powi ?e"
    using neg zero_le_power [of "2::rat" 1024] by linarith
  with x neg show ?thesis by (simp add: round64_def Let_def)
qed

section \<open>Operations\<close>

fun dneg :: "dbl \<Rightarrow> dbl" where
  "dneg (Fin a) = Fin (- a)"
| "dneg PInf = NInf"
| "dneg NInf = PInf"
| "dneg NaN = NaN"

fun dadd :: "dbl \<Rightarrow> dbl \<Rightarrow> dbl" where
  "dadd (Fin a) (Fin b) = round64 (a + b)"
| "dadd NaN _ = NaN"
| "dadd _ NaN = NaN"
| "dadd PInf NInf = NaN"
| "dadd NInf PInf = NaN"
| "dadd PInf _ = PInf"
| "dadd _ PInf = PInf"
| "dadd NInf _ = NInf"
| "dadd _ NInf = NInf"

definition dsub :: "dbl \<Rightarrow> dbl \<Rightarrow> dbl" where
  "dsub a b = dadd a (dneg b)"

definition dinf :: "rat \<Rightarrow> dbl" where
  "dinf s = (if s = 0 then NaN else if 0 < s then PInf else NInf)"

fun dsign :: "dbl \<Rightarrow> rat" where
  "dsign (Fin a) = sgn a"
| "dsign PInf = 1"
| "dsign NInf = - 1"
| "dsign NaN = 0"

fun dmul :: "dbl \<Rightarrow> dbl \<Rightarrow> dbl" where
  "dmul (Fin a) (Fin b) = round64 (a * b)"
| "dmul a b = (if a = NaN \<or> b = NaN then NaN else dinf (dsign a * dsign b))"

fun ddiv :: "dbl \<Rightarrow> dbl \<Rightarrow> dbl" where
  "ddiv (Fin a) (Fin b) = (if b = 0 then dinf a else round64 (a / b))"
| "ddiv NaN _ = NaN"
| "ddiv _ NaN = NaN"
| "ddiv (Fin a) _ = Fin 0"
| "ddiv PInf (Fin b) = (if 0 \<le> b then PInf else NInf)"
| "ddiv NInf (Fin b) = (if 0 \<le> b then NInf else PInf)"
| "ddiv PInf PInf = NaN"
| "ddiv PInf NInf = NaN"
| "ddiv NInf PInf = NaN"
| "ddiv NInf NInf = NaN"

fun dabs :: "dbl \<Rightarrow> dbl" where
  "dabs (Fin a) = Fin \<bar>a\<bar>"
| "dabs NaN = NaN"
| "dabs _ = PInf"

fun dlt :: "dbl \<Rightarrow> dbl \<Rightarrow> bool" where
  "dlt (Fin a) (Fin b) = (a < b)"
| "dlt NaN _ = False"
| "dlt _ NaN = False"
| "dlt NInf b = (b \<noteq> NInf)"
| "dlt PInf _ = False"
| "dlt (Fin _) b = (b = PInf)"

definition deq :: "dbl \<Rightarrow> dbl \<Rightarrow> bool" where
  "deq a b \<longleftrightarrow> a = b \<and> a \<noteq> NaN"

definition dle :: "dbl \<Rightarrow> dbl \<Rightarrow> bool" where
  "dle a b \<longleftrightarrow> dlt a b \<or> deq a b"

text \<open>Conversion of an integer and of a decimal literal.\<close>

definition dbl_of_int :: "int \<Rightarrow> dbl" where
  "dbl_of_int n = round64 (of_int n)"

definition dlit :: "rat \<Rightarrow> dbl" where
  "dlit q = round64 q"

lemma dbl_of_i32: "is_i32 n \<Longrightarrow> dbl_of_int n = Fin (of_int n)"
  unfolding dbl_of_int_def by (rule round64_of_int) (auto simp: is_i32_def)

lemma dbl_of_int_exact: "\<bar>n\<bar> < 2 ^ 53 \<Longrightarrow> dbl_of_int n = Fin (of_int n)"
  unfolding dbl_of_int_def by (rule round64_of_int)

lemma dlt_NaN [simp]: "\<not> dlt NaN a" "\<not> dlt a NaN"
  by (cases a; simp)+

lemma dle_NaN [simp]: "\<not> dle NaN a" "\<not> dle a NaN"
  by (simp_all add: dle_def deq_def)

lemma dle_Fin [simp]: "dle (Fin a) (Fin b) \<longleftrightarrow> a \<le> b"
  by (auto simp: dle_def deq_def)

lemma dlt_irrefl [simp]: "\<not> dlt a a"
  by (cases a) auto

lemma dlt_trans: "dlt a b \<Longrightarrow> dlt b c \<Longrightarrow> dlt a c"
  by (cases a; cases b; cases c) auto

text \<open>Quotients of integers: a ratio of a part to a non-empty whole stays between 0 and 1.\<close>

lemma ddiv_ratio:
  assumes "0 \<le> a" "a \<le> b" "0 < b"
  shows "\<exists>r. ddiv (Fin a) (Fin b) = Fin r \<and> 0 \<le> r \<and> r \<le> 1"
proof -
  have "of_int 0 \<le> a / b" "a / b \<le> of_int 1" using assms by simp_all
  then have "\<exists>r. round64 (a / b) = Fin r \<and> of_int 0 \<le> r \<and> r \<le> of_int 1"
    by (rule round64_between) auto
  with assms show ?thesis by simp
qed

lemma ddiv_by_zero: "ddiv (Fin a) (Fin 0) = dinf a"
  by simp

lemma round64_half:
  assumes "\<bar>n\<bar> < 2 ^ 34"
  shows "round64 (of_int n / 2) = Fin (of_int n / 2)"
proof (cases "n = 0")
  case True
  then show ?thesis by (simp add: round64_def)
next
  case False
  let ?x = "of_int n / 2 :: rat"
  have lt: "\<bar>of_int n :: rat\<bar> < 2 ^ 34"
    using assms by (metis of_int_abs of_int_less_iff of_int_numeral of_int_power)
  then have "\<bar>?x\<bar> < 2 powi 34" by (simp add: power_int_def)
  then have e: "max (- 1074) (ilog2 \<bar>?x\<bar> - 52) \<le> - 1"
    using ilog2_less [of "\<bar>?x\<bar>" 34] False by simp
  let ?e = "max (- 1074) (ilog2 \<bar>?x\<bar> - 52)"
  have "?x / 2 powi ?e = of_int n / 2 powi (?e + 1)"
    by (simp add: power_int_add)
  also have "\<dots> = of_int (n * 2 ^ nat (- (?e + 1)))"
    using e by (intro powi_le_one_grid) simp
  finally have g: "?x / 2 powi ?e = of_int (n * 2 ^ nat (- (?e + 1)))" .
  then have "of_int (rne (?x / 2 powi ?e)) * 2 powi ?e = ?x"
    by (metis nonzero_eq_divide_eq power_int_eq_0_iff rne_of_int zero_neq_numeral)
  moreover have "(2::rat) ^ 34 < 2 ^ 1024" by (rule power_strict_increasing) auto
  then have "\<not> 2 ^ 1024 \<le> ?x" "\<not> ?x \<le> - (2 ^ 1024)" using lt by linarith+
  ultimately show ?thesis using False by (simp add: round64_def Let_def)
qed

lemma ddiv_half:
  assumes "is_i32 n"
  shows "ddiv (dbl_of_int n) (dbl_of_int 2) = Fin (of_int n / 2)"
proof -
  have "dbl_of_int 2 = Fin 2" using dbl_of_i32 [of 2] by (simp add: is_i32_def)
  moreover have "\<bar>n\<bar> < 2 ^ 34" using assms by (auto simp: is_i32_def)
  ultimately show ?thesis using dbl_of_i32 [OF assms] by (simp add: round64_half)
qed

end
