(* ===== verification/Det_Layout.thy ===== *)
theory Det_Layout
  imports Binary64
begin

text \<open>
  The layout detector (det_layout/api/src/det_layout.cpp): the text boxes of a page, their
  non-maximum suppression, their grouping into lines, the proportions of the page that carry
  text, the configuration, and the decision whether a note is neat.

  A \<^verbatim>\<open>cv::Mat\<close> of bytes is a record; the statistics matrix of the connected components is a list
  of rows with the five columns of OpenCV. OpenCV, Boost and \<^verbatim>\<open>std::pow\<close> are arguments of the
  definitions that call them. \<^verbatim>\<open>DilateImage\<close>, \<^verbatim>\<open>cv::cvtColor\<close>, \<^verbatim>\<open>cv::threshold\<close> and
  \<^verbatim>\<open>cv::connectedComponentsWithStats\<close> are fields of \<open>opencv\<close>.
\<close>

section \<open>Data\<close>

record Rect =
  rx :: int
  ry :: int
  rwidth :: int
  rheight :: int

text \<open>One row of the statistics matrix: \<^verbatim>\<open>CC_STAT_LEFT, TOP, WIDTH, HEIGHT, AREA\<close>.\<close>

record stat_row =
  st_x :: int
  st_y :: int
  st_w :: int
  st_h :: int
  st_area :: int

type_synonym stats = "stat_row list"

record cvmat =
  mrows :: int
  mcols :: int
  mchannels :: int
  isContinuous :: bool
  mstep :: nat
  mdata :: "8 word list"

text \<open>\<^verbatim>\<open>NeatTarget\<close>; all fields start at 0.\<close>

record NeatTarget =
  mean_width :: dbl
  std_height :: dbl
  text_area_p :: dbl
  text_block_p :: dbl
  box_count :: int

definition rarea :: "Rect \<Rightarrow> int" where
  "rarea r = mul32 (rwidth r) (rheight r)"

definition stat_area :: "stat_row \<Rightarrow> int" where
  "stat_area s = mul32 (st_w s) (st_h s)"

section \<open>Proportions of the page\<close>

text \<open>
  The bytes of the binary image. A matrix that is not continuous is read row by row through a
  pointer to 32-bit words of which one byte each is kept, so a row reads four times its width.
\<close>

definition row_words :: "cvmat \<Rightarrow> nat \<Rightarrow> 8 word list result" where
  "row_words m i = (if i * mstep m + 4 * nat (mcols m) \<le> length (mdata m)
     then Inr (map (\<lambda>k. mdata m ! (i * mstep m + 4 * k)) [0..<nat (mcols m)])
     else Inl Out_Of_Bounds)"

fun rows_words :: "cvmat \<Rightarrow> nat list \<Rightarrow> 8 word list result" where
  "rows_words m [] = Inr []"
| "rows_words m (i # is) =
     bind_result (row_words m i) (\<lambda>r. bind_result (rows_words m is) (\<lambda>rs. Inr (r @ rs)))"

definition img_data :: "cvmat \<Rightarrow> 8 word list result" where
  "img_data m = (if isContinuous m then Inr (mdata m) else rows_words m [0..<nat (mrows m)])"

type_synonym bounds = "int \<times> int \<times> int \<times> int"

text \<open>One round of the loop that widens a bounding box (left, top, right, bottom).\<close>

fun grow_bounds :: "bounds \<Rightarrow> stat_row \<Rightarrow> bounds" where
  "grow_bounds (left_x, top_y, right_x, bottom_y) s =
     (if st_x s < left_x then st_x s else left_x,
      if st_y s < top_y then st_y s else top_y,
      if add32 (st_x s) (st_w s) > right_x then add32 (st_x s) (st_w s) else right_x,
      if add32 (st_y s) (st_h s) > bottom_y then add32 (st_y s) (st_h s) else bottom_y)"

definition bounds_of :: "stat_row \<Rightarrow> bounds" where
  "bounds_of s = (st_x s, st_y s, add32 (st_w s) (st_x s), add32 (st_h s) (st_y s))"

text \<open>
  The bounding box of all components. The guard tests for a row 0, but row 1 is read: with the
  background row alone the read is outside the matrix.
\<close>

definition page_bounds :: "stats \<Rightarrow> bounds result" where
  "page_bounds stats =
     bind_result
       (if 0 < length stats
        then (if 1 < length stats then Inr (bounds_of (stats ! 1)) else Inl Out_Of_Bounds)
        else Inr (0, 0, 0, 0))
       (\<lambda>init. Inr (foldl grow_bounds init (drop 1 stats)))"

type_synonym Proportion = "dbl \<times> dbl \<times> dbl"

definition CalcProportion :: "cvmat \<Rightarrow> stats \<Rightarrow> Proportion result" where
  "CalcProportion bin_img stats =
     bind_result (img_data bin_img) (\<lambda>bytes.
     let text_part = quot32 (accumulate32 (map uint bytes) 0) 255 in
     bind_result (page_bounds stats) (\<lambda>(left_x, top_y, right_x, bottom_y).
     let box = mul32 (sub32 right_x left_x) (sub32 bottom_y top_y);
         relative_bg_part = dbl_of_int box;
         bg_part = dbl_of_int (mul32 (mrows bin_img) (mcols bin_img));
         ab_proportion = ddiv (dbl_of_int text_part) bg_part;
         rl_proportion = ddiv (dbl_of_int text_part) relative_bg_part;
         text_block_proportion = ddiv (dbl_of_int box) bg_part
     in Inr (ab_proportion, rl_proportion, text_block_proportion)))"

section \<open>Overlap and non-maximum suppression\<close>

text \<open>The two overloads of \<^verbatim>\<open>Iou\<close>: the first divides by the area of \<open>a\<close>, the second by that of \<open>b\<close>.\<close>

definition Iou :: "Rect \<Rightarrow> Rect \<Rightarrow> dbl" where
  "Iou a b =
     (let inter_left_x = max (rx a) (rx b);
          inter_top_y = max (ry a) (ry b);
          inter_right_x = min (add32 (rx a) (rwidth a)) (add32 (rx b) (rwidth b));
          inter_bottom_y = min (add32 (ry a) (rheight a)) (add32 (ry b) (rheight b));
          inter_w = dbl_of_int (max 0 (add32 (sub32 inter_right_x inter_left_x) 1));
          inter_h = dbl_of_int (max 0 (add32 (sub32 inter_bottom_y inter_top_y) 1))
      in ddiv (dmul inter_w inter_h) (dbl_of_int (rarea a)))"

definition Iou_stats :: "stats \<Rightarrow> nat \<Rightarrow> nat \<Rightarrow> dbl" where
  "Iou_stats stats a b =
     (let a_x = st_x (stats ! a); a_y = st_y (stats ! a);
          a_w = st_w (stats ! a); a_h = st_h (stats ! a);
          b_x = st_x (stats ! b); b_y = st_y (stats ! b);
          b_w = st_w (stats ! b); b_h = st_h (stats ! b);
          inter_topleft_x = max a_x b_x;
          inter_topleft_y = max a_y b_y;
          inter_bottomright_x = min (add32 a_x a_w) (add32 b_x b_w);
          inter_bottomright_y = min (add32 a_y a_h) (add32 b_y b_h);
          inter_w = dbl_of_int (max 0 (add32 (sub32 inter_bottomright_x inter_topleft_x) 1));
          inter_h = dbl_of_int (max 0 (add32 (sub32 inter_bottomright_y inter_topleft_y) 1))
      in ddiv (dmul inter_w inter_h) (dbl_of_int (mul32 b_w b_h)))"

text \<open>The box is dropped when it covers more than a fifth of the page.\<close>

definition too_big :: "int \<Rightarrow> int \<Rightarrow> bool" where
  "too_big total_area a \<longleftrightarrow> dlt (dmul (dlit (1 / 5)) (dbl_of_int total_area)) (dbl_of_int a)"

text \<open>The loop of \<^verbatim>\<open>Nms\<close> on rectangles: \<open>stats\<close> shrinks, \<open>new_stats\<close> grows.\<close>

function Nms_loop :: "dbl \<Rightarrow> Rect list \<Rightarrow> Rect list \<Rightarrow> Rect list" where
  "Nms_loop threshold [] new_stats = new_stats"
| "Nms_loop threshold (biggest # rest) new_stats =
     (let new_stats' = new_stats @ [biggest] in
      if rest = [] then new_stats'
      else Nms_loop threshold (filter (\<lambda>j. \<not> dlt threshold (Iou j biggest)) rest) new_stats')"
  by pat_completeness auto
termination
  by (relation "measure (\<lambda>(_, stats, _). length stats)") (auto simp: less_Suc_eq_le)

definition Nms ::
  "((Rect \<Rightarrow> Rect \<Rightarrow> bool) \<Rightarrow> Rect list \<Rightarrow> Rect list) \<Rightarrow> Rect list \<Rightarrow> int \<Rightarrow> dbl \<Rightarrow>
   Rect list \<Rightarrow> Rect list" where
  "Nms srt stats total_area threshold new_stats =
     Nms_loop threshold
       (filter (\<lambda>i. \<not> too_big total_area (rarea i)) (srt (\<lambda>a b. rarea a > rarea b) stats))
       new_stats"

text \<open>The loop of \<^verbatim>\<open>Nms\<close> on row numbers of the statistics matrix.\<close>

function Nms_stats_loop :: "stats \<Rightarrow> dbl \<Rightarrow> nat list \<Rightarrow> nat list \<Rightarrow> nat list" where
  "Nms_stats_loop stats threshold [] result = result"
| "Nms_stats_loop stats threshold (biggest # rest) result =
     (let result' = result @ [biggest] in
      if rest = [] then result'
      else Nms_stats_loop stats threshold
             (filter (\<lambda>i. \<not> dlt threshold (Iou_stats stats biggest i)) rest) result')"
  by pat_completeness auto
termination
  by (relation "measure (\<lambda>(_, _, indices, _). length indices)") (auto simp: less_Suc_eq_le)

text \<open>
  The vector of row numbers has \<^verbatim>\<open>stats.rows - 1\<close> elements, starting at 1; for a matrix without
  rows the size converts to the largest \<^verbatim>\<open>size_t\<close> and the constructor throws.
\<close>

definition Nms_stats ::
  "((nat \<Rightarrow> nat \<Rightarrow> bool) \<Rightarrow> nat list \<Rightarrow> nat list) \<Rightarrow> stats \<Rightarrow> int \<Rightarrow> dbl \<Rightarrow> nat list \<Rightarrow>
   nat list result" where
  "Nms_stats srt stats total_area threshold result =
     (if stats = [] then Inl Length_Error else
      let indices = [1..<length stats];
          sorted_indices = srt (\<lambda>a b. stat_area (stats ! a) > stat_area (stats ! b)) indices;
          kept = filter (\<lambda>i. \<not> too_big total_area (stat_area (stats ! i))) sorted_indices
      in Inr (Nms_stats_loop stats threshold kept result))"

section \<open>Grouping boxes into lines\<close>

definition centre_y :: "stat_row \<Rightarrow> dbl" where
  "centre_y s = dadd (dbl_of_int (st_y s)) (ddiv (dbl_of_int (st_h s)) (dbl_of_int 2))"

definition row_order :: "stats \<Rightarrow> nat \<Rightarrow> nat \<Rightarrow> bool" where
  "row_order stats a b =
     (if deq (centre_y (stats ! a)) (centre_y (stats ! b))
      then st_y (stats ! a) < st_y (stats ! b)
      else dlt (centre_y (stats ! a)) (centre_y (stats ! b)))"

text \<open>
  The inner loop over \<open>j\<close>: the state is the group (a \<^verbatim>\<open>std::set<int>\<close>, kept as its ascending
  list) and the horizontal extent covered so far.
\<close>

fun group_step ::
  "stats \<Rightarrow> dbl \<Rightarrow> dbl \<Rightarrow> nat \<Rightarrow> nat list \<times> int \<times> int \<Rightarrow> nat \<Rightarrow> nat list \<times> int \<times> int" where
  "group_step stats mean_height target_height i (tmp_group, tmp_left_x, tmp_right_x) j =
     (let right_x_j = add32 (st_x (stats ! j)) (st_w (stats ! j));
          left_x_j = st_x (stats ! j)
      in if dlt (dabs (dsub (centre_y (stats ! j)) (centre_y (stats ! i)))) mean_height \<and>
            (dlt (dbl_of_int (abs32 (sub32 tmp_left_x right_x_j))) target_height \<or>
             dlt (dbl_of_int (abs32 (sub32 left_x_j tmp_right_x))) target_height)
         then (insort_insert j (insort_insert i tmp_group),
               min tmp_left_x left_x_j, max tmp_right_x right_x_j)
         else (tmp_group, tmp_left_x, tmp_right_x))"

definition line_group_of :: "stats \<Rightarrow> dbl \<Rightarrow> dbl \<Rightarrow> nat list \<Rightarrow> nat \<Rightarrow> nat list" where
  "line_group_of stats mean_height target_height indices i =
     fst (foldl (group_step stats mean_height target_height i)
       ([], st_x (stats ! i), add32 (st_x (stats ! i)) (st_w (stats ! i))) indices)"

text \<open>The rectangle of a line: the bounding box of its members.\<close>

definition line_rect :: "stats \<Rightarrow> nat list \<Rightarrow> Rect" where
  "line_rect stats line =
     (case foldl grow_bounds (bounds_of (stats ! hd line)) (map ((!) stats) line) of
        (left_x, top_y, right_x, bottom_y) \<Rightarrow>
          \<lparr>rx = left_x, ry = top_y,
           rwidth = sub32 right_x left_x, rheight = sub32 bottom_y top_y\<rparr>)"

definition mean_height_of :: "stats \<Rightarrow> nat list \<Rightarrow> dbl" where
  "mean_height_of stats indices =
     ddiv (dbl_of_int (accumulate32 (map (\<lambda>i. st_h (stats ! i)) indices) 0))
       (dbl_of_int (int (length indices)))"

definition ConnectBlock ::
  "((nat \<Rightarrow> nat \<Rightarrow> bool) \<Rightarrow> nat list \<Rightarrow> nat list) \<Rightarrow> stats \<Rightarrow> nat list \<Rightarrow> Rect list \<Rightarrow>
   nat list \<times> Rect list" where
  "ConnectBlock srt stats indices new_stats =
     (let indices' = srt (row_order stats) indices;
          mean_height = mean_height_of stats indices';
          target_height = dmul mean_height (dlit (1 / 2));
          groups = map (line_group_of stats mean_height target_height indices') indices';
          line_group = filter (\<lambda>g. g \<noteq> []) groups
      in (indices', new_stats @ map (line_rect stats) line_group))"

section \<open>Configuration\<close>

text \<open>
  The module's globals, with the state of the logging library: how many file sinks were added
  and the severity below which records are dropped.
\<close>

record globals =
  g_area_p :: dbl
  g_text_p :: dbl
  g_box_count :: int
  g_width_std :: dbl
  log_sinks :: nat
  log_filter :: "int option"

definition initial_globals :: globals where
  "initial_globals = \<lparr>g_area_p = dlit (3333 / 10000), g_text_p = dlit (2 / 100),
     g_box_count = 30, g_width_std = dbl_of_int 40, log_sinks = 0, log_filter = None\<rparr>"

text \<open>
  The property tree of Boost: reading a file, and the typed lookups, which give \<^const>\<open>None\<close> when
  the key is absent or its value does not convert. The conversion of a \<^verbatim>\<open>double\<close> default to
  \<^verbatim>\<open>int\<close> truncates.
\<close>

record 'p ini_lib =
  read_ini :: "string \<Rightarrow> 'p option"
  get_double :: "'p \<Rightarrow> string \<Rightarrow> dbl option"
  get_int :: "'p \<Rightarrow> string \<Rightarrow> int option"
  get_bool :: "'p \<Rightarrow> string \<Rightarrow> bool option"

definition get_or :: "'a option \<Rightarrow> 'a \<Rightarrow> 'a" where
  "get_or v d = (case v of None \<Rightarrow> d | Some x \<Rightarrow> x)"

fun trunc_int :: "dbl \<Rightarrow> int" where
  "trunc_int (Fin q) = (if 0 \<le> q then \<lfloor>q\<rfloor> else \<lceil>q\<rceil>)"
| "trunc_int _ = - (2 ^ 31)"

definition Init :: "'p ini_lib \<Rightarrow> string \<Rightarrow> globals \<Rightarrow> globals result" where
  "Init lib config_file g =
     (case read_ini lib config_file of
        None \<Rightarrow> Inl Ini_Exception
      | Some pt \<Rightarrow>
          let g = g\<lparr>g_area_p := get_or (get_double lib pt ''text_block_proportion'') (g_area_p g)\<rparr>;
              g = g\<lparr>g_text_p := get_or (get_double lib pt ''text_proportion'') (g_text_p g)\<rparr>;
              g = g\<lparr>g_box_count := get_or (get_int lib pt ''text_block_count'') (g_box_count g)\<rparr>;
              g = g\<lparr>g_width_std := dbl_of_int
                     (get_or (get_int lib pt ''text_block_width_std'') (trunc_int (g_width_std g)))\<rparr>;
              g = (if get_or (get_bool lib pt ''log_save'') True
                   then g\<lparr>log_sinks := Suc (log_sinks g)\<rparr> else g)
          in Inr (g\<lparr>log_filter := Some (get_or (get_int lib pt ''log_level'') 4)\<rparr>))"

section \<open>The decision\<close>

text \<open>
  What the detector calls of OpenCV and of the C library. Each image operation may throw.
\<close>

record opencv =
  cvtColor_BGR2GRAY :: "cvmat \<Rightarrow> cvmat result"
  threshold_inv :: "cvmat \<Rightarrow> int \<Rightarrow> int \<Rightarrow> cvmat result"
  dilate_cross :: "cvmat \<Rightarrow> int \<Rightarrow> int \<Rightarrow> cvmat result"
  connectedComponentsWithStats :: "cvmat \<Rightarrow> stats result"
  libm_pow :: "dbl \<Rightarrow> dbl \<Rightarrow> dbl"
  sort_nat :: "(nat \<Rightarrow> nat \<Rightarrow> bool) \<Rightarrow> nat list \<Rightarrow> nat list"
  sort_rect :: "(Rect \<Rightarrow> Rect \<Rightarrow> bool) \<Rightarrow> Rect list \<Rightarrow> Rect list"

definition DilateImage :: "opencv \<Rightarrow> cvmat \<Rightarrow> cvmat result" where
  "DilateImage cv img = dilate_cross cv img 4 2"

text \<open>The comparison of a \<^verbatim>\<open>size_t\<close> with an \<^verbatim>\<open>int\<close> converts the \<^verbatim>\<open>int\<close> to 64 unsigned bits.\<close>

definition size_ge_int :: "nat \<Rightarrow> int \<Rightarrow> bool" where
  "size_ge_int n b \<longleftrightarrow> b mod 2 ^ 64 \<le> int n"

definition mean_of :: "(Rect \<Rightarrow> int) \<Rightarrow> Rect list \<Rightarrow> dbl" where
  "mean_of f rs = ddiv (dbl_of_int (foldl (\<lambda>s r. add32 s (f r)) 0 rs)) (dbl_of_int (int (length rs)))"

definition deviation_of :: "opencv \<Rightarrow> dbl \<Rightarrow> Rect list \<Rightarrow> dbl" where
  "deviation_of cv mean rs =
     foldl (\<lambda>d r. dadd d (libm_pow cv (dsub (dbl_of_int (rheight r)) mean) (dbl_of_int 2))) (Fin 0) rs"

text \<open>The last test: all four conditions against the configured thresholds.\<close>

definition neat_decision :: "globals \<Rightarrow> dbl \<Rightarrow> dbl \<Rightarrow> nat \<Rightarrow> dbl \<Rightarrow> bool" where
  "neat_decision g area_p text_p n_boxes std_deviation \<longleftrightarrow>
     dlt (g_area_p g) area_p \<and> dle (g_text_p g) text_p \<and>
     size_ge_int n_boxes (g_box_count g) \<and> dle std_deviation (g_width_std g)"

definition IsNoteNeat ::
  "opencv \<Rightarrow> globals \<Rightarrow> cvmat \<Rightarrow> NeatTarget \<Rightarrow> (bool \<times> NeatTarget) result" where
  "IsNoteNeat cv g img neat_target =
     bind_result (cvtColor_BGR2GRAY cv img) (\<lambda>gray_scale.
     bind_result (threshold_inv cv gray_scale 127 255) (\<lambda>bin_img.
     bind_result (DilateImage cv bin_img) (\<lambda>after_dilate.
     bind_result (connectedComponentsWithStats cv after_dilate) (\<lambda>stats.
     bind_result (CalcProportion bin_img stats) (\<lambda>(ab_p, text_p, area_p).
     let total = mul32 (mrows bin_img) (mcols bin_img) in
     bind_result (Nms_stats (sort_nat cv) stats total (dlit (1 / 2)) []) (\<lambda>indices.
     let (indices', new_stats) = ConnectBlock (sort_nat cv) stats indices [] in
     if new_stats = [] then Inr (False, neat_target) else
     let final_stats = Nms (sort_rect cv) new_stats total (dlit (1 / 2)) [] in
     if final_stats = [] then Inr (False, neat_target) else
     let mean_height = mean_of rheight final_stats;
         neat_target = neat_target\<lparr>mean_width := mean_of rwidth final_stats\<rparr>;
         deviation = deviation_of cv mean_height final_stats;
         final_stats = sort_rect cv (\<lambda>a b. rx a < rx b) final_stats;
         std_deviation = libm_pow cv
           (ddiv deviation (dbl_of_int (int (length final_stats)))) (dlit (1 / 2));
         neat_target = neat_target\<lparr>box_count := wrap32 (int (length final_stats)),
           std_height := std_deviation, text_area_p := area_p, text_block_p := text_p\<rparr>
     in Inr (neat_decision g area_p text_p (length final_stats) std_deviation, neat_target)))))))"

section \<open>Non-maximum suppression is correct\<close>

text \<open>
  What a suppression routine promises, over any kind of box: the kept boxes are admissible boxes
  of the input in descending order of area, no kept box is suppressed by an earlier kept one, and
  every admissible box that is not kept is suppressed by a kept box at least as large.
\<close>

definition nms_spec ::
  "('b \<Rightarrow> int) \<Rightarrow> ('b \<Rightarrow> 'b \<Rightarrow> bool) \<Rightarrow> ('b \<Rightarrow> bool) \<Rightarrow> 'b list \<Rightarrow> 'b list \<Rightarrow> bool" where
  "nms_spec area suppr big xs res \<longleftrightarrow>
     mset res \<subseteq># mset (filter (\<lambda>x. \<not> big x) xs) \<and>
     sorted_wrt (\<lambda>a b. area b \<le> area a) res \<and>
     sorted_wrt (\<lambda>b j. \<not> suppr b j) res \<and>
     (\<forall>x \<in> set xs. \<not> big x \<longrightarrow> x \<in> set res \<or> (\<exists>b \<in> set res. suppr b x \<and> area x \<le> area b))"

text \<open>
  The loop both overloads run: take the first box, drop what it suppresses, go on. \<open>suppr b j\<close> says
  that \<open>b\<close> suppresses \<open>j\<close>.
\<close>

locale greedy_suppression =
  fixes loop :: "'b list \<Rightarrow> 'b list \<Rightarrow> 'b list"
    and suppr :: "'b \<Rightarrow> 'b \<Rightarrow> bool"
  assumes loop_Nil: "loop [] acc = acc"
    and loop_Cons: "loop (b # bs) acc = loop (filter (\<lambda>j. \<not> suppr b j) bs) (acc @ [b])"
begin

lemma loop_acc: "loop xs acc = acc @ loop xs []"
proof (induction "length xs" arbitrary: xs acc rule: less_induct)
  case less
  show ?case
  proof (cases xs)
    case Nil
    then show ?thesis by (simp add: loop_Nil)
  next
    case (Cons b bs)
    let ?f = "filter (\<lambda>j. \<not> suppr b j) bs"
    have "length ?f < length xs" using Cons by (simp add: less_Suc_eq_le)
    then have "loop ?f (acc @ [b]) = acc @ b # loop ?f []" "loop ?f [b] = b # loop ?f []"
      using less [of ?f "acc @ [b]"] less [of ?f "[b]"] by simp_all
    then show ?thesis using Cons by (simp add: loop_Cons)
  qed
qed

lemma loop_unfold: "loop (b # bs) [] = b # loop (filter (\<lambda>j. \<not> suppr b j) bs) []"
  using loop_acc [of _ "[b]"] by (simp add: loop_Cons)

lemma greedy_induct [case_names Nil Cons]:
  assumes "P []" and "\<And>b bs. P (filter (\<lambda>j. \<not> suppr b j) bs) \<Longrightarrow> P (b # bs)"
  shows "P xs"
proof (induction "length xs" arbitrary: xs rule: less_induct)
  case less
  then show ?case using assms by (cases xs) (auto simp: less_Suc_eq_le)
qed

lemma loop_subseq: "subseq (loop xs []) xs"
proof (induction xs rule: greedy_induct)
  case (Cons b bs)
  then show ?case
    using subseq_order.order_trans [OF Cons subseq_filter_left] by (simp add: loop_unfold)
qed (simp add: loop_Nil)

lemma set_loop: "set (loop xs []) \<subseteq> set xs"
  by (rule subseq_set) (rule loop_subseq)

lemma loop_unsuppressed: "sorted_wrt (\<lambda>b j. \<not> suppr b j) (loop xs [])"
proof (induction xs rule: greedy_induct)
  case (Cons b bs)
  then show ?case using set_loop by (fastforce simp: loop_unfold)
qed (simp add: loop_Nil)

lemma loop_covers:
  assumes "x \<in> set xs" "sorted_wrt R xs"
  shows "x \<in> set (loop xs []) \<or> (\<exists>b \<in> set (loop xs []). suppr b x \<and> R b x)"
  using assms
proof (induction xs rule: greedy_induct)
  case (Cons b bs)
  show ?case
  proof (cases "x = b \<or> suppr b x")
    case True
    with Cons.prems show ?thesis by (auto simp: loop_unfold)
  next
    case False
    with Cons show ?thesis by (auto simp: loop_unfold sorted_wrt_filter)
  qed
qed simp

lemma loop_nms_spec:
  assumes "mset ys = mset xs" "sorted_wrt (\<lambda>a b. area b \<le> area a) ys"
  shows "nms_spec area suppr big xs (loop (filter (\<lambda>x. \<not> big x) ys) [])"
proof -
  let ?ys = "filter (\<lambda>x. \<not> big x) ys"
  have sub: "subseq (loop ?ys []) ?ys" by (rule loop_subseq)
  have srt: "sorted_wrt (\<lambda>a b. area b \<le> area a) ?ys" using assms(2) by (rule sorted_wrt_filter)
  have "mset (loop ?ys []) \<subseteq># mset ?ys" using sub by (rule subseq_mset)
  also have "mset ?ys = mset (filter (\<lambda>x. \<not> big x) xs)" using assms(1) by simp
  finally have 1: "mset (loop ?ys []) \<subseteq># mset (filter (\<lambda>x. \<not> big x) xs)" .
  have 2: "sorted_wrt (\<lambda>a b. area b \<le> area a) (loop ?ys [])"
    using sub srt by (rule subseq_sorted_wrt)
  have "set ys = set xs" using assms(1) by (rule mset_eq_setD)
  then have 3: "x \<in> set (loop ?ys []) \<or> (\<exists>b \<in> set (loop ?ys []). suppr b x \<and> area x \<le> area b)"
    if "x \<in> set xs" "\<not> big x" for x
    using loop_covers [of x ?ys, OF _ srt] that by auto
  show ?thesis unfolding nms_spec_def using 1 2 3 loop_unsuppressed by blast
qed

end

interpretation nms: greedy_suppression "Nms_loop t" "\<lambda>b j. dlt t (Iou j b)" for t
  by unfold_locales (simp_all add: Let_def)

interpretation nms_stats: greedy_suppression "Nms_stats_loop stats t"
  "\<lambda>b j. dlt t (Iou_stats stats b j)" for stats t
  by unfold_locales (simp_all add: Let_def)

lemma cmp_sorted_greater: "cmp_sorted (\<lambda>a b. f a > f b) xs \<longleftrightarrow> sorted_wrt (\<lambda>a b. f b \<le> f a) xs"
  for f :: "'a \<Rightarrow> 'b::linorder"
  by (simp add: cmp_sorted_def not_less)

text \<open>
  C1. Non-maximum suppression of rectangles (the second pass of the detector), for every sorting
  routine that meets the contract of std::sort: the boxes kept are exactly what the specification
  of suppression asks for, with overlap measured by Iou against the larger kept box.
\<close>

theorem Nms_correct:
  assumes "std_sort srt"
  shows "nms_spec rarea (\<lambda>b j. dlt threshold (Iou j b)) (\<lambda>r. too_big total_area (rarea r)) boxes
    (Nms srt boxes total_area threshold [])"
  unfolding Nms_def
  using std_sortD [OF assms strict_weak_key_greater]
  by (intro nms.loop_nms_spec) (simp_all add: cmp_sorted_greater)

theorem Nms_correct_witness:
  "std_sort sort_by \<and>
   nms_spec rarea (\<lambda>b j. dlt (Fin (1 / 2)) (Iou j b)) (\<lambda>r. too_big 10000 (rarea r))
     [\<lparr>rx = 0, ry = 0, rwidth = 9, rheight = 9\<rparr>, \<lparr>rx = 1, ry = 1, rwidth = 20, rheight = 20\<rparr>]
     (Nms sort_by [\<lparr>rx = 0, ry = 0, rwidth = 9, rheight = 9\<rparr>,
       \<lparr>rx = 1, ry = 1, rwidth = 20, rheight = 20\<rparr>] 10000 (Fin (1 / 2)) [])"
  using Nms_correct [OF std_sort_sort_by] std_sort_sort_by by blast

text \<open>
  C2. Non-maximum suppression of the rows of the statistics matrix (the first pass): on a matrix
  with at least the background row it returns, and keeps row numbers from 1 upwards that meet the
  same specification.
\<close>

theorem Nms_stats_correct:
  assumes "std_sort srt" "stats \<noteq> []"
  shows "\<exists>kept. Nms_stats srt stats total_area threshold [] = Inr kept \<and>
    nms_spec (\<lambda>i. stat_area (stats ! i)) (\<lambda>b j. dlt threshold (Iou_stats stats b j))
      (\<lambda>i. too_big total_area (stat_area (stats ! i))) [1..<length stats] kept"
proof -
  let ?ys = "srt (\<lambda>a b. stat_area (stats ! a) > stat_area (stats ! b)) [1..<length stats]"
  have "nms_spec (\<lambda>i. stat_area (stats ! i)) (\<lambda>b j. dlt threshold (Iou_stats stats b j))
      (\<lambda>i. too_big total_area (stat_area (stats ! i))) [1..<length stats]
      (Nms_stats_loop stats threshold
        (filter (\<lambda>i. \<not> too_big total_area (stat_area (stats ! i))) ?ys) [])"
    using std_sortD [OF assms(1) strict_weak_key_greater]
    by (intro nms_stats.loop_nms_spec) (simp_all only: cmp_sorted_greater)
  with assms(2) show ?thesis by (simp add: Nms_stats_def Let_def)
qed

definition example_stats :: stats where
  "example_stats =
     [\<lparr>st_x = 0, st_y = 0, st_w = 100, st_h = 100, st_area = 9000\<rparr>,
      \<lparr>st_x = 10, st_y = 10, st_w = 8, st_h = 20, st_area = 100\<rparr>,
      \<lparr>st_x = 20, st_y = 10, st_w = 8, st_h = 20, st_area = 100\<rparr>]"

theorem Nms_stats_correct_witness:
  "std_sort sort_by \<and> example_stats \<noteq> [] \<and>
   (\<exists>kept. Nms_stats sort_by example_stats 10000 (Fin (1 / 2)) [] = Inr kept \<and>
    nms_spec (\<lambda>i. stat_area (example_stats ! i))
      (\<lambda>b j. dlt (Fin (1 / 2)) (Iou_stats example_stats b j))
      (\<lambda>i. too_big 10000 (stat_area (example_stats ! i))) [1..<length example_stats] kept)"
proof -
  have "example_stats \<noteq> []" by (simp add: example_stats_def)
  with Nms_stats_correct [OF std_sort_sort_by this] std_sort_sort_by show ?thesis by blast
qed

text \<open>The rectangle a row of the matrix describes; both overloads of Iou compute the same number.\<close>

definition rect_of :: "stat_row \<Rightarrow> Rect" where
  "rect_of s = \<lparr>rx = st_x s, ry = st_y s, rwidth = st_w s, rheight = st_h s\<rparr>"

lemma rarea_rect_of [simp]: "rarea (rect_of s) = stat_area s"
  by (simp add: rarea_def stat_area_def rect_of_def)





end
