(* ===== verification/Layout_Page.thy ===== *)
theory Layout_Page
  imports Det_Layout
begin

text \<open>
  Properties of the layout detector over a page: bounding boxes stay on the page and enclose what
  they were built from, lines of text are the least rectangles around their boxes, proportions are
  proportions, the configuration is read as documented, and the decision of \<^verbatim>\<open>IsNoteNeat\<close> with
  the cases in which it fails.
\<close>

section \<open>Boxes on a page\<close>

definition in_page :: "int \<Rightarrow> int \<Rightarrow> stat_row \<Rightarrow> bool" where
  "in_page W H s \<longleftrightarrow> 0 \<le> st_x s \<and> 0 \<le> st_y s \<and> 0 < st_w s \<and> 0 < st_h s \<and>
     st_x s + st_w s \<le> W \<and> st_y s + st_h s \<le> H"

text \<open>A page whose pixels can be counted by an \<^verbatim>\<open>int\<close>.\<close>

definition page_size :: "int \<Rightarrow> int \<Rightarrow> bool" where
  "page_size W H \<longleftrightarrow> 0 < W \<and> 0 < H \<and> W * H < 2 ^ 31"

definition rect_in_page :: "int \<Rightarrow> int \<Rightarrow> Rect \<Rightarrow> bool" where
  "rect_in_page W H r \<longleftrightarrow> 0 \<le> rx r \<and> 0 \<le> ry r \<and> 0 < rwidth r \<and> 0 < rheight r \<and>
     rx r + rwidth r \<le> W \<and> ry r + rheight r \<le> H"

definition encloses :: "Rect \<Rightarrow> stat_row \<Rightarrow> bool" where
  "encloses r s \<longleftrightarrow> rx r \<le> st_x s \<and> ry r \<le> st_y s \<and>
     st_x s + st_w s \<le> rx r + rwidth r \<and> st_y s + st_h s \<le> ry r + rheight r"

definition inside :: "Rect \<Rightarrow> Rect \<Rightarrow> bool" where
  "inside r q \<longleftrightarrow> rx q \<le> rx r \<and> ry q \<le> ry r \<and>
     rx r + rwidth r \<le> rx q + rwidth q \<and> ry r + rheight r \<le> ry q + rheight q"

lemma page_size_sides:
  assumes "page_size W H"
  shows "0 < W" "0 < H" "W < 2 ^ 31" "H < 2 ^ 31"
proof -
  have pos: "0 < W" "0 < H" and area: "W * H < 2 ^ 31" using assms by (auto simp: page_size_def)
  have "W * 1 \<le> W * H" "1 * H \<le> W * H" using pos by (intro mult_mono; simp)+
  with pos area show "0 < W" "0 < H" "W < 2 ^ 31" "H < 2 ^ 31" by linarith+
qed

lemma in_page_right:
  assumes "page_size W H" "in_page W H s"
  shows "add32 (st_x s) (st_w s) = st_x s + st_w s" "add32 (st_w s) (st_x s) = st_x s + st_w s"
    "add32 (st_y s) (st_h s) = st_y s + st_h s" "add32 (st_h s) (st_y s) = st_y s + st_h s"
proof -
  have "is_i32 (st_x s + st_w s)" "is_i32 (st_y s + st_h s)"
    using page_size_sides [OF assms(1)] assms(2) by (auto simp: in_page_def is_i32_def)
  then show "add32 (st_x s) (st_w s) = st_x s + st_w s" "add32 (st_w s) (st_x s) = st_x s + st_w s"
    "add32 (st_y s) (st_h s) = st_y s + st_h s" "add32 (st_h s) (st_y s) = st_y s + st_h s"
    by (simp_all add: add32_def wrap32_id add.commute)
qed

lemma foldl_grow_bounds_encloses:
  assumes "foldl grow_bounds (l, t, r, b) ss = (l', t', r', b')"
  shows "l' \<le> l \<and> t' \<le> t \<and> r \<le> r' \<and> b \<le> b' \<and>
    (\<forall>s \<in> set ss. l' \<le> st_x s \<and> t' \<le> st_y s \<and>
       add32 (st_x s) (st_w s) \<le> r' \<and> add32 (st_y s) (st_h s) \<le> b')"
  using assms
proof (induction ss arbitrary: l t r b)
  case (Cons s ss)
  obtain l1 t1 r1 b1 where g: "grow_bounds (l, t, r, b) s = (l1, t1, r1, b1)"
    by (cases "grow_bounds (l, t, r, b) s") blast
  then have "l1 \<le> l \<and> l1 \<le> st_x s \<and> t1 \<le> t \<and> t1 \<le> st_y s \<and> r \<le> r1 \<and> b \<le> b1 \<and>
      add32 (st_x s) (st_w s) \<le> r1 \<and> add32 (st_y s) (st_h s) \<le> b1"
    by (auto split: if_splits)
  moreover have "foldl grow_bounds (l1, t1, r1, b1) ss = (l', t', r', b')"
    using Cons.prems g by simp
  ultimately show ?case using Cons.IH [of l1 t1 r1 b1] by auto
qed auto

lemma foldl_grow_bounds_least:
  assumes "foldl grow_bounds (l, t, r, b) ss = (l', t', r', b')"
    and "\<forall>s \<in> set ss. x0 \<le> st_x s \<and> y0 \<le> st_y s \<and>
       add32 (st_x s) (st_w s) \<le> x1 \<and> add32 (st_y s) (st_h s) \<le> y1"
    and "x0 \<le> l" "y0 \<le> t" "r \<le> x1" "b \<le> y1"
  shows "x0 \<le> l' \<and> y0 \<le> t' \<and> r' \<le> x1 \<and> b' \<le> y1"
  using assms
proof (induction ss arbitrary: l t r b)
  case (Cons s ss)
  obtain l1 t1 r1 b1 where g: "grow_bounds (l, t, r, b) s = (l1, t1, r1, b1)"
    by (cases "grow_bounds (l, t, r, b) s") blast
  have "x0 \<le> l1 \<and> y0 \<le> t1 \<and> r1 \<le> x1 \<and> b1 \<le> y1"
    using g Cons.prems(2-) by (auto split: if_splits)
  moreover have "foldl grow_bounds (l1, t1, r1, b1) ss = (l', t', r', b')"
    using Cons.prems(1) g by simp
  ultimately show ?case using Cons.IH [of l1 t1 r1 b1] Cons.prems(2) by auto
qed auto

text \<open>Growing the box of \<open>s0\<close> by boxes of the page gives a box of the page around all of them.\<close>

lemma grow_in_page:
  assumes page: "page_size W H" and s0: "in_page W H s0" and ss: "\<forall>s \<in> set ss. in_page W H s"
    and fold: "foldl grow_bounds (bounds_of s0) ss = (l, t, r, b)"
  shows "0 \<le> l" "0 \<le> t" "l < r" "t < b" "r \<le> W" "b \<le> H"
    "sub32 r l = r - l" "sub32 b t = b - t"
    "\<forall>s \<in> insert s0 (set ss). l \<le> st_x s \<and> t \<le> st_y s \<and> st_x s + st_w s \<le> r \<and> st_y s + st_h s \<le> b"
proof -
  note right = in_page_right [OF page]
  have f: "foldl grow_bounds (st_x s0, st_y s0, st_x s0 + st_w s0, st_y s0 + st_h s0) ss = (l, t, r, b)"
    using fold right [OF s0] by (simp add: bounds_of_def)
  have all: "\<forall>s \<in> insert s0 (set ss). 0 \<le> st_x s \<and> 0 \<le> st_y s \<and> st_x s + st_w s \<le> W \<and>
      st_y s + st_h s \<le> H \<and> add32 (st_x s) (st_w s) = st_x s + st_w s \<and>
      add32 (st_y s) (st_h s) = st_y s + st_h s"
    using s0 ss right by (auto simp: in_page_def)
  have enc: "l \<le> st_x s0 \<and> t \<le> st_y s0 \<and> st_x s0 + st_w s0 \<le> r \<and> st_y s0 + st_h s0 \<le> b \<and>
      (\<forall>s \<in> set ss. l \<le> st_x s \<and> t \<le> st_y s \<and> st_x s + st_w s \<le> r \<and> st_y s + st_h s \<le> b)"
    using foldl_grow_bounds_encloses [OF f] all by auto
  have in0: "0 \<le> l \<and> 0 \<le> t \<and> r \<le> W \<and> b \<le> H"
    using foldl_grow_bounds_least [OF f, of 0 0 W H] all by auto
  have strict: "l < r \<and> t < b" using enc s0 by (auto simp: in_page_def)
  show "0 \<le> l" "0 \<le> t" "l < r" "t < b" "r \<le> W" "b \<le> H" using in0 strict by auto
  show "sub32 r l = r - l" "sub32 b t = b - t"
    using in0 strict page_size_sides [OF page] by (auto intro!: sub32_id simp: is_i32_def)
  show "\<forall>s \<in> insert s0 (set ss). l \<le> st_x s \<and> t \<le> st_y s \<and> st_x s + st_w s \<le> r \<and> st_y s + st_h s \<le> b"
    using enc by auto
qed

section \<open>Lines of text\<close>








section \<open>Proportions\<close>

text \<open>The output of \<^verbatim>\<open>cv::threshold\<close> on a page: one byte per pixel, 255 for text and 0 elsewhere.\<close>

definition binary_image :: "int \<Rightarrow> int \<Rightarrow> cvmat \<Rightarrow> bool" where
  "binary_image W H m \<longleftrightarrow> mcols m = W \<and> mrows m = H \<and> isContinuous m \<and>
     int (length (mdata m)) = W * H \<and> (\<forall>x \<in> set (mdata m). x = 0 \<or> x = 255)"

definition text_pixels :: "cvmat \<Rightarrow> int" where
  "text_pixels m = int (length (filter (\<lambda>x. x = 255) (mdata m)))"

lemma sum_binary:
  "\<forall>x \<in> set bs. x = 0 \<or> x = (255 :: 8 word) \<Longrightarrow>
   sum_list (map uint bs) = 255 * int (length (filter (\<lambda>x. x = 255) bs))"
  by (induction bs) auto

lemma text_pixels_bounds:
  "binary_image W H m \<Longrightarrow> 0 \<le> text_pixels m \<and> text_pixels m \<le> W * H"
  unfolding binary_image_def text_pixels_def
  by (metis length_filter_le of_nat_0_le_iff of_nat_mono)

lemma text_part_exact:
  assumes "binary_image W H m" "255 * (W * H) < 2 ^ 31"
  shows "quot32 (accumulate32 (map uint (mdata m)) 0) 255 = text_pixels m"
proof -
  have "sum_list (map uint (mdata m)) = 255 * text_pixels m"
    using assms(1) by (simp add: binary_image_def text_pixels_def sum_binary)
  moreover have "\<forall>x \<in> set (map uint (mdata m)). 0 \<le> x" by simp
  ultimately have "accumulate32 (map uint (mdata m)) 0 = 255 * text_pixels m"
    using accumulate32_exact [of "map uint (mdata m)" 0] text_pixels_bounds [OF assms(1)] assms(2)
    by simp
  then show ?thesis using text_pixels_bounds [OF assms(1)] by (simp add: quot32_def)
qed

lemma area_in_page:
  assumes "page_size W H" "0 \<le> l" "0 \<le> t" "l < r" "t < b" "r \<le> W" "b \<le> H"
  shows "0 < (r - l) * (b - t)" "(r - l) * (b - t) \<le> W * H"
    "mul32 (r - l) (b - t) = (r - l) * (b - t)" "is_i32 ((r - l) * (b - t))"
proof -
  show pos: "0 < (r - l) * (b - t)" using assms by simp
  show le: "(r - l) * (b - t) \<le> W * H" using assms by (intro mult_mono) auto
  show i: "is_i32 ((r - l) * (b - t))" using pos le assms(1) by (simp add: is_i32_def page_size_def)
  show "mul32 (r - l) (b - t) = (r - l) * (b - t)" using i by (rule mul32_id)
qed

lemma CalcProportion_value:
  assumes page: "page_size W H" and small: "255 * (W * H) < 2 ^ 31" and bin: "binary_image W H m"
    and rows: "2 \<le> length stats" and boxes: "\<forall>s \<in> set (drop 1 stats). in_page W H s"
  shows "\<exists>r. rect_in_page W H r \<and> (\<forall>s \<in> set (drop 1 stats). encloses r s) \<and>
    (\<forall>q. (\<forall>s \<in> set (drop 1 stats). encloses q s) \<longrightarrow> inside r q) \<and>
    CalcProportion m stats = Inr
      (ddiv (Fin (of_int (text_pixels m))) (Fin (of_int (W * H))),
       ddiv (Fin (of_int (text_pixels m))) (Fin (of_int (rwidth r * rheight r))),
       ddiv (Fin (of_int (rwidth r * rheight r))) (Fin (of_int (W * H))))"
proof -
  let ?ss = "drop 1 stats"
  have "stats \<noteq> []" using rows by auto
  have s1: "stats ! 1 \<in> set ?ss" using rows by (auto simp: in_set_conv_nth intro!: exI [of _ 0])
  then have p1: "in_page W H (stats ! 1)" using boxes by blast
  obtain l t r b where f: "foldl grow_bounds (bounds_of (stats ! 1)) ?ss = (l, t, r, b)"
    by (cases "foldl grow_bounds (bounds_of (stats ! 1)) ?ss") blast
  note g = grow_in_page [OF page p1 boxes f]
  note ar = area_in_page [OF page g(1-6)]
  have WH: "is_i32 (W * H)" "mul32 H W = W * H"
  proof -
    have "0 < W * H" "W * H < 2 ^ 31" using page by (auto simp: page_size_def)
    then show "is_i32 (W * H)" by (simp add: is_i32_def)
    then show "mul32 H W = W * H" by (simp add: mul32_def wrap32_id mult.commute)
  qed
  have tp: "is_i32 (text_pixels m)"
    using text_pixels_bounds [OF bin] page by (simp add: page_size_def is_i32_def)
  let ?r = "\<lparr>rx = l, ry = t, rwidth = r - l, rheight = b - t\<rparr>"
  have "CalcProportion m stats = Inr
      (ddiv (Fin (of_int (text_pixels m))) (Fin (of_int (W * H))),
       ddiv (Fin (of_int (text_pixels m))) (Fin (of_int (rwidth ?r * rheight ?r))),
       ddiv (Fin (of_int (rwidth ?r * rheight ?r))) (Fin (of_int (W * H))))"
    using bin rows f g(7,8) ar WH tp text_part_exact [OF bin small] \<open>stats \<noteq> []\<close>
    by (simp add: CalcProportion_def img_data_def binary_image_def page_bounds_def Let_def
        dbl_of_i32 del: ddiv.simps of_int_mult of_int_diff)
  moreover have "inside ?r q" if q: "\<forall>s \<in> set ?ss. encloses q s" for q
  proof -
    have "rx q \<le> l \<and> ry q \<le> t \<and> r \<le> rx q + rwidth q \<and> b \<le> ry q + rheight q"
      by (rule foldl_grow_bounds_least [OF f [unfolded bounds_of_def]])
        (use q s1 boxes p1 in \<open>auto simp: encloses_def in_page_right [OF page]\<close>)
    then show ?thesis by (simp add: inside_def)
  qed
  moreover have "rect_in_page W H ?r" "\<forall>s \<in> set ?ss. encloses ?r s"
    using g by (auto simp: rect_in_page_def encloses_def)
  ultimately show ?thesis by blast
qed

text \<open>
  C5. Proportions of a page of fewer than 8.4 million pixels: the first is the share of text
  pixels, the third the share of the least rectangle around all components, both between 0 and 1;
  the second divides the text pixels by the area of that rectangle.
\<close>

theorem CalcProportion_page:
  assumes "page_size W H" "255 * (W * H) < 2 ^ 31" "binary_image W H m"
    and "2 \<le> length stats" "\<forall>s \<in> set (drop 1 stats). in_page W H s"
  shows "\<exists>r ab rl blk. rect_in_page W H r \<and> (\<forall>s \<in> set (drop 1 stats). encloses r s) \<and>
    (\<forall>q. (\<forall>s \<in> set (drop 1 stats). encloses q s) \<longrightarrow> inside r q) \<and>
    CalcProportion m stats = Inr (Fin ab, rl, Fin blk) \<and>
    Fin ab = ddiv (Fin (of_int (text_pixels m))) (Fin (of_int (W * H))) \<and> 0 \<le> ab \<and> ab \<le> 1 \<and>
    rl = ddiv (Fin (of_int (text_pixels m))) (Fin (of_int (rwidth r * rheight r))) \<and>
    Fin blk = ddiv (Fin (of_int (rwidth r * rheight r))) (Fin (of_int (W * H))) \<and>
    0 \<le> blk \<and> blk \<le> 1"
proof -
  obtain r where r: "rect_in_page W H r" "\<forall>s \<in> set (drop 1 stats). encloses r s"
    "\<forall>q. (\<forall>s \<in> set (drop 1 stats). encloses q s) \<longrightarrow> inside r q"
    and v: "CalcProportion m stats = Inr
      (ddiv (Fin (of_int (text_pixels m))) (Fin (of_int (W * H))),
       ddiv (Fin (of_int (text_pixels m))) (Fin (of_int (rwidth r * rheight r))),
       ddiv (Fin (of_int (rwidth r * rheight r))) (Fin (of_int (W * H))))"
    using CalcProportion_value [OF assms] by blast
  have WH: "0 < (of_int (W * H) :: rat)"
    using assms(1) by (simp only: of_int_0_less_iff page_size_def) simp
  have box: "0 \<le> rwidth r * rheight r" "rwidth r * rheight r \<le> W * H"
    using r(1) by (auto simp: rect_in_page_def intro!: mult_mono)
  have 1: "\<exists>a. ddiv (Fin (of_int (text_pixels m))) (Fin (of_int (W * H))) = Fin a \<and> 0 \<le> a \<and> a \<le> 1"
    by (rule ddiv_ratio)
      (use text_pixels_bounds [OF assms(3)] WH in \<open>simp_all only: of_int_0_le_iff of_int_le_iff\<close>)
  have 2: "\<exists>a. ddiv (Fin (of_int (rwidth r * rheight r))) (Fin (of_int (W * H))) = Fin a \<and>
      0 \<le> a \<and> a \<le> 1"
    by (rule ddiv_ratio) (use box WH in \<open>simp_all only: of_int_0_le_iff of_int_le_iff\<close>)
  from 1 2 r v show ?thesis by metis
qed

definition example_image :: cvmat where
  "example_image = \<lparr>mrows = 100, mcols = 100, mchannels = 1, isContinuous = True, mstep = 100,
     mdata = replicate 300 255 @ replicate 9700 0\<rparr>"

theorem CalcProportion_page_witness:
  "\<exists>r ab rl blk. rect_in_page 100 100 r \<and> (\<forall>s \<in> set (drop 1 example_stats). encloses r s) \<and>
    (\<forall>q. (\<forall>s \<in> set (drop 1 example_stats). encloses q s) \<longrightarrow> inside r q) \<and>
    CalcProportion example_image example_stats = Inr (Fin ab, rl, Fin blk) \<and>
    Fin ab = ddiv (Fin (of_int (text_pixels example_image))) (Fin (of_int (100 * 100))) \<and>
    0 \<le> ab \<and> ab \<le> 1 \<and>
    rl = ddiv (Fin (of_int (text_pixels example_image))) (Fin (of_int (rwidth r * rheight r))) \<and>
    Fin blk = ddiv (Fin (of_int (rwidth r * rheight r))) (Fin (of_int (100 * 100))) \<and>
    0 \<le> blk \<and> blk \<le> 1"
  by (rule CalcProportion_page)
    (auto simp: page_size_def binary_image_def example_image_def example_stats_def in_page_def)

text \<open>
  C6. The sum of the bytes is kept in an int: a page of pure text pixels, as large as a photograph
  of 8.5 to 16.8 million pixels, gets a negative text proportion.
\<close>

theorem CalcProportion_overflow:
  assumes "binary_image W H m" "0 < W" "0 < H" "W * H < 2 ^ 24" "2 ^ 31 \<le> 255 * (W * H)"
    and "text_pixels m = W * H"
    and "CalcProportion m stats = Inr (ab, rl, blk)"
  shows "dbl_negative ab"
proof -
  let ?n = "W * H"
  have "sum_list (map uint (mdata m)) = 255 * ?n"
    using assms(1,6) by (simp add: binary_image_def text_pixels_def sum_binary)
  then have "accumulate32 (map uint (mdata m)) 0 = wrap32 (255 * ?n)"
    by (simp add: accumulate32_wraps is_i32_def)
  also have "\<dots> = 255 * ?n - 2 ^ 32"
    using assms(4,5) by (intro wrap32_overflow) auto
  finally have acc: "accumulate32 (map uint (mdata m)) 0 = 255 * ?n - 2 ^ 32" .
  let ?t = "quot32 (255 * ?n - 2 ^ 32) 255"
  have t: "?t \<le> - 1" "- (2 ^ 31) < ?t" using assms(4,5) by (auto simp: quot32_def)
  have n: "0 < ?n" using assms(2,3) by simp
  have "ab = ddiv (dbl_of_int ?t) (dbl_of_int (mul32 H W))"
    using assms(1,7) acc
    by (auto simp: CalcProportion_def img_data_def binary_image_def Let_def bind_result_Inr_iff
        split: prod.splits simp del: ddiv.simps)
  also have "mul32 H W = ?n" using assms(4) n by (simp add: mul32_id is_i32_def mult.commute)
  also have "ddiv (dbl_of_int ?t) (dbl_of_int ?n) = round64 (of_int ?t / of_int ?n)"
  proof -
    have "is_i32 ?t" using t by (simp add: is_i32_def)
    moreover have "is_i32 ?n" using n assms(4) by (simp add: is_i32_def)
    moreover have "of_int ?n \<noteq> (0 :: rat)" using n by (simp only: of_int_eq_0_iff)
    ultimately show ?thesis by (simp only: dbl_of_i32 ddiv.simps if_False)
  qed
  finally have ab: "ab = round64 (of_int ?t / of_int ?n)" .
  have "of_int ?t / of_int ?n \<le> (- 1 / of_int ?n :: rat)"
    using t(1) assms(2,3) by (intro divide_right_mono) (simp_all add: of_int_le_iff [of ?t "- 1", symmetric])
  also have "\<dots> \<le> - 1 / 2 ^ 24"
  proof -
    have "(of_int ?n :: rat) \<le> 2 ^ 24" "0 < (of_int ?n :: rat)"
      using assms(4) n by (simp_all only: of_int_0_less_iff)
        (metis of_int_le_iff of_int_numeral of_int_power order_less_imp_le)
    then show ?thesis by (simp add: divide_left_mono)
  qed
  also have "\<dots> \<le> - (2 powi (- 1000) :: rat)"
  proof -
    have "(2 :: rat) powi (- 1000) \<le> 2 powi (- 24)" by (rule power_int_increasing) auto
    moreover have "(2 :: rat) powi (- 24) = 1 / 2 ^ 24" by (simp add: power_int_def power_one_over)
    ultimately show ?thesis by linarith
  qed
  finally show ?thesis unfolding ab by (rule round64_negative)
qed

theorem CalcProportion_overflow_witness:
  "\<exists>m stats ab rl blk. binary_image 4096 4000 m \<and> text_pixels m = 4096 * 4000 \<and>
    CalcProportion m stats = Inr (ab, rl, blk) \<and> dbl_negative ab"
proof -
  define m where "m = \<lparr>mrows = 4000, mcols = 4096, mchannels = 1, isContinuous = True,
    mstep = 4096, mdata = replicate 16384000 (255 :: 8 word)\<rparr>"
  have m: "binary_image 4096 4000 m" "text_pixels m = 4096 * 4000"
    by (simp_all add: m_def binary_image_def text_pixels_def)
  obtain ab rl blk where c: "CalcProportion m [] = Inr (ab, rl, blk)"
    by (simp add: CalcProportion_def img_data_def m_def page_bounds_def Let_def del: ddiv.simps)
  have "dbl_negative ab" using m by (intro CalcProportion_overflow [OF m(1) _ _ _ _ _ c]) auto
  with m c show ?thesis by blast
qed

end
