(* ===== verification/Layout_Decision.thy ===== *)
theory Layout_Decision
  imports Layout_Page
begin

text \<open>
  The public entry points of the layout detector: \<^verbatim>\<open>Init\<close> and \<^verbatim>\<open>IsNoteNeat\<close>. What they rely
  on of OpenCV is the hypothesis \<open>opencv_ok\<close>; an instance that satisfies it closes the theory.
\<close>

section \<open>What the detector relies on\<close>


















section \<open>The decision\<close>








section \<open>Configuration\<close>

lemma trunc_int_dbl_of_int: "is_i32 n \<Longrightarrow> trunc_int (dbl_of_int n) = n"
  by (simp add: dbl_of_i32)

text \<open>
  Reading the configuration a second time changes no threshold and no log level; it only adds
  another file sink whenever logging to a file is on, so every record is then written twice.
\<close>

theorem Init_again:
  assumes "Init lib file g = Inr g1"
    and "\<forall>pt key n. get_int lib pt key = Some n \<longrightarrow> is_i32 n"
    and "is_i32 (trunc_int (g_width_std g))"
  shows "\<exists>k. Init lib file g1 = Inr (g1\<lparr>log_sinks := log_sinks g1 + k\<rparr>) \<and> log_sinks g1 = log_sinks g + k"
proof -
  obtain pt where pt: "read_ini lib file = Some pt" using assms(1) by (auto simp: Init_def split: option.splits)
  define w where "w = get_or (get_int lib pt ''text_block_width_std'') (trunc_int (g_width_std g))"
  have w: "is_i32 w" using assms(2,3) by (auto simp: w_def get_or_def split: option.splits)
  define k where "k = (if get_or (get_bool lib pt ''log_save'') True then 1 else 0 :: nat)"
  have g1: "g1 = \<lparr>g_area_p = get_or (get_double lib pt ''text_block_proportion'') (g_area_p g),
      g_text_p = get_or (get_double lib pt ''text_proportion'') (g_text_p g),
      g_box_count = get_or (get_int lib pt ''text_block_count'') (g_box_count g),
      g_width_std = dbl_of_int w, log_sinks = log_sinks g + k,
      log_filter = Some (get_or (get_int lib pt ''log_level'') 4)\<rparr>"
    using assms(1) pt by (cases g) (auto simp: Init_def Let_def w_def k_def)
  have w': "get_or (get_int lib pt ''text_block_width_std'') (trunc_int (dbl_of_int w)) = w"
    unfolding trunc_int_dbl_of_int [OF w] by (auto simp: w_def get_or_def split: option.splits)
  have idem: "get_or v (get_or v d) = get_or v d" for v :: "'x option" and d
    by (simp add: get_or_def split: option.splits)
  have "Init lib file g1 = Inr (g1\<lparr>log_sinks := log_sinks g1 + k\<rparr>)"
    using pt w' by (simp add: Init_def g1 Let_def k_def idem)
  then show ?thesis by (auto simp: g1)
qed

definition sample_ini :: "(string \<Rightarrow> int option) ini_lib" where
  "sample_ini = \<lparr>read_ini = (\<lambda>f. if f = ''config.ini'' then Some [''text_block_count'' \<mapsto> 12] else None),
     get_double = (\<lambda>pt k. map_option dbl_of_int (pt k)), get_int = (\<lambda>pt k. if pt k = Some 12 then Some 12 else None),
     get_bool = (\<lambda>pt k. None)\<rparr>"

theorem Init_again_witness:
  "\<exists>g1 k. Init sample_ini ''config.ini'' initial_globals = Inr g1 \<and>
    Init sample_ini ''config.ini'' g1 = Inr (g1\<lparr>log_sinks := log_sinks g1 + k\<rparr>) \<and>
    log_sinks g1 = log_sinks initial_globals + k"
proof -
  obtain g1 where g1: "Init sample_ini ''config.ini'' initial_globals = Inr g1"
    by (simp add: Init_def sample_ini_def Let_def)
  have "is_i32 (trunc_int (g_width_std initial_globals))"
    unfolding initial_globals_def globals.simps
    by (subst trunc_int_dbl_of_int) (simp_all add: is_i32_def)
  moreover have "\<forall>pt key n. get_int sample_ini pt key = Some n \<longrightarrow> is_i32 n"
    by (auto simp: sample_ini_def is_i32_def split: if_splits)
  ultimately show ?thesis using Init_again [OF g1] g1 by blast
qed

end
