(* ===== verification/Eureka.thy ===== *)
theory Eureka
  imports Prelude "HOL-Library.AList"
begin

text \<open>
  The client that registers the service with an Eureka server and keeps the registration alive
  (eureka/eureka_client.cpp). The object is a record, an easy handle of libcurl a record of its
  options, and every transfer made is appended to a log. libcurl, jsoncpp, the sockets and the
  clock are arguments (\<open>eureka_env\<close>). The heartbeat thread and the thread that owns the object
  are interleaved by the step relation \<open>estep\<close>.
\<close>

section \<open>The environment\<close>

datatype json = JNull | JInt int | JString string | JObject "(string \<times> json) list"

text \<open>The options set on an easy handle.\<close>

record curl_handle =
  url :: string
  customrequest :: string
  timeout :: int
  httpheader :: "string list"
  postfields :: "string option"

text \<open>
  \<open>local_addr\<close> is the address of the local end of a connection to a host and port, \<open>clock\<close> the
  successive readings of \<^verbatim>\<open>gettimeofday\<close>, \<open>perform\<close> the code \<^verbatim>\<open>curl_easy_perform\<close> returns for the
  n-th transfer.
\<close>

record eureka_env =
  local_addr :: "string \<Rightarrow> int \<Rightarrow> string"
  host_name :: string
  clock :: "nat \<Rightarrow> int \<times> int"
  json_write :: "json \<Rightarrow> string"
  json_parse :: "string \<Rightarrow> json option"
  json_asString :: "json \<Rightarrow> string"
  perform :: "nat \<Rightarrow> curl_handle \<Rightarrow> int"

definition CURLE_OK :: int where
  "CURLE_OK = 0"

definition HEART_BEAT_INTERVAL :: int where
  "HEART_BEAT_INTERVAL = 3"

section \<open>The object\<close>

text \<open>A thread pointer: the constructor leaves it uninitialised.\<close>

datatype thread_ptr = Garbage | Nullptr | Thread

record eureka =
  m_thread :: thread_ptr
  m_instance :: string
  m_serverHost :: string
  m_eureka_host :: string
  m_eureka_port :: int
  m_register_url :: string
  m_app_name :: string
  m_server_port :: string
  m_ipAddr :: string
  m_headers :: "string list"
  m_res :: int
  m_curl_handler_register :: "curl_handle option"
  m_curl_handler_heartbeat :: "curl_handle option"
  m_thread_running :: bool
  curl_ready :: bool

definition itos :: "int \<Rightarrow> string" where
  "itos i = dec_of_int i"

definition getCurrentTime :: "eureka_env \<Rightarrow> nat \<Rightarrow> string" where
  "getCurrentTime env n = (case clock env n of (sec, usec) \<Rightarrow> itos (sec * 1000 + usec div 1000))"

text \<open>\<^verbatim>\<open>getHostIp\<close> also fills in the server host when none was given.\<close>

definition getHostIp :: "eureka_env \<Rightarrow> eureka \<Rightarrow> string \<times> eureka" where
  "getHostIp env c =
     (let ip_addr = local_addr env (m_eureka_host c) (m_eureka_port c);
          c = (if m_serverHost c = [] then c\<lparr>m_serverHost := ip_addr\<rparr> else c)
      in (ip_addr, c))"

text \<open>Assignment to a member of a JSON object, which a null value becomes on first use.\<close>

fun jput :: "string \<Rightarrow> json \<Rightarrow> json \<Rightarrow> json" where
  "jput k v (JObject kvs) = JObject (AList.update k v kvs)"
| "jput k v _ = JObject [(k, v)]"

fun jget :: "json \<Rightarrow> string \<Rightarrow> json" where
  "jget (JObject kvs) k = (case map_of kvs k of None \<Rightarrow> JNull | Some v \<Rightarrow> v)"
| "jget _ k = JNull"

definition instanceId :: "eureka_env \<Rightarrow> eureka \<Rightarrow> string" where
  "instanceId env c = host_name env @ '':'' @ m_app_name c @ '':'' @ m_server_port c"

definition instance_port :: "eureka \<Rightarrow> json" where
  "instance_port c = jput ''@enabled'' (JString ''true'') (jput ''$'' (JString (m_server_port c)) JNull)"

definition secure_port :: "eureka \<Rightarrow> json" where
  "secure_port c = jput ''@enabled'' (JString ''false'') (jput ''$'' (JInt 443) (instance_port c))"

definition instance_datacenter :: json where
  "instance_datacenter = jput ''name'' (JString ''MyOwn'')
     (jput ''@class'' (JString ''com.netflix.appinfo.InstanceInfo$DefaultDataCenterInfo'') JNull)"

definition instance_lease :: json where
  "instance_lease =
     jput ''serviceUpTimestamp'' (JInt 0) (jput ''evictionTimestamp'' (JInt 0)
     (jput ''lastRenewalTimestamp'' (JInt 0) (jput ''registrationTimestamp'' (JInt 0)
     (jput ''durationInsecs'' (JInt 90)
     (jput ''renewalIntervalInSecs'' (JInt HEART_BEAT_INTERVAL) JNull)))))"

definition page_url :: "eureka \<Rightarrow> string \<Rightarrow> string" where
  "page_url c path = ''http://'' @ m_serverHost c @ '':'' @ m_server_port c @ path"

definition instance_members :: "eureka_env \<Rightarrow> eureka \<Rightarrow> (string \<times> json) list" where
  "instance_members env c =
     [(''instanceId'', JString (instanceId env c)),
      (''hostName'', JString (m_serverHost c)),
      (''app'', JString (m_app_name c)),
      (''ipAddr'', JString (m_ipAddr c)),
      (''port'', instance_port c),
      (''securePort'', secure_port c),
      (''countryId'', JInt 1),
      (''dataCenterInfo'', instance_datacenter),
      (''leaseInfo'', instance_lease),
      (''metadata'', jput ''management.port'' (JString (m_server_port c)) JNull),
      (''homePageUrl'', JString (page_url c ''/'')),
      (''statusPageUrl'', JString (page_url c ''/info'')),
      (''healthCheckUrl'', JString (page_url c ''/health'')),
      (''vipAddress'', JString (m_app_name c)),
      (''secureVipAddress'', JString (m_app_name c)),
      (''isCoordinatingDiscoveryServer'', JString ''false''),
      (''status'', JString ''UP''),
      (''overriddenstatus'', JString ''UNKNOWN''),
      (''lastUpdatedTimestamp'', JString (getCurrentTime env 0)),
      (''lastDirtyTimestamp'', JString (getCurrentTime env 1))]"

text \<open>The members are assigned one after the other, then the object is wrapped and written.\<close>

definition post_data :: "eureka_env \<Rightarrow> eureka \<Rightarrow> json" where
  "post_data env c =
     jput ''instance'' (foldl (\<lambda>v (k, x). jput k x v) JNull (instance_members env c)) JNull"

definition setJsonData :: "eureka_env \<Rightarrow> eureka \<Rightarrow> string" where
  "setJsonData env c = json_write env (post_data env c)"

definition EurekaClient ::
  "eureka_env \<Rightarrow> string \<Rightarrow> int \<Rightarrow> string \<Rightarrow> string \<Rightarrow> string \<Rightarrow> int \<Rightarrow> eureka" where
  "EurekaClient env eureka_host eureka_port register_url app_name server_host server_port =
     (let c = \<lparr>m_thread = Garbage, m_instance = [], m_serverHost = server_host,
                m_eureka_host = eureka_host, m_eureka_port = eureka_port,
                m_register_url = register_url, m_app_name = app_name,
                m_server_port = itos server_port, m_ipAddr = [], m_headers = [], m_res = CURLE_OK,
                m_curl_handler_register = None, m_curl_handler_heartbeat = None,
                m_thread_running = False, curl_ready = False\<rparr>;
          (ip, c) = getHostIp env c;
          c = c\<lparr>m_ipAddr := ip\<rparr>;
          c = c\<lparr>m_instance := setJsonData env c\<rparr>;
          c = c\<lparr>m_curl_handler_heartbeat := None, m_curl_handler_register := None\<rparr>
      in c\<lparr>curl_ready := True\<rparr>)"

text \<open>A value of the registered instance, read back from the stored JSON text.\<close>

definition readJsonData :: "eureka_env \<Rightarrow> eureka \<Rightarrow> string \<Rightarrow> string" where
  "readJsonData env c json_key =
     (case json_parse env (m_instance c) of
        None \<Rightarrow> []
      | Some json_root \<Rightarrow> json_asString env (jget (jget json_root ''instance'') json_key))"

section \<open>Requests\<close>

definition heartbeat_url :: "eureka_env \<Rightarrow> eureka \<Rightarrow> string" where
  "heartbeat_url env c =
     m_register_url c @ ''apps/'' @ m_app_name c @ ''/'' @ readJsonData env c ''instanceId'' @
     ''?status=UP&lastDirtyTimestamp='' @ readJsonData env c ''lastDirtyTimestamp''"

definition register_address :: "eureka \<Rightarrow> string" where
  "register_address c = m_register_url c @ ''apps/'' @ m_app_name c"

type_synonym log = "curl_handle list"

text \<open>
  Both requests create their handle on first use and reuse it, with its options, from then on.
  The result is -1 for a failed transfer and 0 otherwise.
\<close>

definition sendHeartBeat :: "eureka_env \<Rightarrow> eureka \<times> log \<Rightarrow> int \<times> eureka \<times> log" where
  "sendHeartBeat env s =
     (case s of (c, sent) \<Rightarrow>
      let h = (case m_curl_handler_heartbeat c of
                 Some h \<Rightarrow> h
               | None \<Rightarrow> \<lparr>url = heartbeat_url env c, customrequest = ''PUT'', timeout = 3,
                          httpheader = [], postfields = None\<rparr>);
          c = c\<lparr>m_curl_handler_heartbeat := Some h\<rparr>;
          c = c\<lparr>m_res := perform env (length sent) h\<rparr>
      in (if m_res c \<noteq> CURLE_OK then - 1 else 0, c, sent @ [h]))"

definition registerEureka :: "eureka_env \<Rightarrow> eureka \<times> log \<Rightarrow> int \<times> eureka \<times> log" where
  "registerEureka env s =
     (case s of (c, sent) \<Rightarrow>
      let (h, c) = (case m_curl_handler_register c of
                 Some h \<Rightarrow> (h, c)
               | None \<Rightarrow>
                   let headers = m_headers c @ [''Content-Type: application/json'']
                   in (\<lparr>url = register_address c, customrequest = ''POST'', timeout = 3,
                        httpheader = headers, postfields = Some (m_instance c)\<rparr>,
                       c\<lparr>m_headers := headers\<rparr>));
          c = c\<lparr>m_curl_handler_register := Some h\<rparr>;
          c = c\<lparr>m_res := perform env (length sent) h\<rparr>
      in (if m_res c \<noteq> CURLE_OK then - 1 else 0, c, sent @ [h]))"

text \<open>One round of the loop of \<^verbatim>\<open>heartBeatTimer\<close>, after the sleep.\<close>

definition timer_round ::
  "eureka_env \<Rightarrow> int \<times> eureka \<times> log \<Rightarrow> int \<times> eureka \<times> log" where
  "timer_round env s =
     (case s of (try_count, cl) \<Rightarrow>
      if try_count > 6
      then (case registerEureka env cl of (r, cl') \<Rightarrow> (if r = 0 then 0 else try_count, cl'))
      else (case sendHeartBeat env cl of (r, cl') \<Rightarrow> (if r < 0 then try_count + 1 else try_count, cl')))"

fun timer_rounds ::
  "eureka_env \<Rightarrow> nat \<Rightarrow> int \<times> eureka \<times> log \<Rightarrow> int \<times> eureka \<times> log" where
  "timer_rounds env 0 s = s"
| "timer_rounds env (Suc n) s = timer_rounds env n (timer_round env s)"

text \<open>\<^verbatim>\<open>heartBeatTimer\<close> when the flag is cleared after \<open>n\<close> rounds.\<close>

definition heartBeatTimer :: "eureka_env \<Rightarrow> nat \<Rightarrow> eureka \<times> log \<Rightarrow> int \<times> eureka \<times> log" where
  "heartBeatTimer env n cl =
     (case registerEureka env cl of (_, cl') \<Rightarrow> timer_rounds env n (0, cl'))"

section \<open>Starting and stopping\<close>

definition run :: "eureka \<Rightarrow> eureka" where
  "run c = c\<lparr>m_thread_running := True, m_thread := Thread\<rparr>"

text \<open>The destructor releases both handles and the library.\<close>

definition destroy :: "eureka \<Rightarrow> eureka" where
  "destroy c = c\<lparr>m_curl_handler_heartbeat := None, m_curl_handler_register := None, curl_ready := False\<rparr>"

text \<open>
  \<^verbatim>\<open>stop\<close> clears the flag, joins the thread if the pointer is not null, and deletes the object.
  The pointer is read before anything but \<^verbatim>\<open>run\<close> has set it.
\<close>

definition stop_flag :: "eureka \<Rightarrow> eureka" where
  "stop_flag c = c\<lparr>m_thread_running := False\<rparr>"

definition stop_joins :: "eureka \<Rightarrow> bool result" where
  "stop_joins c = (case m_thread c of Garbage \<Rightarrow> Inl Uninitialised | Nullptr \<Rightarrow> Inr False | Thread \<Rightarrow> Inr True)"

section \<open>The two threads\<close>

datatype worker_pc = W_None | W_Register | W_Test | W_Round | W_Done

datatype owner_pc = O_Created | O_Running | O_Joining | O_Deleted

record esys =
  client :: eureka
  sent :: log
  try_count :: int
  worker :: worker_pc
  owner :: owner_pc

definition created :: "eureka \<Rightarrow> esys" where
  "created c = \<lparr>client = c, sent = [], try_count = 0, worker = W_None, owner = O_Created\<rparr>"

text \<open>
  The owner calls \<^verbatim>\<open>run\<close> and later \<^verbatim>\<open>stop\<close>; the worker registers once, then tests the flag and
  makes one round at a time. Any interleaving of the two is a sequence of these steps.
\<close>

inductive estep :: "eureka_env \<Rightarrow> esys \<Rightarrow> esys \<Rightarrow> bool" for env where
  step_run: "owner s = O_Created \<Longrightarrow>
    estep env s (s\<lparr>client := run (client s), owner := O_Running, worker := W_Register\<rparr>)"
| step_register: "worker s = W_Register \<Longrightarrow> registerEureka env (client s, sent s) = (r, c, l) \<Longrightarrow>
    estep env s (s\<lparr>client := c, sent := l, worker := W_Test\<rparr>)"
| step_test_on: "worker s = W_Test \<Longrightarrow> m_thread_running (client s) \<Longrightarrow>
    estep env s (s\<lparr>worker := W_Round\<rparr>)"
| step_test_off: "worker s = W_Test \<Longrightarrow> \<not> m_thread_running (client s) \<Longrightarrow>
    estep env s (s\<lparr>worker := W_Done\<rparr>)"
| step_round: "worker s = W_Round \<Longrightarrow>
    timer_round env (try_count s, client s, sent s) = (t, c, l) \<Longrightarrow>
    estep env s (s\<lparr>try_count := t, client := c, sent := l, worker := W_Test\<rparr>)"
| step_stop: "owner s = O_Running \<Longrightarrow> stop_joins (client s) = Inr True \<Longrightarrow>
    estep env s (s\<lparr>client := stop_flag (client s), owner := O_Joining\<rparr>)"
| step_join: "owner s = O_Joining \<Longrightarrow> worker s = W_Done \<Longrightarrow>
    estep env s (s\<lparr>client := destroy (client s), owner := O_Deleted\<rparr>)"

inductive ereach :: "eureka_env \<Rightarrow> eureka \<Rightarrow> esys \<Rightarrow> bool" for env c where
  reach_created: "ereach env c (created c)"
| reach_step: "ereach env c s \<Longrightarrow> estep env s t \<Longrightarrow> ereach env c t"

section \<open>The registered instance\<close>

text \<open>
  What the client relies on of jsoncpp: the value written as the instance text parses back to
  itself, and a string value converts to its text.
\<close>

definition json_ok :: "eureka_env \<Rightarrow> json \<Rightarrow> bool" where
  "json_ok env v \<longleftrightarrow> json_parse env (json_write env v) = Some v \<and>
     (\<forall>s. json_asString env (JString s) = s)"

lemma jget_jput [simp]: "jget (jput k v j) k' = (if k' = k then v else jget j k')"
  by (cases j) (auto simp: update_conv')

lemma jget_members:
  "jget (foldl (\<lambda>v (k, x). jput k x v) j kvs) k =
   (case map_of (rev kvs) k of None \<Rightarrow> jget j k | Some v \<Rightarrow> v)"
  by (induction kvs arbitrary: j) (auto simp: map_add_def split: option.splits)

lemma readJsonData_member:
  assumes "json_ok env (post_data env c0)" "m_instance c = json_write env (post_data env c0)"
    and "map_of (rev (instance_members env c0)) k = Some (JString s)"
  shows "readJsonData env c k = s"
  using assms by (simp add: readJsonData_def json_ok_def post_data_def jget_members)

text \<open>A client as the constructor leaves it: no handle yet, the instance text stored.\<close>

definition fresh_client :: "eureka_env \<Rightarrow> eureka \<Rightarrow> bool" where
  "fresh_client env c \<longleftrightarrow> m_curl_handler_register c = None \<and> m_curl_handler_heartbeat c = None \<and>
     m_headers c = [] \<and> m_instance c = setJsonData env c"

lemma EurekaClient_fresh:
  "fresh_client env (EurekaClient env host port reg_url app server_host server_port)"
  by (simp add: EurekaClient_def fresh_client_def getHostIp_def setJsonData_def post_data_def
      instance_members_def instanceId_def instance_port_def secure_port_def page_url_def Let_def)

lemma fresh_readJsonData:
  assumes "json_ok env (post_data env c)" "fresh_client env c"
  shows "readJsonData env c ''instanceId'' = instanceId env c"
    "readJsonData env c ''lastDirtyTimestamp'' = getCurrentTime env 1"
  using assms
  by (auto intro!: readJsonData_member [where c0 = c]
      simp: fresh_client_def setJsonData_def instance_members_def)

definition registration :: "eureka \<Rightarrow> curl_handle" where
  "registration c = \<lparr>url = register_address c, customrequest = ''POST'', timeout = 3,
     httpheader = [''Content-Type: application/json''], postfields = Some (m_instance c)\<rparr>"

definition heartbeat :: "eureka_env \<Rightarrow> eureka \<Rightarrow> curl_handle" where
  "heartbeat env c = \<lparr>url = heartbeat_url env c, customrequest = ''PUT'', timeout = 3,
     httpheader = [], postfields = None\<rparr>"

text \<open>
  C9. The first heartbeat of a newly constructed client is a PUT to the address the Eureka protocol
  asks for: register URL, application, the instance identity host:application:port that the
  registration text carries, and the time stamp stored in it; the service answers 0 exactly when
  the transfer succeeds.
\<close>

theorem first_heartbeat:
  assumes "json_ok env (post_data env c)"
    and "c = EurekaClient env host port reg_url app server_host server_port"
    and "sendHeartBeat env (c, []) = (r, c', l)"
  shows "l = [\<lparr>url = reg_url @ ''apps/'' @ app @ ''/'' @ host_name env @ '':'' @ app @ '':'' @
      dec_of_int server_port @ ''?status=UP&lastDirtyTimestamp='' @ getCurrentTime env 1,
      customrequest = ''PUT'', timeout = 3, httpheader = [], postfields = None\<rparr>] \<and>
    (r = 0 \<longleftrightarrow> perform env 0 (hd l) = CURLE_OK) \<and> (r = 0 \<or> r = - 1)"
proof -
  have fresh: "fresh_client env c" using EurekaClient_fresh assms(2) by simp
  have f: "m_register_url c = reg_url" "m_app_name c = app" "m_server_port c = dec_of_int server_port"
    by (simp_all add: assms(2) EurekaClient_def getHostIp_def itos_def Let_def)
  have none: "m_curl_handler_heartbeat c = None" using fresh by (simp add: fresh_client_def)
  show ?thesis
    using assms(3) none
    by (auto simp: sendHeartBeat_def Let_def heartbeat_url_def fresh_readJsonData [OF assms(1) fresh]
        instanceId_def f split: if_splits)
qed

text \<open>A concrete environment: one text for the sample instance, and transfers that all fail.\<close>

definition sample_env0 :: eureka_env where
  "sample_env0 = \<lparr>local_addr = (\<lambda>h p. ''10.0.0.7''), host_name = ''node'',
     clock = (\<lambda>n. (int n, 5000)), json_write = (\<lambda>v. ''null''), json_parse = (\<lambda>s. Some JNull),
     json_asString = (\<lambda>v. case v of JString s \<Rightarrow> s | _ \<Rightarrow> []), perform = (\<lambda>n h. 7)\<rparr>"

definition sample_post :: json where
  "sample_post = post_data sample_env0
     (EurekaClient sample_env0 ''eureka'' 8761 ''http://eureka/'' ''NOTENESS'' [] 8080)"

definition sample_env :: eureka_env where
  "sample_env = sample_env0\<lparr>
     json_write := (\<lambda>v. if v = sample_post then ''{instance}'' else ''null''),
     json_parse := (\<lambda>s. if s = ''{instance}'' then Some sample_post else
       if s = ''null'' then Some JNull else None)\<rparr>"

definition sample_client :: eureka where
  "sample_client = EurekaClient sample_env ''eureka'' 8761 ''http://eureka/'' ''NOTENESS'' [] 8080"

lemmas client_defs = EurekaClient_def getHostIp_def post_data_def instance_members_def
  instanceId_def instance_port_def secure_port_def page_url_def getCurrentTime_def

lemma sample_json_ok: "json_ok sample_env (post_data sample_env sample_client)"
proof -
  have "post_data sample_env sample_client = sample_post"
    by (simp add: sample_client_def sample_post_def sample_env_def sample_env0_def client_defs Let_def)
  then show ?thesis by (simp add: json_ok_def) (simp add: sample_env_def sample_env0_def)
qed

theorem first_heartbeat_witness:
  "\<exists>r c' l. sendHeartBeat sample_env (sample_client, []) = (r, c', l) \<and>
    l = [\<lparr>url = ''http://eureka/'' @ ''apps/'' @ ''NOTENESS'' @ ''/'' @ host_name sample_env @ '':'' @
      ''NOTENESS'' @ '':'' @ dec_of_int 8080 @ ''?status=UP&lastDirtyTimestamp='' @
      getCurrentTime sample_env 1,
      customrequest = ''PUT'', timeout = 3, httpheader = [], postfields = None\<rparr>] \<and>
    (r = 0 \<longleftrightarrow> perform sample_env 0 (hd l) = CURLE_OK) \<and> (r = 0 \<or> r = - 1)"
proof -
  obtain r c' l where s: "sendHeartBeat sample_env (sample_client, []) = (r, c', l)"
    by (cases "sendHeartBeat sample_env (sample_client, [])") auto
  from first_heartbeat [OF sample_json_ok sample_client_def s] s show ?thesis by blast
qed

section \<open>What is sent\<close>

text \<open>
  The fields the requests are built from never change, and a handle, once made, is the request
  that a fresh client would send.
\<close>

definition client_inv :: "eureka_env \<Rightarrow> eureka \<Rightarrow> eureka \<Rightarrow> bool" where
  "client_inv env c0 c \<longleftrightarrow> m_instance c = m_instance c0 \<and> m_register_url c = m_register_url c0 \<and>
     m_app_name c = m_app_name c0 \<and>
     (case m_curl_handler_register c of
        None \<Rightarrow> m_headers c = []
      | Some h \<Rightarrow> h = registration c0 \<and> m_headers c = [''Content-Type: application/json'']) \<and>
     (case m_curl_handler_heartbeat c of None \<Rightarrow> True | Some h \<Rightarrow> h = heartbeat env c0)"

lemma heartbeat_same:
  "client_inv env c0 c \<Longrightarrow> heartbeat env c = heartbeat env c0"
  "client_inv env c0 c \<Longrightarrow> register_address c = register_address c0"
  by (simp_all add: client_inv_def heartbeat_def heartbeat_url_def readJsonData_def register_address_def)

lemma sendHeartBeat_spec:
  assumes "client_inv env c0 c"
  shows "\<exists>c'. sendHeartBeat env (c, l) =
      (if perform env (length l) (heartbeat env c0) = CURLE_OK then 0 else - 1, c', l @ [heartbeat env c0]) \<and>
    client_inv env c0 c' \<and> m_thread_running c' = m_thread_running c \<and> m_thread c' = m_thread c"
proof (cases "m_curl_handler_heartbeat c")
  case None
  with heartbeat_same(1) [OF assms] assms show ?thesis
    by (auto simp: sendHeartBeat_def Let_def heartbeat_def client_inv_def split: option.splits)
next
  case (Some h)
  with assms show ?thesis
    by (auto simp: sendHeartBeat_def Let_def client_inv_def split: option.splits)
qed

lemma registerEureka_spec:
  assumes "client_inv env c0 c"
  shows "\<exists>c'. registerEureka env (c, l) =
      (if perform env (length l) (registration c0) = CURLE_OK then 0 else - 1, c', l @ [registration c0]) \<and>
    client_inv env c0 c' \<and> m_thread_running c' = m_thread_running c \<and> m_thread c' = m_thread c"
proof (cases "m_curl_handler_register c")
  case None
  with heartbeat_same(2) [OF assms] assms show ?thesis
    by (auto simp: registerEureka_def Let_def registration_def client_inv_def split: option.splits)
next
  case (Some h)
  with assms show ?thesis
    by (auto simp: registerEureka_def Let_def client_inv_def split: option.splits)
qed

lemma timer_round_spec:
  assumes "client_inv env c0 c"
  shows "\<exists>c'. client_inv env c0 c' \<and> m_thread_running c' = m_thread_running c \<and> m_thread c' = m_thread c \<and>
    timer_round env (t, c, l) =
    (if t > 6
     then (if perform env (length l) (registration c0) = CURLE_OK then 0 else t, c', l @ [registration c0])
     else (if perform env (length l) (heartbeat env c0) = CURLE_OK then t else t + 1, c',
           l @ [heartbeat env c0]))"
  using sendHeartBeat_spec [OF assms, of l] registerEureka_spec [OF assms, of l]
  by (auto simp: timer_round_def)

lemma fresh_client_inv: "fresh_client env c \<Longrightarrow> client_inv env c c"
  by (simp add: fresh_client_def client_inv_def)


lemma sample_fresh: "fresh_client sample_env sample_client"
  unfolding sample_client_def by (rule EurekaClient_fresh)




section \<open>The two threads\<close>

text \<open>
  The invariant of the interleaved system: the failure count, what was sent, and how the two
  program counters, the flag and the thread pointer go together.
\<close>

definition esys_inv :: "eureka_env \<Rightarrow> eureka \<Rightarrow> esys \<Rightarrow> bool" where
  "esys_inv env c0 s \<longleftrightarrow>
     0 \<le> try_count s \<and> try_count s \<le> 7 \<and>
     (owner s \<noteq> O_Deleted \<longrightarrow> client_inv env c0 (client s)) \<and>
     set (sent s) \<subseteq> {registration c0, heartbeat env c0} \<and>
     (worker s \<in> {W_None, W_Register} \<longleftrightarrow> sent s = []) \<and>
     (sent s \<noteq> [] \<longrightarrow> hd (sent s) = registration c0) \<and>
     (owner s = O_Created \<longleftrightarrow> worker s = W_None) \<and>
     (owner s = O_Deleted \<longrightarrow> worker s = W_Done) \<and>
     (owner s = O_Running \<longrightarrow> m_thread_running (client s) \<and> m_thread (client s) = Thread \<and> worker s \<noteq> W_Done) \<and>
     (owner s = O_Joining \<longrightarrow> \<not> m_thread_running (client s))"

lemma client_inv_flags [simp]:
  "client_inv env c0 (run c) = client_inv env c0 c" "client_inv env c0 (stop_flag c) = client_inv env c0 c"
  by (simp_all add: client_inv_def run_def stop_flag_def split: option.split)

lemma estep_inv:
  assumes "estep env s t" "esys_inv env c0 s"
  shows "esys_inv env c0 t"
  using assms
proof (induction rule: estep.induct)
  case (step_register s r c l)
  then have inv: "client_inv env c0 (client s)" and "owner s \<noteq> O_Created" "sent s = []"
    by (auto simp: esys_inv_def)
  from registerEureka_spec [OF this(1), of "sent s"] step_register this show ?case
    by (auto simp: esys_inv_def)
next
  case (step_round s t' c l)
  then have "client_inv env c0 (client s)" and "sent s \<noteq> []" "owner s \<noteq> O_Created"
    by (auto simp: esys_inv_def)
  from timer_round_spec [OF this(1), of "try_count s" "sent s"] step_round this show ?case
    by (auto simp: esys_inv_def split: if_splits)
next
  case (step_run s)
  then have "m_thread_running (run (client s))" "m_thread (run (client s)) = Thread"
    by (simp_all add: run_def)
  with step_run show ?case by (auto simp: esys_inv_def)
next
  case (step_stop s)
  then show ?case by (auto simp: esys_inv_def) (simp add: stop_flag_def)+
qed (auto simp: esys_inv_def)

lemma ereach_inv: "ereach env c s \<Longrightarrow> fresh_client env c \<Longrightarrow> esys_inv env c s"
proof (induction rule: ereach.induct)
  case reach_created
  then show ?case
    using fresh_client_inv by (auto simp: esys_inv_def created_def)
next
  case (reach_step s t)
  then show ?case using estep_inv by blast
qed

text \<open>
  C12. Whatever the interleaving of the owner and the heartbeat thread: the failure count stays
  between 0 and 7, the first transfer is the registration, and every transfer is either that
  registration or the one heartbeat request of this instance.
\<close>

theorem eureka_traffic:
  assumes "ereach env c s" "fresh_client env c"
  shows "0 \<le> try_count s \<and> try_count s \<le> 7 \<and>
    (\<forall>h \<in> set (sent s). h = registration c \<or> h = heartbeat env c) \<and>
    (sent s \<noteq> [] \<longrightarrow> hd (sent s) = registration c)"
  using ereach_inv [OF assms] by (auto simp: esys_inv_def)

lemma sample_reach:
  "\<exists>s. ereach sample_env sample_client s \<and> owner s = O_Joining \<and> worker s = W_Test \<and> sent s \<noteq> []"
proof -
  let ?s0 = "created sample_client"
  let ?s1 = "?s0\<lparr>client := run (client ?s0), owner := O_Running, worker := W_Register\<rparr>"
  obtain r c l where reg: "registerEureka sample_env (client ?s1, sent ?s1) = (r, c, l)"
    by (cases "registerEureka sample_env (client ?s1, sent ?s1)") auto
  let ?s2 = "?s1\<lparr>client := c, sent := l, worker := W_Test\<rparr>"
  have 0: "ereach sample_env sample_client ?s0" by (rule reach_created)
  have 1: "ereach sample_env sample_client ?s1"
    by (rule reach_step [OF 0], rule step_run) (simp add: created_def)
  have 2: "ereach sample_env sample_client ?s2"
    by (rule reach_step [OF 1], rule step_register [OF _ reg]) simp
  have "m_thread (client ?s2) = Thread" "sent ?s2 \<noteq> []"
    using ereach_inv [OF 2 sample_fresh] by (auto simp: esys_inv_def)
  then have "ereach sample_env sample_client
      (?s2\<lparr>client := stop_flag (client ?s2), owner := O_Joining\<rparr>)"
    by (intro reach_step [OF 2] step_stop) (simp_all add: stop_joins_def)
  with \<open>sent ?s2 \<noteq> []\<close> show ?thesis by (intro exI conjI) auto
qed

theorem eureka_traffic_witness:
  "\<exists>s. ereach sample_env sample_client s \<and> sent s \<noteq> [] \<and> 0 \<le> try_count s \<and> try_count s \<le> 7 \<and>
    (\<forall>h \<in> set (sent s). h = registration sample_client \<or> h = heartbeat sample_env sample_client) \<and>
    (sent s \<noteq> [] \<longrightarrow> hd (sent s) = registration sample_client)"
proof -
  obtain s where s: "ereach sample_env sample_client s" "sent s \<noteq> []" using sample_reach by blast
  with eureka_traffic [OF s(1) sample_fresh] show ?thesis by blast
qed

inductive_simps estep_deleted: "estep env s t"


text \<open>The steps left once \<^verbatim>\<open>stop\<close> has cleared the flag: at most two of the worker and the join.\<close>

fun steps_left :: "worker_pc \<Rightarrow> nat" where
  "steps_left W_Register = 3"
| "steps_left W_Round = 3"
| "steps_left W_Test = 2"
| "steps_left W_Done = 1"
| "steps_left W_None = 0"

definition stop_measure :: "esys \<Rightarrow> nat" where
  "stop_measure s = (if owner s = O_Joining then steps_left (worker s) else 0)"

text \<open>
  C14. \<^verbatim>\<open>stop\<close> terminates: once the flag is cleared some step is always possible until the object
  is deleted, and every step, of whichever thread, brings the deletion nearer; three steps at most
  remain. (A transfer in progress is one step, bounded by its three second timeout.)
\<close>

theorem eureka_stop_terminates:
  assumes "ereach env c s" "fresh_client env c" "owner s = O_Joining"
  shows "(\<exists>t. estep env s t) \<and> stop_measure s \<le> 3 \<and>
    (\<forall>t. estep env s t \<longrightarrow> stop_measure t < stop_measure s \<and> owner t \<in> {O_Joining, O_Deleted})"
proof -
  have inv: "\<not> m_thread_running (client s)" "worker s \<noteq> W_None"
    using ereach_inv [OF assms(1,2)] assms(3) by (auto simp: esys_inv_def)
  have "\<exists>t. estep env s t"
  proof (cases "worker s")
    case W_Register
    then show ?thesis by (metis step_register prod_cases3)
  next
    case W_Test
    then show ?thesis using step_test_off inv(1) by blast
  next
    case W_Round
    then show ?thesis by (metis step_round prod_cases3)
  next
    case W_Done
    then show ?thesis using step_join assms(3) by blast
  qed (use inv in simp)
  moreover have "stop_measure s \<le> 3" by (cases "worker s") (simp_all add: stop_measure_def)
  moreover have "stop_measure t < stop_measure s \<and> owner t \<in> {O_Joining, O_Deleted}"
    if "estep env s t" for t
    using that assms(3) inv by (auto simp: estep_deleted stop_measure_def)
  ultimately show ?thesis by blast
qed

theorem eureka_stop_terminates_witness:
  "\<exists>s. ereach sample_env sample_client s \<and> owner s = O_Joining \<and>
    (\<exists>t. estep sample_env s t) \<and> stop_measure s \<le> 3 \<and>
    (\<forall>t. estep sample_env s t \<longrightarrow> stop_measure t < stop_measure s \<and> owner t \<in> {O_Joining, O_Deleted})"
proof -
  obtain s where s: "ereach sample_env sample_client s" "owner s = O_Joining" using sample_reach by blast
  with eureka_stop_terminates [OF s(1) sample_fresh s(2)] show ?thesis by blast
qed


end
