(* ===== verification/Ctpn.thy ===== *)
theory Ctpn
  imports Det_Layout
begin

text \<open>
  The text detector that calls a Python model (det_ge_mma_ctpn/api): construction and destruction
  with the interpreter, the configuration of the log, and \<^verbatim>\<open>detection\<close>, which packs the pixels of
  an image into a Python list, calls the model and unpacks its answer.

  CPython is an argument; what the code owes it, one reference per \<^verbatim>\<open>Py_DECREF\<close>, is kept as a
  count per object. Releasing an object whose count is already zero is the fault
  \<^const>\<open>Use_After_Free\<close>.
\<close>

section \<open>Reference counts\<close>

datatype pyobj = P_Module | P_Class | P_Instance | P_Func | P_Args | P_List | P_Return

type_synonym refs = "pyobj \<Rightarrow> int"

text \<open>
  Dropping a reference. The argument tuple owns one reference to the list (\<^verbatim>\<open>PyTuple_SetItem\<close>
  steals it) and gives it back when it is itself freed.
\<close>

fun drop_ref :: "pyobj \<Rightarrow> refs \<Rightarrow> refs result" where
  "drop_ref x rc = (if rc x \<le> 0 then Inl Use_After_Free else Inr (rc(x := rc x - 1)))"

definition Py_DECREF :: "pyobj \<Rightarrow> refs \<Rightarrow> refs result" where
  "Py_DECREF x rc =
     bind_result (drop_ref x rc) (\<lambda>rc. if x = P_Args \<and> rc P_Args = 0 then drop_ref P_List rc else Inr rc)"

definition new_ref :: "pyobj \<Rightarrow> refs \<Rightarrow> refs" where
  "new_ref x rc = rc(x := rc x + 1)"

section \<open>The log configuration\<close>

record log_core =
  core_sinks :: "nat set"
  core_filter :: int
  core_next :: nat

record Config =
  file_sink :: "nat option"

text \<open>\<^verbatim>\<open>Config()\<close> keeps errors (level 4) and above; the sink pointer is empty.\<close>

definition Config_ctor :: "log_core \<Rightarrow> Config \<times> log_core" where
  "Config_ctor lc = (\<lparr>file_sink = None\<rparr>, lc\<lparr>core_filter := 4\<rparr>)"

text \<open>The sink that \<^verbatim>\<open>add_file_log\<close> returns is not stored.\<close>

definition ReadIniFile ::
  "'p ini_lib \<Rightarrow> string \<Rightarrow> Config \<times> log_core \<Rightarrow> (Config \<times> log_core) result" where
  "ReadIniFile lib config_file s =
     (case s of (cfg, lc) \<Rightarrow>
      (case read_ini lib config_file of
        None \<Rightarrow> Inl Ini_Exception
      | Some pt \<Rightarrow>
          let lc = lc\<lparr>core_sinks := insert (core_next lc) (core_sinks lc), core_next := Suc (core_next lc)\<rparr>
          in Inr (cfg, lc\<lparr>core_filter := get_or (get_int lib pt ''log_level'') 4\<rparr>)))"

definition StopFileLogging :: "Config \<times> log_core \<Rightarrow> Config \<times> log_core" where
  "StopFileLogging s =
     (case s of (cfg, lc) \<Rightarrow>
      (cfg\<lparr>file_sink := None\<rparr>,
       case file_sink cfg of None \<Rightarrow> lc | Some k \<Rightarrow> lc\<lparr>core_sinks := core_sinks lc - {k}\<rparr>))"

section \<open>Construction and destruction\<close>

text \<open>
  What the constructor asks of the file system and of the interpreter: whether the configuration
  is accessible, and which of the module, class, instance and method lookups succeed. The lookup
  in the module's dictionary gives a borrowed reference.
\<close>

record 'p py_env =
  file_exists :: "string \<Rightarrow> bool"
  ini :: "'p ini_lib"
  py_initialized :: bool
  import_ok :: "string list \<Rightarrow> bool"
  class_ok :: bool
  instance_ok :: bool
  method_ok :: bool

record detector =
  config :: Config
  core :: log_core
  refcnt :: refs
  executed :: "string list"

definition python_path :: "string \<Rightarrow> string" where
  "python_path det_model_file = ''sys.path.append('' @ [CHR 0x27] @ det_model_file @ [CHR 0x27] @ '')''"

definition FrameStateDetector ::
  "'p py_env \<Rightarrow> string \<Rightarrow> string \<Rightarrow> log_core \<Rightarrow> refs \<Rightarrow> detector result" where
  "FrameStateDetector env det_model_file config_file lc rc =
     bind_result
       (if file_exists env config_file
        then ReadIniFile (ini env) config_file (Config_ctor lc) else Inr (Config_ctor lc))
     (\<lambda>(cfg, lc).
      let run = [''import sys'', python_path det_model_file] in
      if \<not> py_initialized env then Inl Check_Failed
      else if \<not> import_ok env run then Inl Check_Failed
      else let rc = new_ref P_Module rc in
      if \<not> class_ok env then Inl Check_Failed
      else if \<not> instance_ok env then Inl Check_Failed
      else let rc = new_ref P_Instance rc in
      if \<not> method_ok env then Inl Check_Failed
      else Inr \<lparr>config = cfg, core = lc, refcnt = new_ref P_Func rc, executed = run\<rparr>)"

definition create ::
  "'p py_env \<Rightarrow> string \<Rightarrow> string \<Rightarrow> log_core \<Rightarrow> refs \<Rightarrow> detector result" where
  "create env det_model_file config_file = FrameStateDetector env det_model_file config_file"

definition destroy_detector :: "detector \<Rightarrow> detector result" where
  "destroy_detector d =
     bind_result (Py_DECREF P_Module (refcnt d)) (\<lambda>rc.
     bind_result (Py_DECREF P_Class rc) (\<lambda>rc.
     bind_result (Py_DECREF P_Instance rc) (\<lambda>rc.
     bind_result (Py_DECREF P_Func rc) (\<lambda>rc.
     case StopFileLogging (config d, core d) of (cfg, lc) \<Rightarrow>
       Inr (d\<lparr>refcnt := rc, config := cfg, core := lc\<rparr>)))))"

section \<open>Detection\<close>

text \<open>One channel of a pixel, and the flat list of all channels in row order.\<close>

definition pixel :: "cvmat \<Rightarrow> nat \<Rightarrow> nat \<Rightarrow> nat \<Rightarrow> 8 word" where
  "pixel img y x c = mdata img ! (y * mstep img + 3 * x + c)"

definition pixel_channels :: "cvmat \<Rightarrow> bool \<Rightarrow> nat \<Rightarrow> nat \<Rightarrow> int list" where
  "pixel_channels img is_rgb_format y x =
     map (\<lambda>c. uint (pixel img y x (if is_rgb_format then 2 - c else c))) [0..<3]"







section \<open>Properties\<close>



lemma pixel_channels_length [simp]: "length (pixel_channels img rgb y x) = 3"
  by (simp add: pixel_channels_def)






text \<open>
  The life of a detector: when the lookups succeed and the class is kept alive by its module
  alone, construction followed by destruction gives back every reference it took but releases one
  on the class that it never took, and the file sink added while reading the configuration is
  still installed.
\<close>

theorem detector_lifetime:
  assumes ok: "py_initialized env" "\<And>run. import_ok env run" "class_ok env" "instance_ok env" "method_ok env"
    and cfg: "file_exists env config_file" "read_ini (ini env) config_file = Some pt"
    and rc: "0 \<le> rc P_Module" "1 \<le> rc P_Class" "0 \<le> rc P_Instance" "0 \<le> rc P_Func"
  shows "\<exists>d d'. create env model config_file lc rc = Inr d \<and> destroy_detector d = Inr d' \<and>
    refcnt d' = rc(P_Class := rc P_Class - 1) \<and>
    core_sinks (core d') = insert (core_next lc) (core_sinks lc) \<and>
    executed d = [''import sys'', python_path model]"
  using ok cfg rc
  by (auto simp: create_def FrameStateDetector_def ReadIniFile_def Config_ctor_def destroy_detector_def
      StopFileLogging_def Py_DECREF_def new_ref_def Let_def fun_eq_iff)

definition sample_py_env :: "unit py_env" where
  "sample_py_env = \<lparr>file_exists = (\<lambda>f. True),
     ini = \<lparr>read_ini = (\<lambda>f. Some ()), get_double = (\<lambda>_ _. None), get_int = (\<lambda>_ _. None),
       get_bool = (\<lambda>_ _. None)\<rparr>,
     py_initialized = True, import_ok = (\<lambda>_. True), class_ok = True, instance_ok = True,
     method_ok = True\<rparr>"

theorem detector_lifetime_witness:
  "\<exists>d d'. create sample_py_env ''main'' ''config.ini''
      \<lparr>core_sinks = {}, core_filter = 0, core_next = 0\<rparr> (\<lambda>x. 1) = Inr d \<and>
    destroy_detector d = Inr d' \<and> refcnt d' = (\<lambda>x. 1)(P_Class := 0) \<and>
    core_sinks (core d') = {0} \<and> executed d = [''import sys'', python_path ''main'']"
  using detector_lifetime [of sample_py_env "''config.ini''" "()" "\<lambda>x. 1" "''main''"
      "\<lparr>core_sinks = {}, core_filter = 0, core_next = 0\<rparr>"]
  by (simp add: sample_py_env_def)

end
