(* ===== verification/String_Piece.thy ===== *)
theory String_Piece
  imports Prelude
begin

text \<open>
  The searches of base/strings/string_piece.cc, on which the splitting, trimming and replacing
  functions of the library rest. A piece is a list of characters: \<^typ>\<open>char\<close> for
  \<^verbatim>\<open>StringPiece\<close>, \<^typ>\<open>16 word\<close> for \<^verbatim>\<open>StringPiece16\<close>, a type variable for a function template.
  A position is a \<^typ>\<open>nat\<close> and \<^verbatim>\<open>npos\<close> as a result is \<^term>\<open>None\<close>; as an argument it is any
  number past the end, which is how the code treats it. The 8-bit searches for a set of characters
  use a lookup table and the 16-bit ones nested loops; the theorems show that each of them returns
  the first or the last index its name promises, and where the two families differ.
\<close>

section \<open>Loops over positions\<close>

text \<open>\<^verbatim>\<open>for (size_t i = pos; i < n; ++i) if (hit(i)) return i; return npos;\<close>\<close>

function scan_forward :: "(nat \<Rightarrow> bool) \<Rightarrow> nat \<Rightarrow> nat \<Rightarrow> nat option" where
  "scan_forward hit n i =
     (if i < n then if hit i then Some i else scan_forward hit n (i + 1) else None)"
  by pat_completeness auto
termination by (relation "measure (\<lambda>(hit, n, i). n - i)") auto

declare scan_forward.simps [simp del]

text \<open>\<^verbatim>\<open>for (size_t i = start; ; --i) { if (hit(i)) return i; if (i == 0) break; } return npos;\<close>\<close>

fun scan_backward :: "(nat \<Rightarrow> bool) \<Rightarrow> nat \<Rightarrow> nat option" where
  "scan_backward hit i =
     (if hit i then Some i else if i = 0 then None else scan_backward hit (i - 1))"

declare scan_backward.simps [simp del]

text \<open>What a search promises: the least hit in a range, or the greatest one.\<close>

definition is_first :: "(nat \<Rightarrow> bool) \<Rightarrow> nat \<Rightarrow> nat \<Rightarrow> nat option \<Rightarrow> bool" where
  "is_first hit lo hi r \<longleftrightarrow> (case r of
       None \<Rightarrow> \<forall>i. lo \<le> i \<longrightarrow> i < hi \<longrightarrow> \<not> hit i
     | Some i \<Rightarrow> lo \<le> i \<and> i < hi \<and> hit i \<and> (\<forall>j. lo \<le> j \<longrightarrow> j < i \<longrightarrow> \<not> hit j))"

definition is_last :: "(nat \<Rightarrow> bool) \<Rightarrow> nat \<Rightarrow> nat option \<Rightarrow> bool" where
  "is_last hit hi r \<longleftrightarrow> (case r of
       None \<Rightarrow> \<forall>i. i < hi \<longrightarrow> \<not> hit i
     | Some i \<Rightarrow> i < hi \<and> hit i \<and> (\<forall>j. i < j \<longrightarrow> j < hi \<longrightarrow> \<not> hit j))"

lemma is_first_unique: "is_first hit lo hi r \<Longrightarrow> is_first hit lo hi r' \<Longrightarrow> r = r'"
  unfolding is_first_def by (auto split: option.splits) (metis linorder_neqE_nat)

lemma is_last_unique: "is_last hit hi r \<Longrightarrow> is_last hit hi r' \<Longrightarrow> r = r'"
  unfolding is_last_def by (auto split: option.splits) (metis linorder_neqE_nat)

lemma is_first_cong:
  "(\<And>i. lo \<le> i \<Longrightarrow> i < hi \<Longrightarrow> hit i = hit' i) \<Longrightarrow> is_first hit lo hi r \<longleftrightarrow> is_first hit' lo hi r"
  unfolding is_first_def by (fastforce split: option.splits)

lemma is_last_cong:
  "(\<And>i. i < hi \<Longrightarrow> hit i = hit' i) \<Longrightarrow> is_last hit hi r \<longleftrightarrow> is_last hit' hi r"
  unfolding is_last_def by (fastforce split: option.splits)

lemma scan_forward_first: "is_first hit i n (scan_forward hit n i)"
proof (induction hit n i rule: scan_forward.induct)
  case (1 hit n i)
  show ?case
  proof (cases "i < n \<and> \<not> hit i")
    case True
    with 1 have "is_first hit (i + 1) n (scan_forward hit n (i + 1))" by simp
    then have "is_first hit i n (scan_forward hit n (i + 1))"
      using True unfolding is_first_def
      by (auto split: option.splits) (metis le_antisym not_less_eq_eq)+
    then show ?thesis using True by (subst scan_forward.simps) simp
  next
    case False
    then show ?thesis by (subst scan_forward.simps) (auto simp: is_first_def)
  qed
qed

lemma scan_backward_last: "is_last hit (Suc i) (scan_backward hit i)"
proof (induction hit i rule: scan_backward.induct)
  case (1 hit i)
  show ?case
  proof (cases "hit i \<or> i = 0")
    case True
    then show ?thesis by (subst scan_backward.simps) (auto simp: is_last_def)
  next
    case False
    with 1 have "is_last hit i (scan_backward hit (i - 1))" by simp
    then have "is_last hit (Suc i) (scan_backward hit (i - 1))"
      using False unfolding is_last_def by (auto split: option.splits simp: less_Suc_eq)
    then show ?thesis using False by (subst scan_backward.simps) simp
  qed
qed

section \<open>Copying and comparing\<close>

text \<open>
  \<^verbatim>\<open>operator==\<close>: the sizes first, then \<^verbatim>\<open>wordmemcmp\<close> over the first \<^verbatim>\<open>size\<close> characters, the
  difference at the first position where they differ.
\<close>

fun wordmemcmp :: "char list \<Rightarrow> char list \<Rightarrow> nat \<Rightarrow> int" where
  "wordmemcmp (x # xs) (y # ys) (Suc n) =
     (if x = y then wordmemcmp xs ys n else int (of_char x) - int (of_char y))"
| "wordmemcmp _ _ _ = 0"

definition piece_eq :: "string \<Rightarrow> string \<Rightarrow> bool" where
  "piece_eq x y = (if length x \<noteq> length y then False else wordmemcmp x y (length x) = 0)"

definition CopyToString :: "'a list \<Rightarrow> 'a list \<Rightarrow> 'a list" where
  "CopyToString self target = (if self = [] then [] else self)"

definition AppendToString :: "'a list \<Rightarrow> 'a list \<Rightarrow> 'a list" where
  "AppendToString self target = (if self \<noteq> [] then target @ self else target)"

text \<open>
  \<^verbatim>\<open>copy\<close> returns the number of characters and the buffer with its front overwritten. Its
  subtraction \<^verbatim>\<open>self.size() - pos\<close> wraps when the position is past the end, and \<^verbatim>\<open>memcpy\<close> then
  reads past it; a buffer smaller than what is copied is written past its end.
\<close>

definition copy_piece :: "'a list \<Rightarrow> 'a list \<Rightarrow> nat \<Rightarrow> nat \<Rightarrow> (nat \<times> 'a list) result" where
  "copy_piece self buf n pos =
     (let ret = min (if pos \<le> length self then length self - pos
                     else 2 ^ 64 - (pos - length self)) n
      in if pos + ret > length self \<or> ret > length buf then Inl Out_Of_Bounds
         else Inr (ret, take ret (drop pos self) @ drop ret buf))"

definition substr :: "'a list \<Rightarrow> nat \<Rightarrow> nat \<Rightarrow> 'a list" where
  "substr self pos n =
     (let pos = (if pos > length self then length self else pos);
          n = (if n > length self - pos then length self - pos else n)
      in take n (drop pos self))"

section \<open>Searching for a string or a character\<close>

definition occurs_at :: "'a list \<Rightarrow> 'a list \<Rightarrow> nat \<Rightarrow> bool" where
  "occurs_at self s i \<longleftrightarrow> i + length s \<le> length self \<and> take (length s) (drop i self) = s"

text \<open>
  \<^verbatim>\<open>std::search\<close> and \<^verbatim>\<open>std::find\<close> from a position, and \<^verbatim>\<open>std::find_end\<close> up to one, each with the
  end of its range for not found.
\<close>

definition std_search :: "'a list \<Rightarrow> 'a list \<Rightarrow> nat \<Rightarrow> nat" where
  "std_search self s pos =
     (case scan_forward (occurs_at self s) (Suc (length self)) pos of
        Some i \<Rightarrow> i | None \<Rightarrow> length self)"

definition std_find :: "'a list \<Rightarrow> 'a \<Rightarrow> nat \<Rightarrow> nat" where
  "std_find self c pos =
     (case scan_forward (\<lambda>i. self ! i = c) (length self) pos of
        Some i \<Rightarrow> i | None \<Rightarrow> length self)"

definition std_find_end :: "'a list \<Rightarrow> 'a list \<Rightarrow> nat \<Rightarrow> nat" where
  "std_find_end self s end_it =
     (case scan_backward (occurs_at (take end_it self) s) end_it of
        Some i \<Rightarrow> i | None \<Rightarrow> end_it)"

definition find_string :: "'a list \<Rightarrow> 'a list \<Rightarrow> nat \<Rightarrow> nat option" where
  "find_string self s pos =
     (if pos > length self then None
      else let xpos = std_search self s pos
           in if xpos + length s \<le> length self then Some xpos else None)"

definition find_char :: "'a list \<Rightarrow> 'a \<Rightarrow> nat \<Rightarrow> nat option" where
  "find_char self c pos =
     (if pos \<ge> length self then None
      else let r = std_find self c pos in if r \<noteq> length self then Some r else None)"

definition rfind_string :: "'a list \<Rightarrow> 'a list \<Rightarrow> nat \<Rightarrow> nat option" where
  "rfind_string self s pos =
     (if length self < length s then None
      else if s = [] then Some (min (length self) pos)
      else let end_it = min (length self - length s) pos + length s;
               r = std_find_end self s end_it
           in if r \<noteq> end_it then Some r else None)"

definition rfind_char :: "'a list \<Rightarrow> 'a \<Rightarrow> nat \<Rightarrow> nat option" where
  "rfind_char self c pos =
     (if length self = 0 then None
      else scan_backward (\<lambda>i. self ! i = c) (min pos (length self - 1)))"

section \<open>Searching for a set of characters\<close>

text \<open>The lookup table of the 8-bit versions, an array of 256 Booleans indexed by the character.\<close>

definition BuildLookupTable :: "string \<Rightarrow> bool list \<Rightarrow> bool list" where
  "BuildLookupTable characters_wanted table =
     fold (\<lambda>c t. t[(of_char c :: nat) := True]) characters_wanted table"

definition lookup_of :: "string \<Rightarrow> char \<Rightarrow> bool" where
  "lookup_of s c = BuildLookupTable s (replicate 256 False) ! (of_char c)"

definition find_first_of :: "string \<Rightarrow> string \<Rightarrow> nat \<Rightarrow> nat option" where
  "find_first_of self s pos =
     (if length self = 0 \<or> length s = 0 then None
      else if length s = 1 then find_char self (s ! 0) pos
      else scan_forward (\<lambda>i. lookup_of s (self ! i)) (length self) pos)"

text \<open>
  The 16-bit version hands \<^verbatim>\<open>begin() + pos\<close> to \<^verbatim>\<open>std::find_first_of\<close>, which is past the end of the
  array for a position greater than the size.
\<close>

definition std_find_first_of :: "'a list \<Rightarrow> 'a list \<Rightarrow> nat \<Rightarrow> nat" where
  "std_find_first_of self s pos =
     (case scan_forward (\<lambda>i. list_ex (\<lambda>c. self ! i = c) s) (length self) pos of
        Some i \<Rightarrow> i | None \<Rightarrow> length self)"

definition find_first_of16 :: "'a list \<Rightarrow> 'a list \<Rightarrow> nat \<Rightarrow> nat option result" where
  "find_first_of16 self s pos =
     (if pos > length self then Inl Out_Of_Bounds
      else let found = std_find_first_of self s pos
           in if found = length self then Inr None else Inr (Some found))"

definition find_first_not_of_char :: "'a list \<Rightarrow> 'a \<Rightarrow> nat \<Rightarrow> nat option" where
  "find_first_not_of_char self c pos =
     (if length self = 0 then None
      else scan_forward (\<lambda>i. self ! i \<noteq> c) (length self) pos)"

definition find_first_not_of :: "string \<Rightarrow> string \<Rightarrow> nat \<Rightarrow> nat option" where
  "find_first_not_of self s pos =
     (if length self = 0 then None
      else if length s = 0 then Some 0
      else if length s = 1 then find_first_not_of_char self (s ! 0) pos
      else scan_forward (\<lambda>i. \<not> lookup_of s (self ! i)) (length self) pos)"

text \<open>The inner loop of the brute-force versions: does any element of \<open>s\<close> from \<open>s_i\<close> on equal \<open>c\<close>?\<close>

definition found_in :: "'a list \<Rightarrow> 'a \<Rightarrow> bool" where
  "found_in s c = (scan_forward (\<lambda>s_i. c = s ! s_i) (length s) 0 \<noteq> None)"

definition find_first_not_of16 :: "'a list \<Rightarrow> 'a list \<Rightarrow> nat \<Rightarrow> nat option" where
  "find_first_not_of16 self s pos =
     (if length self = 0 then None
      else scan_forward (\<lambda>i. \<not> found_in s (self ! i)) (length self) pos)"

definition find_last_of :: "string \<Rightarrow> string \<Rightarrow> nat \<Rightarrow> nat option" where
  "find_last_of self s pos =
     (if length self = 0 \<or> length s = 0 then None
      else if length s = 1 then rfind_char self (s ! 0) pos
      else scan_backward (\<lambda>i. lookup_of s (self ! i)) (min pos (length self - 1)))"

definition find_last_of16 :: "'a list \<Rightarrow> 'a list \<Rightarrow> nat \<Rightarrow> nat option" where
  "find_last_of16 self s pos =
     (if length self = 0 then None
      else scan_backward (\<lambda>i. found_in s (self ! i)) (min pos (length self - 1)))"

definition find_last_not_of_char :: "'a list \<Rightarrow> 'a \<Rightarrow> nat \<Rightarrow> nat option" where
  "find_last_not_of_char self c pos =
     (if length self = 0 then None
      else scan_backward (\<lambda>i. self ! i \<noteq> c) (min pos (length self - 1)))"

definition find_last_not_of :: "string \<Rightarrow> string \<Rightarrow> nat \<Rightarrow> nat option" where
  "find_last_not_of self s pos =
     (if length self = 0 then None
      else let i = min pos (length self - 1)
           in if length s = 0 then Some i
              else if length s = 1 then find_last_not_of_char self (s ! 0) pos
              else scan_backward (\<lambda>i. \<not> lookup_of s (self ! i)) i)"

definition find_last_not_of16 :: "'a list \<Rightarrow> 'a list \<Rightarrow> nat \<Rightarrow> nat option" where
  "find_last_not_of16 self s pos =
     (if length self = 0 then None
      else scan_backward (\<lambda>i. \<not> found_in s (self ! i)) (min pos (length self - 1)))"

section \<open>Lemmas\<close>

lemma wordmemcmp_0: "length x = length y \<Longrightarrow> wordmemcmp x y (length x) = 0 \<longleftrightarrow> x = y"
proof (induction x arbitrary: y)
  case (Cons c x)
  then obtain d y' where "y = d # y'" "length x = length y'" by (cases y) auto
  with Cons.IH [of y'] show ?case by simp
qed simp

lemma piece_eq_iff: "piece_eq x y \<longleftrightarrow> x = y"
  unfolding piece_eq_def using wordmemcmp_0 [of x y] by auto

lemma CopyToString_eq [simp]: "CopyToString self target = self"
  by (simp add: CopyToString_def)

lemma AppendToString_eq [simp]: "AppendToString self target = target @ self"
  by (simp add: AppendToString_def)

lemma substr_eq [simp]: "substr self pos n = take n (drop pos self)"
  by (auto simp: substr_def Let_def min_def)

lemma of_char_less_256: "(of_char c :: nat) < 256"
  by (rule nat_of_char_less_256)

lemma of_char_nat_inj: "(of_char c :: nat) = of_char d \<longleftrightarrow> c = d"
  using of_char_eq_iff [where 'a = nat] by blast

lemma BuildLookupTable_nth:
  "length table = 256 \<Longrightarrow>
   BuildLookupTable s table ! of_char c \<longleftrightarrow> table ! of_char c \<or> c \<in> set s"
proof (induction s arbitrary: table)
  case Nil
  then show ?case by (simp add: BuildLookupTable_def)
next
  case (Cons d s)
  have "BuildLookupTable (d # s) table = BuildLookupTable s (table[of_char d := True])"
    by (simp add: BuildLookupTable_def)
  then show ?case using Cons of_char_less_256 [of d]
    by (auto simp: nth_list_update of_char_nat_inj)
qed

lemma lookup_of_iff [simp]: "lookup_of s c \<longleftrightarrow> c \<in> set s"
  by (simp add: lookup_of_def BuildLookupTable_nth)

lemma found_in_iff [simp]: "found_in s c \<longleftrightarrow> c \<in> set s"
  using scan_forward_first [of "\<lambda>i. c = s ! i" 0 "length s"]
  by (auto simp: found_in_def is_first_def in_set_conv_nth split: option.splits)

lemma singleton_nth: "length s = 1 \<Longrightarrow> set s = {s ! 0}"
  by (cases s) auto

lemma find_char_first: "is_first (\<lambda>i. self ! i = c) pos (length self) (find_char self c pos)"
  using scan_forward_first [of "\<lambda>i. self ! i = c" pos "length self"]
  by (auto simp: find_char_def std_find_def is_first_def Let_def split: option.splits if_splits)

lemma find_string_first:
  "is_first (occurs_at self s) pos (Suc (length self)) (find_string self s pos)"
proof -
  let ?r = "scan_forward (occurs_at self s) (Suc (length self)) pos"
  have r: "is_first (occurs_at self s) pos (Suc (length self)) ?r" by (rule scan_forward_first)
  have "find_string self s pos = ?r"
  proof (cases ?r)
    case None
    have "\<not> occurs_at self s (length self)" if "pos \<le> length self"
      using r None that by (auto simp: is_first_def)
    then show ?thesis using None
      by (auto simp: find_string_def std_search_def Let_def occurs_at_def)
  next
    case (Some i)
    then have "occurs_at self s i" "pos \<le> length self" using r by (auto simp: is_first_def)
    then show ?thesis using Some by (auto simp: find_string_def std_search_def Let_def occurs_at_def)
  qed
  then show ?thesis using r by simp
qed

lemma scan_backward_piece:
  assumes "self \<noteq> []"
  shows "is_last (\<lambda>i. i < length self \<and> P (self ! i)) (Suc pos)
           (scan_backward (\<lambda>i. P (self ! i)) (min pos (length self - 1)))"
proof -
  have "j \<le> length self - 1 \<longleftrightarrow> j < length self" for j
    using assms by (cases self) auto
  then show ?thesis
    using scan_backward_last [of "\<lambda>i. P (self ! i)" "min pos (length self - 1)"]
    by (auto simp: is_last_def less_Suc_eq_le split: option.splits)
qed

lemma rfind_char_last:
  "is_last (\<lambda>i. i < length self \<and> self ! i = c) (Suc pos) (rfind_char self c pos)"
  using scan_backward_piece [of self "\<lambda>d. d = c" pos]
  by (cases "self = []") (auto simp: rfind_char_def is_last_def)

lemma occurs_at_take:
  "e \<le> length self \<Longrightarrow> occurs_at (take e self) s i \<longleftrightarrow> occurs_at self s i \<and> i + length s \<le> e"
  by (auto simp: occurs_at_def drop_take min_def)

lemma rfind_string_last: "is_last (occurs_at self s) (Suc pos) (rfind_string self s pos)"
proof (cases "length self < length s \<or> s = []")
  case True
  then show ?thesis
    by (auto simp: rfind_string_def is_last_def occurs_at_def)
next
  case False
  define e where "e = min (length self - length s) pos + length s"
  have e: "e \<le> length self" using False by (auto simp: e_def)
  have hit: "occurs_at (take e self) s i \<longleftrightarrow> occurs_at self s i \<and> i \<le> pos" for i
    unfolding occurs_at_take [OF e] using False by (auto simp: occurs_at_def e_def)
  define R where "R = scan_backward (occurs_at (take e self) s) e"
  have r: "is_last (occurs_at (take e self) s) (Suc e) R"
    unfolding R_def by (rule scan_backward_last)
  have "\<not> occurs_at (take e self) s e" using False by (simp add: occurs_at_def)
  with r have "R \<noteq> Some e" by (auto simp: is_last_def)
  then have "rfind_string self s pos = R"
    using False by (auto simp: rfind_string_def std_find_end_def e_def [symmetric] R_def [symmetric]
        Let_def split: option.splits)
  moreover have "is_last (\<lambda>i. occurs_at self s i \<and> i \<le> pos) (Suc e) R"
    using r by (subst is_last_cong [where hit' = "occurs_at (take e self) s"]) (simp_all add: hit)
  moreover have "occurs_at self s i \<Longrightarrow> i \<le> pos \<Longrightarrow> i < Suc e" for i
    using False by (auto simp: occurs_at_def e_def)
  ultimately show ?thesis
    by (auto simp: is_last_def less_Suc_eq_le split: option.splits)
qed

lemma find_first_of_first:
  "is_first (\<lambda>i. self ! i \<in> set s) pos (length self) (find_first_of self s pos)"
proof (cases "length s = 1")
  case True
  then show ?thesis using find_char_first [of self "s ! 0" pos]
    by (auto simp: find_first_of_def singleton_nth is_first_def)
next
  case False
  then show ?thesis using scan_forward_first [of "\<lambda>i. self ! i \<in> set s" pos "length self"]
    by (auto simp: find_first_of_def is_first_def)
qed

lemma find_first_not_of_char_first:
  "is_first (\<lambda>i. self ! i \<noteq> c) pos (length self) (find_first_not_of_char self c pos)"
  using scan_forward_first [of "\<lambda>i. self ! i \<noteq> c" pos "length self"]
  by (auto simp: find_first_not_of_char_def is_first_def)

lemma find_first_not_of_first:
  assumes "s \<noteq> [] \<or> pos = 0"
  shows "is_first (\<lambda>i. self ! i \<notin> set s) pos (length self) (find_first_not_of self s pos)"
proof (cases "length s = 1")
  case True
  then show ?thesis using find_first_not_of_char_first [of self "s ! 0" pos]
    by (auto simp: find_first_not_of_def singleton_nth is_first_def)
next
  case False
  then show ?thesis using assms scan_forward_first [of "\<lambda>i. self ! i \<notin> set s" pos "length self"]
    by (auto simp: find_first_not_of_def is_first_def)
qed

lemma find_last_of_last:
  "is_last (\<lambda>i. i < length self \<and> self ! i \<in> set s) (Suc pos) (find_last_of self s pos)"
proof (cases "length s = 1")
  case True
  then show ?thesis using rfind_char_last [of self "s ! 0" pos]
    by (auto simp: find_last_of_def singleton_nth is_last_def)
next
  case False
  then show ?thesis using scan_backward_piece [of self "\<lambda>c. c \<in> set s" pos]
    by (cases "self = []") (auto simp: find_last_of_def is_last_def)
qed

lemma find_last_not_of_char_last:
  "is_last (\<lambda>i. i < length self \<and> self ! i \<noteq> c) (Suc pos) (find_last_not_of_char self c pos)"
  using scan_backward_piece [of self "\<lambda>d. d \<noteq> c" pos]
  by (cases "self = []") (auto simp: find_last_not_of_char_def is_last_def)

lemma find_last_not_of_last:
  "is_last (\<lambda>i. i < length self \<and> self ! i \<notin> set s) (Suc pos) (find_last_not_of self s pos)"
proof (cases "self = [] \<or> s = []")
  case True
  then show ?thesis by (cases self) (auto simp: find_last_not_of_def Let_def is_last_def min_def)
next
  case False
  then show ?thesis
    using scan_backward_piece [of self "\<lambda>c. c \<notin> set s" pos]
      find_last_not_of_char_last [of self "s ! 0" pos]
    by (cases "length s = 1") (auto simp: find_last_not_of_def Let_def singleton_nth)
qed

lemma find_first_of16_first:
  assumes "pos \<le> length self"
  shows "\<exists>r. find_first_of16 self s pos = Inr r \<and>
           is_first (\<lambda>i. self ! i \<in> set s) pos (length self) r"
proof -
  have "list_ex (\<lambda>c. x = c) s \<longleftrightarrow> x \<in> set s" for x by (induction s) auto
  then show ?thesis
    using assms scan_forward_first [of "\<lambda>i. self ! i \<in> set s" pos "length self"]
    by (auto simp: find_first_of16_def std_find_first_of_def Let_def is_first_def
        split: option.splits)
qed

lemma find_first_not_of16_first:
  "is_first (\<lambda>i. self ! i \<notin> set s) pos (length self) (find_first_not_of16 self s pos)"
  using scan_forward_first [of "\<lambda>i. self ! i \<notin> set s" pos "length self"]
  by (auto simp: find_first_not_of16_def is_first_def)

lemma find_last_of16_last:
  "is_last (\<lambda>i. i < length self \<and> self ! i \<in> set s) (Suc pos) (find_last_of16 self s pos)"
  using scan_backward_piece [of self "\<lambda>c. c \<in> set s" pos]
  by (cases "self = []") (auto simp: find_last_of16_def is_last_def)

lemma find_last_not_of16_last:
  "is_last (\<lambda>i. i < length self \<and> self ! i \<notin> set s) (Suc pos) (find_last_not_of16 self s pos)"
  using scan_backward_piece [of self "\<lambda>c. c \<notin> set s" pos]
  by (cases "self = []") (auto simp: find_last_not_of16_def is_last_def)

section \<open>What the searches return\<close>

text \<open>
  C17. Searching for a string or a character, in both directions: \<^verbatim>\<open>find\<close> returns the least
  position from the given one at which the string (the character) occurs, \<^verbatim>\<open>rfind\<close> the greatest
  position up to the given one, and \<^verbatim>\<open>npos\<close> exactly if there is none.
\<close>

theorem find_rfind_correct:
  "is_first (occurs_at self s) pos (Suc (length self)) (find_string self s pos) \<and>
   is_first (\<lambda>i. self ! i = c) pos (length self) (find_char self c pos) \<and>
   is_last (occurs_at self s) (Suc pos) (rfind_string self s pos) \<and>
   is_last (\<lambda>i. i < length self \<and> self ! i = c) (Suc pos) (rfind_char self c pos)"
  by (simp add: find_string_first find_char_first rfind_string_last rfind_char_last)

text \<open>
  The table-driven searches for a set of characters return the first or the last position
  whose character is (is not) in the set, single-character shortcut included, for every set and
  position; only \<^verbatim>\<open>find_first_not_of\<close> needs a non-empty set or the position 0.
\<close>

theorem set_searches_correct:
  "is_first (\<lambda>i. self ! i \<in> set s) pos (length self) (find_first_of self s pos) \<and>
   (s \<noteq> [] \<or> pos = 0 \<longrightarrow>
      is_first (\<lambda>i. self ! i \<notin> set s) pos (length self) (find_first_not_of self s pos)) \<and>
   is_last (\<lambda>i. i < length self \<and> self ! i \<in> set s) (Suc pos) (find_last_of self s pos) \<and>
   is_last (\<lambda>i. i < length self \<and> self ! i \<notin> set s) (Suc pos) (find_last_not_of self s pos)"
  by (simp add: find_first_of_first find_first_not_of_first find_last_of_last
      find_last_not_of_last)

theorem set_searches_correct_witness:
  "is_first (\<lambda>i. ''a, b'' ! i \<notin> set '', '') 1 4 (find_first_not_of ''a, b'' '', '' 1) \<and>
   find_first_not_of ''a, b'' '', '' 1 = Some 3"
  using set_searches_correct [of "''a, b''" "'', ''" 1]
  by (simp add: find_first_not_of_def scan_forward.simps numeral_eq_Suc)

text \<open>
  The 16-bit brute-force searches give the same answers as the table-driven ones on the same
  characters, with two exceptions: beyond the end of the piece the 16-bit \<^verbatim>\<open>find_first_of\<close> builds an
  iterator outside it, where the 8-bit one returns \<^verbatim>\<open>npos\<close>; and for an empty set the 8-bit
  \<^verbatim>\<open>find_first_not_of\<close> returns 0 whatever the position, where the 16-bit one returns the position.
\<close>

theorem set_searches_8_16:
  "find_first_of16 self s pos =
     (if pos \<le> length self then Inr (find_first_of self s pos) else Inl Out_Of_Bounds) \<and>
   find_first_not_of16 self s pos =
     (if s \<noteq> [] then find_first_not_of self s pos
      else if pos < length self then Some pos else None) \<and>
   find_first_not_of self [] pos = (if self = [] then None else Some 0) \<and>
   find_last_of16 self s pos = find_last_of self s pos \<and>
   find_last_not_of16 self s pos = find_last_not_of self s pos"
proof -
  have "find_first_of16 self s pos = Inr (find_first_of self s pos)" if "pos \<le> length self"
    using find_first_of16_first [OF that, of s] is_first_unique [OF _ find_first_of_first] by blast
  moreover have "find_first_not_of16 self s pos = find_first_not_of self s pos" if "s \<noteq> []"
    using that is_first_unique [OF find_first_not_of16_first find_first_not_of_first] by blast
  moreover have "find_first_not_of16 self [] pos = (if pos < length self then Some pos else None)"
    by (auto simp: find_first_not_of16_def scan_forward.simps [of _ _ pos])
  moreover have "find_last_of16 self s pos = find_last_of self s pos"
    using find_last_of16_last find_last_of_last by (rule is_last_unique)
  moreover have "find_last_not_of16 self s pos = find_last_not_of self s pos"
    using find_last_not_of16_last find_last_not_of_last by (rule is_last_unique)
  ultimately show ?thesis
    by (auto simp: find_first_of16_def find_first_not_of_def)
qed

end
