(* ===== verification/String_Util.thy ===== *)
theory String_Util
  imports String_Piece
begin

text \<open>
  base/strings/string_util.cc, first part: changing and ignoring case, prefixes and suffixes,
  trimming, collapsing white space, and the test for ASCII.

  A function template is a definition over a character type and the two things the code asks of
  it: \<open>val\<close>, the integer a character is promoted to (a signed one for \<^verbatim>\<open>char\<close>, an unsigned one for
  \<^verbatim>\<open>char16\<close>), and \<open>mk\<close>, the conversion back. The locale \<open>character\<close> states what both instances
  satisfy and is interpreted for \<^typ>\<open>char\<close> and \<^typ>\<open>16 word\<close>.
\<close>

section \<open>Characters\<close>

definition val8 :: "char \<Rightarrow> int" where
  "val8 c = (let n = (of_char c :: int) in if n < 128 then n else n - 256)"

definition mk8 :: "int \<Rightarrow> char" where
  "mk8 i = char_of (i mod 256)"

definition val16 :: "16 word \<Rightarrow> int" where
  "val16 w = uint w"

definition mk16 :: "int \<Rightarrow> 16 word" where
  "mk16 i = word_of_int i"

locale character =
  fixes val :: "'c \<Rightarrow> int" and mk :: "int \<Rightarrow> 'c"
  assumes mk_val: "mk (val c) = c"
    and val_mk: "0 \<le> i \<Longrightarrow> i < 128 \<Longrightarrow> val (mk i) = i"
begin

lemma val_inj: "val c = val d \<longleftrightarrow> c = d"
  by (metis mk_val)

end

interpretation char8: character val8 mk8
proof
  show "mk8 (val8 c) = c" for c
  proof -
    have "val8 c mod 256 = of_char c"
      using nat_of_char_less_256 [of c] by (auto simp: val8_def Let_def of_char_def mod_if)
    then show ?thesis by (simp add: mk8_def)
  qed
  show "0 \<le> i \<Longrightarrow> i < 128 \<Longrightarrow> val8 (mk8 i) = i" for i
    by (simp add: mk8_def val8_def Let_def of_char_of)
qed

interpretation char16: character val16 mk16
  by unfold_locales (simp_all add: val16_def mk16_def uint_word_of_int)

section \<open>Case\<close>

definition ToLowerASCII_char :: "('c \<Rightarrow> int) \<Rightarrow> (int \<Rightarrow> 'c) \<Rightarrow> 'c \<Rightarrow> 'c" where
  "ToLowerASCII_char val mk c =
     (if val c \<ge> 65 \<and> val c \<le> 90 then mk (val c + (97 - 65)) else c)"

definition ToUpperASCII_char :: "('c \<Rightarrow> int) \<Rightarrow> (int \<Rightarrow> 'c) \<Rightarrow> 'c \<Rightarrow> 'c" where
  "ToUpperASCII_char val mk c =
     (if val c \<ge> 97 \<and> val c \<le> 122 then mk (val c + (65 - 97)) else c)"

definition ToLowerASCIIImpl :: "('c \<Rightarrow> int) \<Rightarrow> (int \<Rightarrow> 'c) \<Rightarrow> 'c list \<Rightarrow> 'c list" where
  "ToLowerASCIIImpl val mk str = foldl (\<lambda>ret c. ret @ [ToLowerASCII_char val mk c]) [] str"

definition ToUpperASCIIImpl :: "('c \<Rightarrow> int) \<Rightarrow> (int \<Rightarrow> 'c) \<Rightarrow> 'c list \<Rightarrow> 'c list" where
  "ToUpperASCIIImpl val mk str = foldl (\<lambda>ret c. ret @ [ToUpperASCII_char val mk c]) [] str"

text \<open>The loop of the comparison walks both strings; what is left of each decides the tie.\<close>

fun CompareCaseInsensitiveASCIIT ::
  "('c \<Rightarrow> int) \<Rightarrow> (int \<Rightarrow> 'c) \<Rightarrow> 'c list \<Rightarrow> 'c list \<Rightarrow> int" where
  "CompareCaseInsensitiveASCIIT val mk (x # a) (y # b) =
     (let lower_a = ToLowerASCII_char val mk x;
          lower_b = ToLowerASCII_char val mk y
      in if val lower_a < val lower_b then -1
         else if val lower_a > val lower_b then 1
         else CompareCaseInsensitiveASCIIT val mk a b)"
| "CompareCaseInsensitiveASCIIT val mk a b =
     (if length a = length b then 0 else if length a < length b then -1 else 1)"

definition EqualsCaseInsensitiveASCII ::
  "('c \<Rightarrow> int) \<Rightarrow> (int \<Rightarrow> 'c) \<Rightarrow> 'c list \<Rightarrow> 'c list \<Rightarrow> bool" where
  "EqualsCaseInsensitiveASCII val mk a b =
     (if length a \<noteq> length b then False else CompareCaseInsensitiveASCIIT val mk a b = 0)"

definition DoLowerCaseEqualsASCII ::
  "('c \<Rightarrow> int) \<Rightarrow> (int \<Rightarrow> 'c) \<Rightarrow> 'c list \<Rightarrow> string \<Rightarrow> bool" where
  "DoLowerCaseEqualsASCII val mk str lowercase_ascii =
     (if length str \<noteq> length lowercase_ascii then False
      else scan_forward (\<lambda>i. val (ToLowerASCII_char val mk (str ! i)) \<noteq> val8 (lowercase_ascii ! i))
             (length str) 0 = None)"

definition EqualsASCII :: "16 word list \<Rightarrow> string \<Rightarrow> bool" where
  "EqualsASCII str ascii =
     (if length str \<noteq> length ascii then False
      else list_all2 (\<lambda>a s. val8 a = val16 s) ascii str)"

datatype CompareCase = SENSITIVE | INSENSITIVE_ASCII

definition CaseInsensitiveCompareASCII :: "('c \<Rightarrow> int) \<Rightarrow> (int \<Rightarrow> 'c) \<Rightarrow> 'c \<Rightarrow> 'c \<Rightarrow> bool" where
  "CaseInsensitiveCompareASCII val mk x y \<longleftrightarrow>
     ToLowerASCII_char val mk x = ToLowerASCII_char val mk y"

definition StartsWithT ::
  "('c \<Rightarrow> int) \<Rightarrow> (int \<Rightarrow> 'c) \<Rightarrow> 'c list \<Rightarrow> 'c list \<Rightarrow> CompareCase \<Rightarrow> bool" where
  "StartsWithT val mk str search_for case_sensitivity =
     (if length search_for > length str then False
      else let source = substr str 0 (length search_for)
           in case case_sensitivity of
                SENSITIVE \<Rightarrow> source = search_for
              | INSENSITIVE_ASCII \<Rightarrow>
                  list_all2 (CaseInsensitiveCompareASCII val mk) search_for source)"

definition EndsWithT ::
  "('c \<Rightarrow> int) \<Rightarrow> (int \<Rightarrow> 'c) \<Rightarrow> 'c list \<Rightarrow> 'c list \<Rightarrow> CompareCase \<Rightarrow> bool" where
  "EndsWithT val mk str search_for case_sensitivity =
     (if length search_for > length str then False
      else let source = substr str (length str - length search_for) (length search_for)
           in case case_sensitivity of
                SENSITIVE \<Rightarrow> source = search_for
              | INSENSITIVE_ASCII \<Rightarrow>
                  list_all2 (CaseInsensitiveCompareASCII val mk) source search_for)"

text \<open>Hexadecimal digits, on the promoted character.\<close>

definition IsHexDigit :: "int \<Rightarrow> bool" where
  "IsHexDigit c \<longleftrightarrow> (c \<ge> 48 \<and> c \<le> 57) \<or> (c \<ge> 65 \<and> c \<le> 70) \<or> (c \<ge> 97 \<and> c \<le> 102)"

definition HexDigitToInt :: "int \<Rightarrow> int" where
  "HexDigitToInt c =
     (if c \<ge> 48 \<and> c \<le> 57 then c - 48
      else if c \<ge> 65 \<and> c \<le> 70 then c - 65 + 10
      else if c \<ge> 97 \<and> c \<le> 102 then c - 97 + 10
      else 0)"

section \<open>Lemmas on case\<close>

lemma ToLowerASCIIImpl_map: "ToLowerASCIIImpl val mk str = map (ToLowerASCII_char val mk) str"
proof -
  have "foldl (\<lambda>ret c. ret @ [ToLowerASCII_char val mk c]) acc str =
      acc @ map (ToLowerASCII_char val mk) str" for acc
    by (induction str arbitrary: acc) auto
  then show ?thesis by (simp add: ToLowerASCIIImpl_def)
qed

lemma ToUpperASCIIImpl_map: "ToUpperASCIIImpl val mk str = map (ToUpperASCII_char val mk) str"
proof -
  have "foldl (\<lambda>ret c. ret @ [ToUpperASCII_char val mk c]) acc str =
      acc @ map (ToUpperASCII_char val mk) str" for acc
    by (induction str arbitrary: acc) auto
  then show ?thesis by (simp add: ToUpperASCIIImpl_def)
qed

text \<open>The order a comparison of sequences promises: lexicographic, a proper prefix first.\<close>

fun lex_compare :: "int list \<Rightarrow> int list \<Rightarrow> int" where
  "lex_compare (x # xs) (y # ys) = (if x = y then lex_compare xs ys else if x < y then -1 else 1)"
| "lex_compare [] [] = 0"
| "lex_compare [] (y # ys) = -1"
| "lex_compare (x # xs) [] = 1"

lemma lex_compare_range: "lex_compare xs ys \<in> {-1, 0, 1}"
  by (induction xs ys rule: lex_compare.induct) auto

lemma lex_compare_0: "lex_compare xs ys = 0 \<longleftrightarrow> xs = ys"
  by (induction xs ys rule: lex_compare.induct) auto

lemma lex_compare_swap: "lex_compare ys xs = - lex_compare xs ys"
  by (induction xs ys rule: lex_compare.induct) auto

lemma lex_compare_trans:
  "lex_compare xs ys \<le> 0 \<Longrightarrow> lex_compare ys zs \<le> 0 \<Longrightarrow> lex_compare xs zs \<le> 0"
proof (induction xs ys arbitrary: zs rule: lex_compare.induct)
  case (1 x xs y ys)
  then show ?case by (cases zs) (auto split: if_splits)
next
  case (3 y ys)
  then show ?case by (cases zs) auto
qed auto

context character
begin

lemma val_lower: "val (ToLowerASCII_char val mk c) =
    (if 65 \<le> val c \<and> val c \<le> 90 then val c + 32 else val c)"
  by (simp add: ToLowerASCII_char_def val_mk)

lemma val_upper: "val (ToUpperASCII_char val mk c) =
    (if 97 \<le> val c \<and> val c \<le> 122 then val c - 32 else val c)"
  by (simp add: ToUpperASCII_char_def val_mk)

lemma lower_upper [simp]:
  "ToLowerASCII_char val mk (ToUpperASCII_char val mk c) = ToLowerASCII_char val mk c"
  "ToUpperASCII_char val mk (ToLowerASCII_char val mk c) = ToUpperASCII_char val mk c"
  "ToLowerASCII_char val mk (ToLowerASCII_char val mk c) = ToLowerASCII_char val mk c"
  "ToUpperASCII_char val mk (ToUpperASCII_char val mk c) = ToUpperASCII_char val mk c"
  by (auto simp: val_inj [symmetric] val_lower val_upper)

lemma compare_lex:
  "CompareCaseInsensitiveASCIIT val mk a b =
   lex_compare (map val (ToLowerASCIIImpl val mk a)) (map val (ToLowerASCIIImpl val mk b))"
  unfolding ToLowerASCIIImpl_map
proof (induction a arbitrary: b)
  case Nil
  then show ?case by (cases b) auto
next
  case (Cons x a)
  then show ?case by (cases b) (auto simp: Let_def)
qed

lemma compare_0_iff:
  "CompareCaseInsensitiveASCIIT val mk a b = 0 \<longleftrightarrow>
   ToLowerASCIIImpl val mk a = ToLowerASCIIImpl val mk b"
proof -
  have "inj val" by (rule injI) (simp add: val_inj)
  then show ?thesis by (simp add: compare_lex lex_compare_0)
qed

lemma lower_length: "length (ToLowerASCIIImpl val mk a) = length a"
  by (simp add: ToLowerASCIIImpl_map)

lemma equals_iff:
  "EqualsCaseInsensitiveASCII val mk a b \<longleftrightarrow> ToLowerASCIIImpl val mk a = ToLowerASCIIImpl val mk b"
  by (auto simp: EqualsCaseInsensitiveASCII_def compare_0_iff) (metis lower_length)

lemma insensitive_all2:
  "list_all2 (CaseInsensitiveCompareASCII val mk) a b \<longleftrightarrow>
   ToLowerASCIIImpl val mk a = ToLowerASCIIImpl val mk b"
  by (auto simp: CaseInsensitiveCompareASCII_def ToLowerASCIIImpl_map list_all2_conv_all_nth
      list_eq_iff_nth_eq)

lemma starts_with:
  "StartsWithT val mk str p SENSITIVE \<longleftrightarrow> prefix p str"
  "StartsWithT val mk str p INSENSITIVE_ASCII \<longleftrightarrow>
     prefix (ToLowerASCIIImpl val mk p) (ToLowerASCIIImpl val mk str)"
  by (simp_all add: StartsWithT_def Let_def prefix_take insensitive_all2 lower_length)
    (simp add: ToLowerASCIIImpl_map take_map eq_commute not_less)

lemma ends_with:
  "EndsWithT val mk str p SENSITIVE \<longleftrightarrow> suffix p str"
  "EndsWithT val mk str p INSENSITIVE_ASCII \<longleftrightarrow>
     suffix (ToLowerASCIIImpl val mk p) (ToLowerASCIIImpl val mk str)"
  by (simp_all add: EndsWithT_def Let_def suffix_drop_iff insensitive_all2 lower_length)
    (simp add: ToLowerASCIIImpl_map drop_map not_less)

end

section \<open>Trimming\<close>

datatype TrimPositions = TRIM_NONE | TRIM_LEADING | TRIM_TRAILING | TRIM_ALL

text \<open>The bit tests and the union of the enumeration's values 0, 1, 2 and 3.\<close>

definition has_leading :: "TrimPositions \<Rightarrow> bool" where
  "has_leading p \<longleftrightarrow> p = TRIM_LEADING \<or> p = TRIM_ALL"

definition has_trailing :: "TrimPositions \<Rightarrow> bool" where
  "has_trailing p \<longleftrightarrow> p = TRIM_TRAILING \<or> p = TRIM_ALL"

definition trim_positions :: "bool \<Rightarrow> bool \<Rightarrow> TrimPositions" where
  "trim_positions l t =
     (if l then if t then TRIM_ALL else TRIM_LEADING
      else if t then TRIM_TRAILING else TRIM_NONE)"

type_synonym 'c set_search = "'c list \<Rightarrow> 'c list \<Rightarrow> nat \<Rightarrow> nat option"

text \<open>
  The template is instantiated with the 8-bit or the 16-bit \<^verbatim>\<open>find_first_not_of\<close> and
  \<^verbatim>\<open>find_last_not_of\<close> of the piece; the default positions are 0 and \<^verbatim>\<open>npos\<close>. The result is the
  returned value and the new content of the output.
\<close>

definition TrimStringT ::
  "'c set_search \<Rightarrow> 'c set_search \<Rightarrow> 'c list \<Rightarrow> 'c list \<Rightarrow> TrimPositions \<Rightarrow> TrimPositions \<times> 'c list" where
  "TrimStringT ffno flno input trim_chars positions =
     (let last_char = szsub (length input) 1;
          first_good_char = (if has_leading positions then pos_of (ffno input trim_chars 0) else 0);
          last_good_char = (if has_trailing positions then pos_of (flno input trim_chars npos)
                            else last_char)
      in if input = [] \<or> first_good_char = npos \<or> last_good_char = npos
         then (if input = [] then TRIM_NONE else positions, [])
         else (trim_positions (first_good_char \<noteq> 0) (last_good_char \<noteq> last_char),
               substr input first_good_char
                 (szadd (szsub last_good_char first_good_char) 1)))"

definition TrimStringPieceT ::
  "'c set_search \<Rightarrow> 'c set_search \<Rightarrow> 'c list \<Rightarrow> 'c list \<Rightarrow> TrimPositions \<Rightarrow> 'c list" where
  "TrimStringPieceT ffno flno input trim_chars positions =
     (let begin_pos = (if has_leading positions then pos_of (ffno input trim_chars 0) else 0);
          end_pos = (if has_trailing positions then szadd (pos_of (flno input trim_chars npos)) 1
                     else length input)
      in substr input begin_pos (szsub end_pos begin_pos))"

definition kWhitespaceWide :: "int list" where
  "kWhitespaceWide = [0x0009, 0x000A, 0x000B, 0x000C, 0x000D, 0x0020, 0x0085, 0x00A0, 0x1680,
     0x2000, 0x2001, 0x2002, 0x2003, 0x2004, 0x2005, 0x2006, 0x2007, 0x2008, 0x2009, 0x200A,
     0x2028, 0x2029, 0x202F, 0x205F, 0x3000]"

definition kWhitespaceUTF16 :: "16 word list" where
  "kWhitespaceUTF16 = map mk16 kWhitespaceWide"

definition kWhitespaceASCII :: string where
  "kWhitespaceASCII = map mk8 [0x09, 0x0A, 0x0B, 0x0C, 0x0D, 0x20]"

definition TrimString :: "string \<Rightarrow> string \<Rightarrow> TrimPositions \<Rightarrow> string" where
  "TrimString = TrimStringPieceT find_first_not_of find_last_not_of"

definition TrimString16 :: "16 word list \<Rightarrow> 16 word list \<Rightarrow> TrimPositions \<Rightarrow> 16 word list" where
  "TrimString16 = TrimStringPieceT find_first_not_of16 find_last_not_of16"

definition TrimString_output :: "string \<Rightarrow> string \<Rightarrow> bool \<times> string" where
  "TrimString_output input trim_chars =
     (let (p, output) = TrimStringT find_first_not_of find_last_not_of input trim_chars TRIM_ALL
      in (p \<noteq> TRIM_NONE, output))"

definition TrimWhitespace :: "16 word list \<Rightarrow> TrimPositions \<Rightarrow> TrimPositions \<times> 16 word list" where
  "TrimWhitespace input positions =
     TrimStringT find_first_not_of16 find_last_not_of16 input kWhitespaceUTF16 positions"

definition TrimWhitespaceASCII :: "string \<Rightarrow> TrimPositions \<Rightarrow> TrimPositions \<times> string" where
  "TrimWhitespaceASCII input positions =
     TrimStringT find_first_not_of find_last_not_of input kWhitespaceASCII positions"

definition TrimWhitespaceASCII_piece :: "string \<Rightarrow> TrimPositions \<Rightarrow> string" where
  "TrimWhitespaceASCII_piece input positions =
     TrimStringPieceT find_first_not_of find_last_not_of input kWhitespaceASCII positions"

definition ContainsOnlyChars :: "string \<Rightarrow> string \<Rightarrow> bool" where
  "ContainsOnlyChars input characters \<longleftrightarrow> find_first_not_of input characters 0 = None"

text \<open>What trimming is meant to do, on the list.\<close>

definition trim_spec :: "'c set \<Rightarrow> TrimPositions \<Rightarrow> 'c list \<Rightarrow> 'c list" where
  "trim_spec A p xs =
     (let ys = (if has_leading p then dropWhile (\<lambda>c. c \<in> A) xs else xs)
      in if has_trailing p then rev (dropWhile (\<lambda>c. c \<in> A) (rev ys)) else ys)"

lemma trim_decomp:
  "(\<forall>c \<in> set xs. c \<in> A) \<or>
   (\<exists>l m r. xs = l @ m @ r \<and> set l \<subseteq> A \<and> set r \<subseteq> A \<and> m \<noteq> [] \<and> hd m \<notin> A \<and> last m \<notin> A)"
proof (cases "\<forall>c \<in> set xs. c \<in> A")
  case False
  let ?ys = "dropWhile (\<lambda>c. c \<in> A) xs"
  let ?r = "takeWhile (\<lambda>c. c \<in> A) (rev ?ys)" and ?m = "dropWhile (\<lambda>c. c \<in> A) (rev ?ys)"
  from False have ys: "?ys \<noteq> []" "hd ?ys \<notin> A" 
    using hd_dropWhile [of "\<lambda>c. c \<in> A" xs] by auto
  have m: "?m \<noteq> []"
    using ys by (metis dropWhile_eq_Nil_conv hd_in_set set_rev)
  have split_ys: "?ys = rev ?m @ rev ?r"
    by (metis rev_append rev_rev_ident takeWhile_dropWhile_id)
  have "xs = takeWhile (\<lambda>c. c \<in> A) xs @ rev ?m @ rev ?r"
    using takeWhile_dropWhile_id [of "\<lambda>c. c \<in> A" xs] split_ys by metis
  moreover have "hd (rev ?m) \<notin> A"
    using ys(2) split_ys m by (metis hd_append2 rev_is_Nil_conv)
  moreover have "last (rev ?m) \<notin> A"
    using m hd_dropWhile by (metis last_rev)
  moreover have "set (takeWhile (\<lambda>c. c \<in> A) xs) \<subseteq> A" "set (rev ?r) \<subseteq> A"
    by (auto dest: set_takeWhileD)
  ultimately show ?thesis using m by (metis rev_is_Nil_conv)
qed simp

lemma dropWhile_all_prefix: "set l \<subseteq> A \<Longrightarrow> dropWhile (\<lambda>c. c \<in> A) (l @ ys) = dropWhile (\<lambda>c. c \<in> A) ys"
  by (auto intro!: dropWhile_append2)

lemma trim_spec_all:
  "\<forall>c \<in> set xs. c \<in> A \<Longrightarrow> trim_spec A p xs = (if p = TRIM_NONE then xs else [])"
  by (cases p) (auto simp: trim_spec_def has_leading_def has_trailing_def Let_def
      dest: set_dropWhileD)

lemma trim_spec_decomp:
  assumes "set l \<subseteq> A" "set r \<subseteq> A" "m \<noteq> []" "hd m \<notin> A" "last m \<notin> A"
  shows "trim_spec A p (l @ m @ r) =
    (if has_leading p then [] else l) @ m @ (if has_trailing p then [] else r)"
proof -
  have lead: "dropWhile (\<lambda>c. c \<in> A) (l @ m @ r) = m @ r"
    using assms by (cases m) (auto simp: dropWhile_all_prefix)
  have trail: "rev (dropWhile (\<lambda>c. c \<in> A) (rev (ys @ m @ r))) = ys @ m" for ys
    using assms by (cases m rule: rev_cases) (auto simp: dropWhile_all_prefix)
  show ?thesis
    using lead trail [of l] trail [of "[]"] by (simp add: trim_spec_def Let_def)
qed

text \<open>The contract of the two searches that trimming relies on, and what follows for a trim.\<close>

locale complement_search =
  fixes ffno flno :: "'c set_search"
  assumes ffno_first: "is_first (\<lambda>i. xs ! i \<notin> set s) 0 (length xs) (ffno xs s 0)"
    and flno_last: "is_last (\<lambda>i. i < length xs \<and> xs ! i \<notin> set s) (Suc pos) (flno xs s pos)"
begin

lemma searches_all:
  assumes "\<forall>c \<in> set xs. c \<in> set s"
  shows "ffno xs s 0 = None" "flno xs s pos = None"
  using ffno_first [of xs s] flno_last [of xs s pos] assms
  by (auto simp: is_first_def is_last_def split: option.splits)

lemma searches_decomp:
  assumes "set l \<subseteq> set s" "set r \<subseteq> set s" "m \<noteq> []" "hd m \<notin> set s" "last m \<notin> set s"
    and "length (l @ m @ r) \<le> pos"
  shows "ffno (l @ m @ r) s 0 = Some (length l)"
    "flno (l @ m @ r) s pos = Some (length l + length m - 1)"
proof -
  let ?xs = "l @ m @ r"
  have "is_first (\<lambda>i. ?xs ! i \<notin> set s) 0 (length ?xs) (Some (length l))"
    using assms by (auto simp: is_first_def nth_append hd_conv_nth)
  then show "ffno ?xs s 0 = Some (length l)" using ffno_first is_first_unique by metis
  have "?xs ! (length l + length m - 1) = last m"
    using assms(3) by (cases m rule: rev_cases) (auto simp: nth_append)
  moreover have "?xs ! j \<in> set s" if "length l + length m - 1 < j" "j < length ?xs" for j
  proof -
    have "?xs ! j = r ! (j - length l - length m)" "j - length l - length m < length r"
      using that assms(3) by (cases m; auto simp: nth_append)+
    then show ?thesis using assms(2) by (auto dest: nth_mem)
  qed
  ultimately have "is_last (\<lambda>i. i < length ?xs \<and> ?xs ! i \<notin> set s) (Suc pos)
      (Some (length l + length m - 1))"
    using assms by (cases m) (auto simp: is_last_def)
  then show "flno ?xs s pos = Some (length l + length m - 1)"
    using flno_last is_last_unique by metis
qed

lemma trim_piece:
  assumes "length xs < npos"
  shows "TrimStringPieceT ffno flno xs s p = trim_spec (set s) p xs"
proof (cases "\<forall>c \<in> set xs. c \<in> set s")
  case True
  then show ?thesis using assms
    by (cases p) (auto simp: TrimStringPieceT_def searches_all has_leading_def has_trailing_def
        trim_spec_all npos_wraps szsub_id npos_def szsub_def szadd_def)
next
  case False
  with trim_decomp [of xs "set s"] obtain l m r where d: "xs = l @ m @ r" "set l \<subseteq> set s"
    "set r \<subseteq> set s" "m \<noteq> []" "hd m \<notin> set s" "last m \<notin> set s" by blast
  have m: "Suc (length l + length m - Suc 0) = length l + length m" using d(4) by (cases m) auto
  from assms d have n: "length l + length m + length r < 2 ^ 64 - 1" by (simp add: npos_def)
  have le: "length (l @ m @ r) \<le> npos" using assms d(1) by simp
  show ?thesis
    using d(4) n unfolding d(1) trim_spec_decomp [OF d(2-6)]
    by (auto simp: TrimStringPieceT_def searches_decomp [OF d(2-6) le] szadd_id m szsub_id Let_def)
qed

lemma trim_output:
  assumes "length xs < npos"
  shows "TrimStringT ffno flno xs s p =
    (let ys = trim_spec (set s) p xs
     in (if ys = [] then if xs = [] then TRIM_NONE else p
         else trim_positions (has_leading p \<and> hd xs \<in> set s) (has_trailing p \<and> last xs \<in> set s),
         ys))"
proof (cases "xs \<noteq> [] \<and> \<not> (\<forall>c \<in> set xs. c \<in> set s)")
  case False
  show ?thesis
  proof (cases "xs = []")
    case True
    then show ?thesis by (auto simp: TrimStringT_def trim_spec_all Let_def)
  next
    case xs: False
    then have "szadd (szsub (length xs) (Suc 0)) (Suc 0) = length xs"
      "szsub (length xs) (Suc 0) \<noteq> npos" "\<forall>c \<in> set xs. c \<in> set s"
      using False assms by (cases xs; auto simp: npos_def szsub_id szadd_id)+
    then show ?thesis using xs assms
      by (cases p) (auto simp: TrimStringT_def searches_all has_leading_def has_trailing_def
          trim_spec_all Let_def trim_positions_def npos_def [symmetric])
  qed
next
  case True
  with trim_decomp [of xs "set s"] obtain l m r where d: "xs = l @ m @ r" "set l \<subseteq> set s"
    "set r \<subseteq> set s" "m \<noteq> []" "hd m \<notin> set s" "last m \<notin> set s" by blast
  have le: "length (l @ m @ r) \<le> npos" using assms d(1) by simp
  have h: "hd (l @ m @ r) \<in> set s \<longleftrightarrow> l \<noteq> []" "last (l @ m @ r) \<in> set s \<longleftrightarrow> r \<noteq> []"
    using d(2-6) by (auto simp: hd_append last_append)
  obtain k where m: "length m = Suc k" using d(4) by (cases m) auto
  from assms d m have n: "length l + Suc k + length r < 2 ^ 64 - 1" by (simp add: npos_def)
  have np: "0 < npos" "length l \<noteq> npos" "length l + k \<noteq> npos" "length l + (k + length r) \<noteq> npos"
    using n by (simp_all add: npos_def)
  have lr: "last (m @ r) \<in> set s \<longleftrightarrow> r \<noteq> []" using d(3,4,6) by (auto simp: last_append)
  show ?thesis
    using d(4) n m unfolding d(1) trim_spec_decomp [OF d(2-6)]
    by (auto simp: TrimStringT_def searches_decomp [OF d(2-6) le] szadd_id szsub_id Let_def
        h np lr)
qed

end

interpretation trim8: complement_search find_first_not_of find_last_not_of
  by unfold_locales (simp_all add: find_first_not_of_first find_last_not_of_last)

interpretation trim16: complement_search find_first_not_of16 find_last_not_of16
  by unfold_locales (simp_all add: find_first_not_of16_first find_last_not_of16_last)

section \<open>What case folding and trimming do\<close>

text \<open>
  The comparison that ignores ASCII case is the lexicographic order of the lower-cased
  strings, by signed bytes for 8-bit strings: it answers -1, 0 or 1, is antisymmetric and
  transitive, and answers 0 exactly on strings with the same lower-case form, which is what
  \<^verbatim>\<open>EqualsCaseInsensitiveASCII\<close> computes. Lower-casing keeps the length, and a string and its
  upper-case form have the same lower-case form.
\<close>

theorem compare_case_insensitive:
  fixes a b c :: string
  shows "CompareCaseInsensitiveASCIIT val8 mk8 a b =
      lex_compare (map val8 (ToLowerASCIIImpl val8 mk8 a)) (map val8 (ToLowerASCIIImpl val8 mk8 b)) \<and>
    CompareCaseInsensitiveASCIIT val8 mk8 a b \<in> {-1, 0, 1} \<and>
    CompareCaseInsensitiveASCIIT val8 mk8 b a = - CompareCaseInsensitiveASCIIT val8 mk8 a b \<and>
    (CompareCaseInsensitiveASCIIT val8 mk8 a b \<le> 0 \<longrightarrow>
       CompareCaseInsensitiveASCIIT val8 mk8 b c \<le> 0 \<longrightarrow>
       CompareCaseInsensitiveASCIIT val8 mk8 a c \<le> 0) \<and>
    (CompareCaseInsensitiveASCIIT val8 mk8 a b = 0 \<longleftrightarrow>
       ToLowerASCIIImpl val8 mk8 a = ToLowerASCIIImpl val8 mk8 b) \<and>
    (EqualsCaseInsensitiveASCII val8 mk8 a b \<longleftrightarrow>
       ToLowerASCIIImpl val8 mk8 a = ToLowerASCIIImpl val8 mk8 b) \<and>
    length (ToLowerASCIIImpl val8 mk8 a) = length a \<and>
    ToLowerASCIIImpl val8 mk8 (ToUpperASCIIImpl val8 mk8 a) = ToLowerASCIIImpl val8 mk8 a"
    (is "?lex \<and> ?range \<and> ?swap \<and> ?trans \<and> ?zero \<and> ?eq \<and> ?len \<and> ?up")
proof (intro conjI)
  show ?lex by (rule char8.compare_lex)
  show ?range unfolding char8.compare_lex by (rule lex_compare_range)
  show ?swap unfolding char8.compare_lex by (rule lex_compare_swap)
  show ?trans unfolding char8.compare_lex by (blast intro: lex_compare_trans)
  show ?zero by (rule char8.compare_0_iff)
  show ?eq by (rule char8.equals_iff)
  show ?len by (rule char8.lower_length)
  show ?up by (simp add: ToLowerASCIIImpl_map ToUpperASCIIImpl_map)
qed

theorem compare_case_insensitive_witness:
  "CompareCaseInsensitiveASCIIT val8 mk8 ''Port'' ''PORTS'' \<le> 0"
proof -
  have "CompareCaseInsensitiveASCIIT val8 mk8 ''Port'' ''port'' \<le> 0"
    "CompareCaseInsensitiveASCIIT val8 mk8 ''port'' ''PORTS'' \<le> 0"
    by code_simp+
  with compare_case_insensitive [of "''Port''" "''port''" "''PORTS''"] show ?thesis by blast
qed

text \<open>
  \<^verbatim>\<open>StartsWith\<close> and \<^verbatim>\<open>EndsWith\<close> decide whether the string has the given prefix or suffix,
  exactly or up to ASCII case, for 8-bit and for 16-bit strings.
\<close>

theorem starts_ends_with:
  "(StartsWithT val8 mk8 s p SENSITIVE \<longleftrightarrow> prefix p s) \<and>
   (StartsWithT val8 mk8 s p INSENSITIVE_ASCII \<longleftrightarrow>
      prefix (ToLowerASCIIImpl val8 mk8 p) (ToLowerASCIIImpl val8 mk8 s)) \<and>
   (EndsWithT val8 mk8 s p SENSITIVE \<longleftrightarrow> suffix p s) \<and>
   (EndsWithT val8 mk8 s p INSENSITIVE_ASCII \<longleftrightarrow>
      suffix (ToLowerASCIIImpl val8 mk8 p) (ToLowerASCIIImpl val8 mk8 s)) \<and>
   (StartsWithT val16 mk16 w q INSENSITIVE_ASCII \<longleftrightarrow>
      prefix (ToLowerASCIIImpl val16 mk16 q) (ToLowerASCIIImpl val16 mk16 w)) \<and>
   (EndsWithT val16 mk16 w q INSENSITIVE_ASCII \<longleftrightarrow>
      suffix (ToLowerASCIIImpl val16 mk16 q) (ToLowerASCIIImpl val16 mk16 w))"
  by (simp add: char8.starts_with char8.ends_with char16.starts_with char16.ends_with)

text \<open>
  Trimming removes exactly the leading, trailing or both runs of the given characters, in the
  version that returns a piece and in the one that fills an output and reports whether it trimmed,
  also when nothing is left, where the positions are \<^verbatim>\<open>npos\<close> and their arithmetic wraps around;
  the 8-bit and the 16-bit version do the same.
\<close>

theorem trim_correct:
  assumes "length input < npos" "length input16 < npos"
  shows "TrimString input chars p = trim_spec (set chars) p input \<and>
    TrimString16 input16 chars16 p = trim_spec (set chars16) p input16 \<and>
    TrimString_output input chars =
      (input \<noteq> [] \<and> (hd input \<in> set chars \<or> last input \<in> set chars),
       trim_spec (set chars) TRIM_ALL input) \<and>
    snd (TrimWhitespaceASCII input p) = TrimWhitespaceASCII_piece input p"
proof (intro conjI)
  have all: "\<forall>c \<in> set input. c \<in> set chars" if "trim_spec (set chars) TRIM_ALL input = []"
    using trim_decomp [of input "set chars"] that trim_spec_decomp [of _ "set chars"] by force
  show "TrimString_output input chars =
      (input \<noteq> [] \<and> (hd input \<in> set chars \<or> last input \<in> set chars),
       trim_spec (set chars) TRIM_ALL input)"
  proof (cases "trim_spec (set chars) TRIM_ALL input = []")
    case True
    with all show ?thesis using assms
      by (cases input) (auto simp: TrimString_output_def trim8.trim_output Let_def)
  next
    case False
    then have "input \<noteq> []" by (auto simp: trim_spec_def)
    with False show ?thesis using assms
      by (auto simp: TrimString_output_def trim8.trim_output Let_def trim_positions_def
          has_leading_def has_trailing_def)
  qed
qed (use assms in \<open>simp_all add: TrimString_def TrimString16_def TrimWhitespaceASCII_def
       TrimWhitespaceASCII_piece_def trim8.trim_piece trim16.trim_piece trim8.trim_output Let_def\<close>)

theorem trim_correct_witness:
  "TrimString ''  neat '' '' '' TRIM_LEADING = ''neat '' \<and>
   TrimString_output ''   '' '' '' = (True, [])"
proof -
  have l: "length ''  neat '' < npos" "length ''   '' < npos" "length [] < npos"
    by (simp_all add: npos_def)
  show ?thesis
    using trim_correct [OF l(1) l(3), of "'' ''" TRIM_LEADING]
      trim_correct [OF l(2) l(3), of "'' ''" TRIM_ALL]
    by (simp add: trim_spec_def has_leading_def has_trailing_def)
qed

end
