(* ===== verification/String_Split.thy ===== *)
theory String_Split
  imports String_Util
begin

text \<open>
  base/strings/string_split.cc and \<^verbatim>\<open>JoinString\<close> of base/strings/string_util.cc. The splitting loop
  is a template over the search for a delimiter; the locale \<open>delimiter_search\<close> states what it needs
  of that search, and the three instances of the code (one character, a set of 8-bit or of 16-bit
  characters) are its interpretations.
\<close>

section \<open>Splitting at delimiters\<close>

datatype WhitespaceHandling = KEEP_WHITESPACE | TRIM_WHITESPACE
datatype SplitResult = SPLIT_WANT_ALL | SPLIT_WANT_NONEMPTY

text \<open>What one turn of the loop does with its piece: trim it, then push it or drop it.\<close>

definition push_piece ::
  "('c list \<Rightarrow> 'c list) \<Rightarrow> WhitespaceHandling \<Rightarrow> SplitResult \<Rightarrow> 'c list \<Rightarrow> 'c list list" where
  "push_piece trim_ws whitespace result_type piece =
     (let piece = (if whitespace = TRIM_WHITESPACE then trim_ws piece else piece)
      in if result_type = SPLIT_WANT_ALL \<or> piece \<noteq> [] then [piece] else [])"

text \<open>
  The loop. \<^verbatim>\<open>FindFirstOf\<close> returns a position from \<open>start\<close> on and inside the string; the loop tests
  that, so that it is total for every search.
\<close>

function split_loop ::
  "('c list \<Rightarrow> nat \<Rightarrow> nat option result) \<Rightarrow> ('c list \<Rightarrow> 'c list list) \<Rightarrow> 'c list \<Rightarrow> nat \<Rightarrow> 'c list list \<Rightarrow>
   'c list list result" where
  "split_loop FindFirstOf push str start acc =
     (case FindFirstOf str start of
        Inl e \<Rightarrow> Inl e
      | Inr None \<Rightarrow> Inr (acc @ push (substr str start npos))
      | Inr (Some end_pos) \<Rightarrow>
          if end_pos < start \<or> end_pos \<ge> length str then Inl Out_Of_Bounds
          else split_loop FindFirstOf push str (end_pos + 1)
                 (acc @ push (substr str start (end_pos - start))))"
  by pat_completeness auto
termination by (relation "measure (\<lambda>(f, push, str, start, acc). length str - start)") auto

declare split_loop.simps [simp del]

definition SplitStringT ::
  "('c list \<Rightarrow> nat \<Rightarrow> nat option result) \<Rightarrow> ('c list \<Rightarrow> 'c list) \<Rightarrow> 'c list \<Rightarrow>
   WhitespaceHandling \<Rightarrow> SplitResult \<Rightarrow> 'c list list result" where
  "SplitStringT FindFirstOf trim_ws str whitespace result_type =
     (if str = [] then Inr []
      else split_loop FindFirstOf (push_piece trim_ws whitespace result_type) str 0 [])"

text \<open>\<^verbatim>\<open>FindFirstOf\<close> for a character, for a set of 8-bit characters and for one of 16-bit characters.\<close>

definition FindFirstOf_char :: "'c \<Rightarrow> 'c list \<Rightarrow> nat \<Rightarrow> nat option result" where
  "FindFirstOf_char c piece pos = Inr (find_char piece c pos)"

definition FindFirstOf_set :: "string \<Rightarrow> string \<Rightarrow> nat \<Rightarrow> nat option result" where
  "FindFirstOf_set one_of piece pos = Inr (find_first_of piece one_of pos)"

definition FindFirstOf_set16 :: "'c list \<Rightarrow> 'c list \<Rightarrow> nat \<Rightarrow> nat option result" where
  "FindFirstOf_set16 one_of piece pos = find_first_of16 piece one_of pos"

definition trim_ws8 :: "string \<Rightarrow> string" where
  "trim_ws8 piece = TrimString piece kWhitespaceASCII TRIM_ALL"

definition trim_ws16 :: "16 word list \<Rightarrow> 16 word list" where
  "trim_ws16 piece = TrimString16 piece kWhitespaceUTF16 TRIM_ALL"

definition SplitString ::
  "string \<Rightarrow> string \<Rightarrow> WhitespaceHandling \<Rightarrow> SplitResult \<Rightarrow> string list result" where
  "SplitString input separators whitespace result_type =
     (if length separators = 1
      then SplitStringT (FindFirstOf_char (separators ! 0)) trim_ws8 input whitespace result_type
      else SplitStringT (FindFirstOf_set separators) trim_ws8 input whitespace result_type)"

definition SplitString16 ::
  "16 word list \<Rightarrow> 16 word list \<Rightarrow> WhitespaceHandling \<Rightarrow> SplitResult \<Rightarrow> 16 word list list result" where
  "SplitString16 input separators whitespace result_type =
     (if length separators = 1
      then SplitStringT (FindFirstOf_char (separators ! 0)) trim_ws16 input whitespace result_type
      else SplitStringT (FindFirstOf_set16 separators) trim_ws16 input whitespace result_type)"

text \<open>The versions that return pieces of the input; a piece is the string it views.\<close>

definition SplitStringPiece ::
  "string \<Rightarrow> string \<Rightarrow> WhitespaceHandling \<Rightarrow> SplitResult \<Rightarrow> string list result" where
  "SplitStringPiece input separators whitespace result_type =
     (if length separators = 1
      then SplitStringT (FindFirstOf_char (separators ! 0)) trim_ws8 input whitespace result_type
      else SplitStringT (FindFirstOf_set separators) trim_ws8 input whitespace result_type)"

definition SplitStringPiece16 ::
  "16 word list \<Rightarrow> 16 word list \<Rightarrow> WhitespaceHandling \<Rightarrow> SplitResult \<Rightarrow> 16 word list list result" where
  "SplitStringPiece16 input separators whitespace result_type =
     (if length separators = 1
      then SplitStringT (FindFirstOf_char (separators ! 0)) trim_ws16 input whitespace result_type
      else SplitStringT (FindFirstOf_set16 separators) trim_ws16 input whitespace result_type)"

section \<open>Joining\<close>

fun join_rest :: "'c list \<Rightarrow> 'c list list \<Rightarrow> 'c list \<Rightarrow> 'c list" where
  "join_rest sep [] acc = acc"
| "join_rest sep (p # ps) acc = join_rest sep ps (AppendToString sep acc @ p)"

definition JoinStringT :: "'c list list \<Rightarrow> 'c list \<Rightarrow> 'c list" where
  "JoinStringT parts sep = (case parts of [] \<Rightarrow> [] | p # ps \<Rightarrow> join_rest sep ps p)"

section \<open>Key-value pairs\<close>

text \<open>The pair appended and whether both a delimiter and a value were found.\<close>

definition AppendStringKeyValue ::
  "string \<Rightarrow> char \<Rightarrow> (string \<times> string) list \<Rightarrow> bool \<times> (string \<times> string) list" where
  "AppendStringKeyValue input delimiter pairs =
     (case find_char input delimiter 0 of
        None \<Rightarrow> (False, pairs @ [([], [])])
      | Some end_key_pos \<Rightarrow>
          let key = CopyToString (substr input 0 end_key_pos) [];
              remains = substr input end_key_pos (length input - end_key_pos)
          in case find_first_not_of_char remains delimiter 0 of
               None \<Rightarrow> (False, pairs @ [(key, [])])
             | Some begin_value_pos \<Rightarrow>
                 (True, pairs @ [(key,
                    CopyToString (substr remains begin_value_pos (length remains - begin_value_pos)) [])]))"

fun append_pairs ::
  "char \<Rightarrow> string list \<Rightarrow> bool \<times> (string \<times> string) list \<Rightarrow> bool \<times> (string \<times> string) list" where
  "append_pairs d [] r = r"
| "append_pairs d (p # ps) (success, pairs) =
     (let (ok, pairs) = AppendStringKeyValue p d pairs
      in append_pairs d ps (if \<not> ok then False else success, pairs))"

definition SplitStringIntoKeyValuePairs ::
  "string \<Rightarrow> char \<Rightarrow> char \<Rightarrow> (bool \<times> (string \<times> string) list) result" where
  "SplitStringIntoKeyValuePairs input key_value_delimiter key_value_pair_delimiter =
     bind_result (SplitStringPiece input [key_value_pair_delimiter] TRIM_WHITESPACE SPLIT_WANT_NONEMPTY)
       (\<lambda>pairs. Inr (append_pairs key_value_delimiter pairs (True, [])))"

section \<open>Splitting at a substring\<close>

text \<open>
  The loop ends when no delimiter is left. \<open>None\<close> stands for a loop that has not ended within its
  fuel; the fuel the operation is given, one turn for every character and one more, is enough for
  every delimiter that is not empty.
\<close>

fun split_substr_loop ::
  "nat \<Rightarrow> ('c list \<Rightarrow> 'c list list) \<Rightarrow> 'c list \<Rightarrow> 'c list \<Rightarrow> nat \<Rightarrow> 'c list list \<Rightarrow> 'c list list option" where
  "split_substr_loop 0 push input delimiter begin_index acc = None"
| "split_substr_loop (Suc fuel) push input delimiter begin_index acc =
     (case find_string input delimiter begin_index of
        None \<Rightarrow> Some (acc @ push (substr input begin_index npos))
      | Some end_index \<Rightarrow>
          split_substr_loop fuel push input delimiter (end_index + length delimiter)
            (acc @ push (substr input begin_index (end_index - begin_index))))"

definition SplitStringUsingSubstrT ::
  "nat \<Rightarrow> ('c list \<Rightarrow> 'c list) \<Rightarrow> 'c list \<Rightarrow> 'c list \<Rightarrow> WhitespaceHandling \<Rightarrow> SplitResult \<Rightarrow>
   'c list list option" where
  "SplitStringUsingSubstrT fuel trim_ws input delimiter whitespace result_type =
     split_substr_loop fuel (push_piece trim_ws whitespace result_type) input delimiter 0 []"

definition SplitStringUsingSubstr :: "nat \<Rightarrow> string \<Rightarrow> string \<Rightarrow> string list option" where
  "SplitStringUsingSubstr fuel input delimiter =
     SplitStringUsingSubstrT fuel trim_ws8 input delimiter TRIM_WHITESPACE SPLIT_WANT_ALL"

definition SplitStringUsingSubstr16 ::
  "nat \<Rightarrow> 16 word list \<Rightarrow> 16 word list \<Rightarrow> 16 word list list option" where
  "SplitStringUsingSubstr16 fuel input delimiter =
     SplitStringUsingSubstrT fuel trim_ws16 input delimiter TRIM_WHITESPACE SPLIT_WANT_ALL"

definition SplitStringPieceUsingSubstr ::
  "nat \<Rightarrow> string \<Rightarrow> string \<Rightarrow> WhitespaceHandling \<Rightarrow> SplitResult \<Rightarrow> string list option" where
  "SplitStringPieceUsingSubstr fuel = SplitStringUsingSubstrT fuel trim_ws8"

definition SplitStringPieceUsingSubstr16 ::
  "nat \<Rightarrow> 16 word list \<Rightarrow> 16 word list \<Rightarrow> WhitespaceHandling \<Rightarrow> SplitResult \<Rightarrow> 16 word list list option" where
  "SplitStringPieceUsingSubstr16 fuel = SplitStringUsingSubstrT fuel trim_ws16"

section \<open>What splitting means\<close>

function fields :: "('c \<Rightarrow> bool) \<Rightarrow> 'c list \<Rightarrow> 'c list list" where
  "fields is_delim xs =
     (case dropWhile (\<lambda>c. \<not> is_delim c) xs of
        [] \<Rightarrow> [xs]
      | d # rest \<Rightarrow> takeWhile (\<lambda>c. \<not> is_delim c) xs # fields is_delim rest)"
  by pat_completeness auto
termination
proof (relation "measure (\<lambda>(P, xs). length xs)", goal_cases)
  case (2 P xs d rest)
  then have "length (d # rest) \<le> length xs" by (metis length_dropWhile_le)
  then show ?case by simp
qed simp

declare fields.simps [simp del]

lemma fields_nonempty [simp]: "fields P xs \<noteq> []"
  by (subst fields.simps) (simp split: list.splits)

lemma fields_none: "\<forall>c \<in> set xs. \<not> P c \<Longrightarrow> fields P xs = [xs]"
  by (subst fields.simps) (simp add: dropWhile_eq_Nil_conv [THEN iffD2])

lemma fields_cons: "\<forall>c \<in> set a. \<not> P c \<Longrightarrow> P d \<Longrightarrow> fields P (a @ d # rest) = a # fields P rest"
  by (subst fields.simps) (simp add: takeWhile_append2 dropWhile_append2)

lemma fields_cases:
  obtains "\<forall>c \<in> set xs. \<not> P c" | a d rest where "xs = a @ d # rest" "\<forall>c \<in> set a. \<not> P c" "P d"
proof (cases "\<exists>c \<in> set xs. P c")
  case True
  then show ?thesis using that(2) by (metis split_list_first_prop)
qed (use that(1) in blast)

lemma fields_clean: "p \<in> set (fields P xs) \<Longrightarrow> \<forall>c \<in> set p. \<not> P c"
proof (induction "length xs" arbitrary: xs rule: less_induct)
  case less
  show ?case
  proof (rule fields_cases [of xs P])
    fix a d rest
    assume xs: "xs = a @ d # rest" "\<forall>c \<in> set a. \<not> P c" "P d"
    then have "p = a \<or> p \<in> set (fields P rest)" using less.prems by (simp add: fields_cons)
    then show ?thesis using xs less.hyps [of rest] by auto
  qed (use less in \<open>simp add: fields_none\<close>)
qed

text \<open>The contract of a search for a delimiter, and the loop over it.\<close>

locale delimiter_search =
  fixes find_delim :: "'c list \<Rightarrow> nat \<Rightarrow> nat option result" and is_delim :: "'c \<Rightarrow> bool"
  assumes finds: "pos \<le> length str \<Longrightarrow>
    \<exists>r. find_delim str pos = Inr r \<and> is_first (\<lambda>i. is_delim (str ! i)) pos (length str) r"
begin

lemma split_loop_fields:
  assumes "start \<le> length str" "length str < npos"
  shows "split_loop find_delim push str start acc =
    Inr (acc @ concat (map push (fields is_delim (drop start str))))"
  using assms
proof (induction "length str - start" arbitrary: start acc rule: less_induct)
  case less
  let ?xs = "drop start str"
  from finds [OF less.prems(1)] obtain r where r: "find_delim str start = Inr r"
    "is_first (\<lambda>i. is_delim (str ! i)) start (length str) r" by blast
  show ?case
  proof (cases r)
    case None
    with r(2) less.prems(1) have "\<forall>c \<in> set ?xs. \<not> is_delim c"
      by (auto simp: is_first_def all_set_conv_all_nth)
    then have "fields is_delim ?xs = [?xs]" by (rule fields_none)
    moreover have "take npos ?xs = ?xs" using less.prems(2) by simp
    ultimately show ?thesis using r(1) None by (subst split_loop.simps) simp
  next
    case (Some e)
    with r(2) have e: "start \<le> e" "e < length str" "is_delim (str ! e)"
      "\<forall>j. start \<le> j \<longrightarrow> j < e \<longrightarrow> \<not> is_delim (str ! j)" by (auto simp: is_first_def)
    have split: "?xs = take (e - start) ?xs @ str ! e # drop (Suc e) str"
      using e(1,2) drop_upto [of start e str] by (simp add: Cons_nth_drop_Suc)
    have clean: "\<forall>c \<in> set (take (e - start) ?xs). \<not> is_delim c"
      using e(4) less.prems(1) by (auto simp: all_set_conv_all_nth)
    then have "fields is_delim ?xs = take (e - start) ?xs # fields is_delim (drop (Suc e) str)"
      using e(3) by (subst split) (rule fields_cons)
    moreover have "split_loop find_delim push str (e + 1) (acc @ push (take (e - start) ?xs)) =
        Inr ((acc @ push (take (e - start) ?xs)) @ concat (map push (fields is_delim (drop (e + 1) str))))"
      using e less.prems by (intro less.hyps) auto
    ultimately show ?thesis using r(1) Some e by (subst split_loop.simps) simp
  qed
qed

lemma SplitStringT_fields:
  assumes "length str < npos"
  shows "SplitStringT find_delim trim_ws str whitespace result_type =
    Inr (if str = [] then []
         else concat (map (push_piece trim_ws whitespace result_type) (fields is_delim str)))"
  using split_loop_fields [of 0 str] assms by (simp add: SplitStringT_def)

end

interpretation by_char: delimiter_search "FindFirstOf_char c" "\<lambda>x. x = c" for c
  by unfold_locales (simp add: FindFirstOf_char_def find_char_first)

interpretation by_set: delimiter_search "FindFirstOf_set s" "\<lambda>x. x \<in> set s" for s
  by unfold_locales (simp add: FindFirstOf_set_def find_first_of_first)

interpretation by_set16: delimiter_search "FindFirstOf_set16 s" "\<lambda>x. x \<in> set s" for s
  by unfold_locales (simp add: FindFirstOf_set16_def find_first_of16_first)

section \<open>Properties\<close>

definition want :: "SplitResult \<Rightarrow> 'c list list \<Rightarrow> 'c list list" where
  "want rt ps = (if rt = SPLIT_WANT_ALL then ps else filter (\<lambda>p. p \<noteq> []) ps)"

lemma push_want:
  "concat (map (push_piece trim_ws w rt) ps) =
   want rt (map (if w = TRIM_WHITESPACE then trim_ws else id) ps)"
  by (induction ps) (auto simp: push_piece_def want_def)

lemma fields_shorter: "p \<in> set (fields P xs) \<Longrightarrow> length p \<le> length xs"
proof (induction "length xs" arbitrary: xs rule: less_induct)
  case less
  show ?case
  proof (rule fields_cases [of xs P])
    fix a d rest
    assume xs: "xs = a @ d # rest" "\<forall>c \<in> set a. \<not> P c" "P d"
    then have "p = a \<or> p \<in> set (fields P rest)" using less.prems by (simp add: fields_cons)
    then show ?thesis using xs less.hyps [of rest] by auto
  qed (use less in \<open>simp add: fields_none\<close>)
qed

lemma trimmed_fields:
  "length xs < npos \<Longrightarrow>
   map (if w = TRIM_WHITESPACE then trim_ws8 else id) (fields P xs) =
   map (if w = TRIM_WHITESPACE then trim_spec (set kWhitespaceASCII) TRIM_ALL else id) (fields P xs)"
proof -
  assume xs: "length xs < npos"
  have "trim_ws8 p = trim_spec (set kWhitespaceASCII) TRIM_ALL p" if "p \<in> set (fields P xs)" for p
    using le_less_trans [OF fields_shorter [OF that] xs]
    by (simp add: trim_ws8_def TrimString_def trim8.trim_piece)
  then show ?thesis by simp
qed

lemma trimmed_fields16:
  "length xs < npos \<Longrightarrow>
   map (if w = TRIM_WHITESPACE then trim_ws16 else id) (fields P xs) =
   map (if w = TRIM_WHITESPACE then trim_spec (set kWhitespaceUTF16) TRIM_ALL else id) (fields P xs)"
proof -
  assume xs: "length xs < npos"
  have "trim_ws16 p = trim_spec (set kWhitespaceUTF16) TRIM_ALL p" if "p \<in> set (fields P xs)" for p
    using le_less_trans [OF fields_shorter [OF that] xs]
    by (simp add: trim_ws16_def TrimString16_def trim16.trim_piece)
  then show ?thesis by simp
qed

lemma single_delim: "length s = 1 \<Longrightarrow> (\<lambda>x. x = s ! 0) = (\<lambda>x. x \<in> set s)"
  using singleton_nth by auto

lemma SplitString_fields:
  assumes "length input < npos"
  shows "SplitString input seps w rt =
    Inr (if input = [] then []
         else want rt (map (if w = TRIM_WHITESPACE then trim_spec (set kWhitespaceASCII) TRIM_ALL else id)
                (fields (\<lambda>c. c \<in> set seps) input)))"
  using assms single_delim [of seps]
  by (auto simp: SplitString_def by_char.SplitStringT_fields by_set.SplitStringT_fields push_want
      trimmed_fields)

lemma SplitStringPiece_eq: "SplitStringPiece = SplitString" "SplitStringPiece16 = SplitString16"
  by (simp_all add: fun_eq_iff SplitStringPiece_def SplitString_def SplitStringPiece16_def SplitString16_def)

lemma SplitString16_fields:
  assumes "length input < npos"
  shows "SplitString16 input seps w rt =
    Inr (if input = [] then []
         else want rt (map (if w = TRIM_WHITESPACE then trim_spec (set kWhitespaceUTF16) TRIM_ALL else id)
                (fields (\<lambda>c. c \<in> set seps) input)))"
  using assms single_delim [of seps]
  by (auto simp: SplitString16_def by_char.SplitStringT_fields by_set16.SplitStringT_fields push_want
      trimmed_fields16)

text \<open>
  C21. \<^verbatim>\<open>SplitString\<close> returns the maximal stretches of the input without a separator, in order, empty
  ones included, each trimmed if asked for, and without the empty ones if asked for; an empty input
  has no fields. The single-character search, the table search and the 16-bit search give the same,
  and no search leaves the string.
\<close>

theorem SplitString_correct:
  assumes "length input < npos" "length input16 < npos"
  shows "SplitString input seps w rt =
      Inr (if input = [] then []
           else want rt (map (if w = TRIM_WHITESPACE then trim_spec (set kWhitespaceASCII) TRIM_ALL else id)
                  (fields (\<lambda>c. c \<in> set seps) input))) \<and>
    SplitString16 input16 seps16 w rt =
      Inr (if input16 = [] then []
           else want rt (map (if w = TRIM_WHITESPACE then trim_spec (set kWhitespaceUTF16) TRIM_ALL else id)
                  (fields (\<lambda>c. c \<in> set seps16) input16)))"
  using assms by (simp add: SplitString_fields SplitString16_fields)

theorem SplitString_correct_witness:
  "SplitString ''a; b,'' '',;'' TRIM_WHITESPACE SPLIT_WANT_NONEMPTY = Inr [''a'', ''b'']"
proof -
  have "length ''a; b,'' < npos" "length [] < npos" by (simp_all add: npos_def)
  moreover have "want SPLIT_WANT_NONEMPTY (map (trim_spec (set kWhitespaceASCII) TRIM_ALL)
      (fields (\<lambda>c. c \<in> set '',;'') ''a; b,'')) = [''a'', ''b'']" by code_simp
  ultimately show ?thesis
    using SplitString_correct [of "''a; b,''" "[]" "'',;''" TRIM_WHITESPACE SPLIT_WANT_NONEMPTY] by simp
qed

subsection \<open>Joining and splitting\<close>

lemma join_rest_eq: "join_rest sep ps acc = acc @ concat (map (\<lambda>p. sep @ p) ps)"
  by (induction ps arbitrary: acc) auto

lemma JoinStringT_Cons [simp]:
  "JoinStringT [] sep = []" "JoinStringT [p] sep = p"
  "ps \<noteq> [] \<Longrightarrow> JoinStringT (p # ps) sep = p @ sep @ JoinStringT ps sep"
  by (simp_all add: JoinStringT_def join_rest_eq) (cases ps; simp add: join_rest_eq)

lemma join_fields: "JoinStringT (fields (\<lambda>c. c = d) xs) [d] = xs"
proof (induction "length xs" arbitrary: xs rule: less_induct)
  case less
  show ?case
    by (rule fields_cases [of xs "\<lambda>c. c = d"]) (use less in \<open>auto simp: fields_none fields_cons\<close>)
qed

lemma fields_join:
  "ps \<noteq> [] \<Longrightarrow> \<forall>p \<in> set ps. d \<notin> set p \<Longrightarrow> fields (\<lambda>c. c = d) (JoinStringT ps [d]) = ps"
proof (induction ps)
  case (Cons p ps)
  have "\<forall>c \<in> set p. c \<noteq> d" using Cons.prems by auto
  then show ?case using Cons by (cases "ps = []") (auto simp: fields_none fields_cons)
qed simp

text \<open>
  Splitting and joining are inverse: joining the fields of a string with the separator they
  were split at gives the string back, and splitting a joined list gives the list back if no part
  contains the separator (a list of one empty part apart, which joins to the empty string).
\<close>

theorem split_join_inverse:
  assumes "length input < npos" "length (JoinStringT parts [d]) < npos"
    and "\<forall>p \<in> set parts. d \<notin> set p" "parts \<noteq> [[]]"
  shows "(\<exists>ps. SplitString input [d] KEEP_WHITESPACE SPLIT_WANT_ALL = Inr ps \<and>
      JoinStringT ps [d] = input) \<and>
    SplitString (JoinStringT parts [d]) [d] KEEP_WHITESPACE SPLIT_WANT_ALL = Inr parts"
proof
  show "\<exists>ps. SplitString input [d] KEEP_WHITESPACE SPLIT_WANT_ALL = Inr ps \<and> JoinStringT ps [d] = input"
    using assms(1) by (auto simp: SplitString_fields want_def join_fields)
  have "JoinStringT parts [d] \<noteq> []" if "parts \<noteq> []"
  proof -
    obtain p ps where "parts = p # ps" using \<open>parts \<noteq> []\<close> by (cases parts) auto
    then show ?thesis using assms(4) by (cases "ps = []") auto
  qed
  then show "SplitString (JoinStringT parts [d]) [d] KEEP_WHITESPACE SPLIT_WANT_ALL = Inr parts"
    using assms(2,3) by (cases "parts = []") (auto simp: SplitString_fields want_def fields_join)
qed

theorem split_join_inverse_witness:
  "SplitString (JoinStringT [''10.0.0.1'', '''', ''8080''] '':'') '':'' KEEP_WHITESPACE SPLIT_WANT_ALL =
   Inr [''10.0.0.1'', '''', ''8080'']"
  using split_join_inverse [of "[]" "[''10.0.0.1'', '''', ''8080'']" "CHR '':''"]
  by (simp add: npos_def)

subsection \<open>Key-value pairs\<close>

definition pair_string :: "char \<Rightarrow> string \<times> string \<Rightarrow> string" where
  "pair_string d kv = fst kv @ d # snd kv"

text \<open>A pair that survives being written out: no delimiter where it would be taken for one, no
  white space at the ends.\<close>

definition plain_pair :: "char \<Rightarrow> char \<Rightarrow> string \<times> string \<Rightarrow> bool" where
  "plain_pair d pd kv \<longleftrightarrow> (case kv of (k, v) \<Rightarrow>
     d \<notin> set k \<and> pd \<notin> set k \<and> v \<noteq> [] \<and> hd v \<noteq> d \<and> pd \<notin> set v \<and>
     hd (k @ [d]) \<notin> set kWhitespaceASCII \<and> last v \<notin> set kWhitespaceASCII)"

lemma trim_spec_plain:
  "xs \<noteq> [] \<Longrightarrow> hd xs \<notin> A \<Longrightarrow> last xs \<notin> A \<Longrightarrow> trim_spec A p xs = xs"
  using trim_spec_decomp [of "[]" A "[]" xs p] by simp

lemma find_char_split: "d \<notin> set k \<Longrightarrow> find_char (k @ d # v) d 0 = Some (length k)"
proof (rule is_first_unique [OF find_char_first])
  assume "d \<notin> set k"
  then show "is_first (\<lambda>i. (k @ d # v) ! i = d) 0 (length (k @ d # v)) (Some (length k))"
    by (auto simp: is_first_def nth_append)
qed

lemma AppendStringKeyValue_plain:
  assumes "plain_pair d pd kv"
  shows "AppendStringKeyValue (pair_string d kv) d pairs = (True, pairs @ [kv])"
proof -
  obtain k v where kv: "kv = (k, v)" by fastforce
  with assms have k: "d \<notin> set k" "v \<noteq> []" "hd v \<noteq> d" by (auto simp: plain_pair_def)
  have "is_first (\<lambda>i. (d # v) ! i \<noteq> d) 0 (length (d # v)) (Some 1)"
    using k(2,3) by (cases v) (auto simp: is_first_def)
  then have "find_first_not_of_char (d # v) d 0 = Some 1"
    by (rule is_first_unique [OF find_first_not_of_char_first])
  then show ?thesis using k(1) kv
    by (simp add: AppendStringKeyValue_def pair_string_def find_char_split Let_def)
qed

lemma append_pairs_plain:
  "\<forall>kv \<in> set kvs. plain_pair d pd kv \<Longrightarrow>
   append_pairs d (map (pair_string d) kvs) (ok, acc) = (ok, acc @ kvs)"
  by (induction kvs arbitrary: acc) (simp_all add: AppendStringKeyValue_plain [of d pd])

text \<open>
  Pairs written as key, delimiter, value and joined with the pair delimiter are read back by
  \<^verbatim>\<open>SplitStringIntoKeyValuePairs\<close> in order, with success, provided no key contains a delimiter, no
  value is empty, starts with the first or contains the second delimiter, and no pair starts or
  ends with white space.
\<close>

theorem key_value_roundtrip:
  assumes "\<forall>kv \<in> set kvs. plain_pair d pd kv" "d \<noteq> pd"
    and "length (JoinStringT (map (pair_string d) kvs) [pd]) < npos"
  shows "SplitStringIntoKeyValuePairs (JoinStringT (map (pair_string d) kvs) [pd]) d pd = Inr (True, kvs)"
proof -
  let ?parts = "map (pair_string d) kvs"
  have clean: "\<forall>p \<in> set ?parts. pd \<notin> set p \<and> p \<noteq> []"
    using assms(1,2) by (auto simp: plain_pair_def pair_string_def)
  have "trim_spec (set kWhitespaceASCII) TRIM_ALL (pair_string d kv) = pair_string d kv"
    if "plain_pair d pd kv" for kv
    using that by (intro trim_spec_plain)
      (auto simp: plain_pair_def pair_string_def hd_append split: prod.splits if_splits)
  then have trim: "map (trim_spec (set kWhitespaceASCII) TRIM_ALL) ?parts = ?parts"
    using assms(1) by simp
  have nonempty: "filter (\<lambda>p. p \<noteq> []) ?parts = ?parts" using clean by (simp add: filter_id_conv)
  show ?thesis
  proof (cases "kvs = []")
    case True
    then show ?thesis by (simp add: SplitStringIntoKeyValuePairs_def SplitStringPiece_eq SplitString_fields npos_def)
  next
    case False
    then have "fields (\<lambda>c. c = pd) (JoinStringT ?parts [pd]) = ?parts"
      using clean by (intro fields_join) auto
    moreover have "JoinStringT ?parts [pd] \<noteq> []"
      using calculation clean False by (auto simp: fields_none)
    ultimately have "SplitString (JoinStringT ?parts [pd]) [pd] TRIM_WHITESPACE SPLIT_WANT_NONEMPTY =
        Inr ?parts"
      using assms(3) trim nonempty by (simp add: SplitString_fields want_def del: map_map)
    then show ?thesis using append_pairs_plain [OF assms(1), of True "[]"]
      by (simp add: SplitStringIntoKeyValuePairs_def SplitStringPiece_eq)
  qed
qed

theorem key_value_roundtrip_witness:
  "SplitStringIntoKeyValuePairs ''port=8080;host=::1'' (CHR ''='') (CHR '';'') =
   Inr (True, [(''port'', ''8080''), (''host'', ''::1'')])"
proof -
  let ?kvs = "[(''port'', ''8080''), (''host'', ''::1'')]"
  have "\<forall>kv \<in> set ?kvs. plain_pair (CHR ''='') (CHR '';'') kv" by code_simp
  moreover have join: "JoinStringT (map (pair_string (CHR ''='')) ?kvs) [CHR '';''] = ''port=8080;host=::1''"
    by (simp add: pair_string_def)
  ultimately show ?thesis
    using key_value_roundtrip [of ?kvs "CHR ''=''" "CHR '';''"] by (simp add: npos_def)
qed

subsection \<open>Splitting at a substring\<close>

lemma occurs_in_piece:
  assumes "occurs_at (take n (drop b xs)) s i" "s \<noteq> []"
  shows "occurs_at xs s (b + i)" "i < n"
proof -
  have len: "i + length s \<le> n" "i + length s \<le> length xs - b"
    and eq: "take (length s) (drop i (take n (drop b xs))) = s"
    using assms(1) by (auto simp: occurs_at_def)
  have "take (length s) (drop i (take n (drop b xs))) = take (length s) (drop (b + i) xs)"
    using len(1) by (simp add: drop_take add.commute)
  moreover have s: "0 < length s" using assms(2) by simp
  moreover have "b + i + length s \<le> length xs" using len(2) s by linarith
  ultimately show "occurs_at xs s (b + i)" using eq by (simp add: occurs_at_def)
  show "i < n" using len(1) s by linarith
qed

lemma split_substr_pieces:
  assumes "delim \<noteq> []" "begin_pos \<le> length input" "length input < npos"
  shows "\<exists>ps. (\<forall>fuel push acc. length input - begin_pos < fuel \<longrightarrow>
      split_substr_loop fuel push input delim begin_pos acc = Some (acc @ concat (map push ps))) \<and>
    ps \<noteq> [] \<and> JoinStringT ps delim = drop begin_pos input \<and>
    (\<forall>p \<in> set ps. \<forall>i. \<not> occurs_at p delim i)"
  using assms(2)
proof (induction "length input - begin_pos" arbitrary: begin_pos rule: less_induct)
  case less
  let ?xs = "drop begin_pos input" and ?R = "find_string input delim begin_pos"
  have first: "is_first (occurs_at input delim) begin_pos (Suc (length input)) ?R"
    by (rule find_string_first)
  have take_all: "take npos ?xs = ?xs" using assms(3) by simp
  show ?case
  proof (cases ?R)
    case None
    have "\<not> occurs_at ?xs delim i" for i
      using first None less.prems by (auto simp: is_first_def occurs_at_def add.commute)
    moreover have "split_substr_loop fuel push input delim begin_pos acc = Some (acc @ push ?xs)"
      if "length input - begin_pos < fuel" for fuel push acc
      using that None take_all by (cases fuel) simp_all
    ultimately show ?thesis by (intro exI [of _ "[?xs]"]) auto
  next
    case (Some e)
    with first have e: "begin_pos \<le> e" "occurs_at input delim e"
      "\<forall>j. begin_pos \<le> j \<longrightarrow> j < e \<longrightarrow> \<not> occurs_at input delim j" by (auto simp: is_first_def)
    let ?p = "take (e - begin_pos) ?xs" and ?b = "e + length delim"
    have b: "?b \<le> length input" "length input - ?b < length input - begin_pos"
      using e assms(1) by (auto simp: occurs_at_def neq_Nil_conv)
    from less.hyps [OF b(2,1)] obtain ps where ps:
      "\<And>fuel push acc. length input - ?b < fuel \<Longrightarrow>
         split_substr_loop fuel push input delim ?b acc = Some (acc @ concat (map push ps))"
      "ps \<noteq> []" "JoinStringT ps delim = drop ?b input" "\<forall>p \<in> set ps. \<forall>i. \<not> occurs_at p delim i" by blast
    have "split_substr_loop fuel push input delim begin_pos acc = Some (acc @ concat (map push (?p # ps)))"
      if "length input - begin_pos < fuel" for fuel push acc
      using that Some ps(1) b(2) by (cases fuel) simp_all
    moreover have "JoinStringT (?p # ps) delim = ?xs"
    proof -
      have "drop e input = delim @ drop ?b input"
        using e(2) by (metis append_take_drop_id drop_drop add.commute occurs_at_def)
      then show ?thesis using ps(2,3) drop_upto [OF e(1), of input] by simp
    qed
    moreover have "\<not> occurs_at ?p delim i" for i
    proof
      assume "occurs_at ?p delim i"
      then have "occurs_at input delim (begin_pos + i)" "begin_pos + i < e"
        using occurs_in_piece [OF _ assms(1)] by fastforce+
      then show False using e(3) by auto
    qed
    ultimately show ?thesis using ps(2,4) by (intro exI [of _ "?p # ps"]) auto
  qed
qed

text \<open>
  Splitting at a substring ends, within one turn per character, with pieces in which the
  substring does not occur and which give the input back when joined with it; trimming and dropping
  empty pieces act on these. With an empty delimiter the loop never ends.
\<close>

theorem split_substr_correct:
  assumes "length input < npos"
  shows "(delim \<noteq> [] \<longrightarrow>
      (\<exists>ps. SplitStringUsingSubstrT (Suc (length input)) trim_ws input delim w rt =
         Some (concat (map (push_piece trim_ws w rt) ps)) \<and>
       JoinStringT ps delim = input \<and> list_all (\<lambda>p. \<forall>i. \<not> occurs_at p delim i) ps)) \<and>
    SplitStringUsingSubstrT fuel trim_ws input [] w rt = None"
proof (intro conjI impI)
  assume "delim \<noteq> []"
  from split_substr_pieces [OF this _ assms, of 0] obtain ps where
    "\<And>push acc. split_substr_loop (Suc (length input)) push input delim 0 acc =
       Some (acc @ concat (map push ps))"
    "JoinStringT ps delim = input" "\<forall>p \<in> set ps. \<forall>i. \<not> occurs_at p delim i"
    by (auto simp del: split_substr_loop.simps)
  then show
    "\<exists>ps. SplitStringUsingSubstrT (Suc (length input)) trim_ws input delim w rt =
       Some (concat (map (push_piece trim_ws w rt) ps)) \<and>
     JoinStringT ps delim = input \<and> list_all (\<lambda>p. \<forall>i. \<not> occurs_at p delim i) ps"
    by (auto simp: SplitStringUsingSubstrT_def list_all_iff simp del: split_substr_loop.simps)
next
  have "find_string input [] i = Some i" if "i \<le> length input" for i
    using that by (intro is_first_unique [OF find_string_first]) (auto simp: is_first_def occurs_at_def)
  then have "split_substr_loop fuel push input [] i acc = None" if "i \<le> length input" for push i acc
    using that by (induction fuel arbitrary: acc) simp_all
  then show "SplitStringUsingSubstrT fuel trim_ws input [] w rt = None"
    by (simp add: SplitStringUsingSubstrT_def)
qed

theorem split_substr_correct_witness:
  "\<exists>ps. SplitStringUsingSubstrT 9 trim_ws8 ''a--b----'' ''--'' KEEP_WHITESPACE SPLIT_WANT_ALL =
     Some (concat (map (push_piece trim_ws8 KEEP_WHITESPACE SPLIT_WANT_ALL) ps)) \<and>
   JoinStringT ps ''--'' = ''a--b----''"
proof -
  have "length ''a--b----'' < npos" by (simp add: npos_def)
  from split_substr_correct [OF this, of "''--''" trim_ws8 KEEP_WHITESPACE SPLIT_WANT_ALL]
  show ?thesis by (auto simp: numeral_eq_Suc)
qed

end
