(* ===== verification/String_Replace.thy ===== *)
theory String_Replace
  imports String_Util
begin

text \<open>
  base/strings/string_util.cc, third part: replacing characters and substrings in place.
  \<^verbatim>\<open>DoReplaceSubstringsAfterOffset\<close> has one loop for replacements of the same length, one that
  compacts the string from the front when it gets shorter, and one that fills it from the back when
  it gets longer. The first two are shown to compute the left-to-right replacement for every
  argument. The third looks for the previous match with \<^verbatim>\<open>rfind\<close> in the string it is overwriting:
  it is shown correct for a search string of one character, and to leave the string's bounds on a
  concrete longer one.
\<close>

section \<open>Operations of std::string\<close>

definition std_string_find :: "'c list \<Rightarrow> 'c list \<Rightarrow> nat \<Rightarrow> nat option" where
  "std_string_find str s pos = scan_forward (occurs_at str s) (Suc (length str)) pos"

definition std_string_rfind :: "'c list \<Rightarrow> 'c list \<Rightarrow> nat \<Rightarrow> nat option" where
  "std_string_rfind str s pos = scan_backward (occurs_at str s) (min pos (length str))"

definition std_string_find_first_of :: "'c list \<Rightarrow> 'c list \<Rightarrow> nat \<Rightarrow> nat option" where
  "std_string_find_first_of str s pos = scan_forward (\<lambda>i. str ! i \<in> set s) (length str) pos"

text \<open>\<^verbatim>\<open>replace(pos, n, with)\<close> for a position inside the string, and \<^verbatim>\<open>resize\<close>.\<close>

definition std_string_replace :: "'c list \<Rightarrow> nat \<Rightarrow> nat \<Rightarrow> 'c list \<Rightarrow> 'c list" where
  "std_string_replace str pos n w = take pos str @ w @ drop (pos + n) str"

definition std_string_resize :: "'c \<Rightarrow> 'c list \<Rightarrow> nat \<Rightarrow> 'c list" where
  "std_string_resize nul str n = take n str @ replicate (n - length str) nul"

text \<open>\<^verbatim>\<open>memmove(&str[to], &str[from], n)\<close>\<close>

definition move_within :: "'c list \<Rightarrow> nat \<Rightarrow> nat \<Rightarrow> nat \<Rightarrow> 'c list result" where
  "move_within str to_pos from_pos n =
     (if to_pos + n > length str \<or> from_pos + n > length str then Inl Out_Of_Bounds
      else Inr (take to_pos str @ take n (drop from_pos str) @ drop (to_pos + n) str))"

lemma std_string_find_first:
  "is_first (occurs_at str s) pos (Suc (length str)) (std_string_find str s pos)"
  unfolding std_string_find_def by (rule scan_forward_first)

lemma std_string_find_Some:
  "std_string_find str s pos = Some i \<Longrightarrow> pos \<le> i \<and> i + length s \<le> length str"
  using std_string_find_first [of str s pos] by (simp add: is_first_def occurs_at_def)

lemma find_first_of_Some:
  "std_string_find_first_of str s pos = Some i \<Longrightarrow> pos \<le> i \<and> i < length str"
  using scan_forward_first [of "\<lambda>i. str ! i \<in> set s" pos "length str"]
  by (simp add: std_string_find_first_of_def is_first_def)

section \<open>Replacing characters\<close>

text \<open>A match is always inside the string; \<^verbatim>\<open>replace\<close> would throw outside it.\<close>

function replace_chars_loop :: "'c list \<Rightarrow> 'c list \<Rightarrow> bool \<Rightarrow> 'c list \<Rightarrow> nat option \<Rightarrow> bool \<times> 'c list" where
  "replace_chars_loop replace_chars replace_with removed out found =
     (case found of
        None \<Rightarrow> (removed, out)
      | Some i \<Rightarrow>
          if i < length out then
            let out = std_string_replace out i 1 replace_with
            in replace_chars_loop replace_chars replace_with True out
                 (std_string_find_first_of out replace_chars (i + length replace_with))
          else (removed, out))"
  by pat_completeness auto
termination
proof (relation "measure (\<lambda>(rc, rw, removed, out, found).
    case found of None \<Rightarrow> 0 | Some i \<Rightarrow> Suc (length out) - i)", goal_cases)
  case (2 rc rw removed out found i ys)
  then show ?case
    by (auto simp: std_string_replace_def dest!: find_first_of_Some split: option.splits)
qed simp

declare replace_chars_loop.simps [simp del]

definition ReplaceCharsT :: "'c list \<Rightarrow> 'c list \<Rightarrow> 'c list \<Rightarrow> bool \<times> 'c list" where
  "ReplaceCharsT input replace_chars replace_with =
     replace_chars_loop replace_chars replace_with False input
       (std_string_find_first_of input replace_chars 0)"

definition RemoveChars :: "'c list \<Rightarrow> 'c list \<Rightarrow> bool \<times> 'c list" where
  "RemoveChars input remove_chars = ReplaceCharsT input remove_chars []"

abbreviation subst_chars :: "'c list \<Rightarrow> 'c list \<Rightarrow> 'c list \<Rightarrow> 'c list" where
  "subst_chars rc rw xs \<equiv> concat (map (\<lambda>c. if c \<in> set rc then rw else [c]) xs)"

lemma subst_chars_none: "\<forall>c \<in> set xs. c \<notin> set rc \<Longrightarrow> subst_chars rc rw xs = xs"
  by (induction xs) auto

lemma replace_chars_loop_eq:
  assumes "found = std_string_find_first_of out rc pos" "pos \<le> length out"
  shows "replace_chars_loop rc rw removed out found =
    (removed \<or> (\<exists>c \<in> set (drop pos out). c \<in> set rc), take pos out @ subst_chars rc rw (drop pos out))"
  using assms
proof (induction rc rw removed out found arbitrary: pos rule: replace_chars_loop.induct)
  case (1 rc rw removed out found)
  have first: "is_first (\<lambda>i. out ! i \<in> set rc) pos (length out) found"
    using scan_forward_first [of "\<lambda>i. out ! i \<in> set rc" pos "length out"] 1(2)
    by (simp add: std_string_find_first_of_def)
  show ?case
  proof (cases found)
    case None
    with first have "\<forall>c \<in> set (drop pos out). c \<notin> set rc"
      by (simp add: is_first_def all_set_conv_all_nth)
    then show ?thesis using None by (subst replace_chars_loop.simps) (simp add: subst_chars_none)
  next
    case (Some i)
    with first have i: "pos \<le> i" "i < length out" "out ! i \<in> set rc"
      "\<forall>j. pos \<le> j \<longrightarrow> j < i \<longrightarrow> out ! j \<notin> set rc" by (auto simp: is_first_def)
    let ?out = "std_string_replace out i 1 rw" and ?i = "i + length rw"
    have "take ?i ?out = take i out @ rw" "drop ?i ?out = drop (Suc i) out" "?i \<le> length ?out"
      using i(2) by (simp_all add: std_string_replace_def)
    then have IH: "replace_chars_loop rc rw True ?out (std_string_find_first_of ?out rc ?i) =
        (True, take i out @ rw @ subst_chars rc rw (drop (Suc i) out))"
      using 1(1) [OF Some i(2) refl refl] by simp
    have split: "drop pos out = take (i - pos) (drop pos out) @ out ! i # drop (Suc i) out"
      using i(1,2) drop_upto [of pos i out] by (simp add: Cons_nth_drop_Suc)
    have "\<forall>c \<in> set (take (i - pos) (drop pos out)). c \<notin> set rc"
      using i(4) 1(3) by (auto simp: all_set_conv_all_nth)
    then have "subst_chars rc rw (drop pos out) =
        take (i - pos) (drop pos out) @ rw @ subst_chars rc rw (drop (Suc i) out)"
      using i(3) by (subst split) (simp add: subst_chars_none)
    moreover have "take pos out @ take (i - pos) (drop pos out) = take i out"
      using i(1) by (rule take_upto)
    moreover have "\<exists>c \<in> set (drop pos out). c \<in> set rc"
      using i(3) by (subst split) auto
    ultimately show ?thesis using Some i(2) IH
      by (subst replace_chars_loop.simps) (simp add: Let_def flip: append_assoc)
  qed
qed

text \<open>
  \<^verbatim>\<open>ReplaceChars\<close> ends and puts the replacement in the place of every character of the set, each
  once, also when the replacement itself contains characters of the set; it reports whether there
  was one. \<^verbatim>\<open>RemoveChars\<close> keeps the other characters in order.
\<close>

theorem ReplaceChars_correct:
  "ReplaceCharsT input rc rw =
     (\<exists>c \<in> set input. c \<in> set rc, concat (map (\<lambda>c. if c \<in> set rc then rw else [c]) input)) \<and>
   RemoveChars input rc =
     (\<exists>c \<in> set input. c \<in> set rc, filter (\<lambda>c. c \<notin> set rc) input)"
proof -
  have "subst_chars rc [] input = filter (\<lambda>c. c \<notin> set rc) input" by (induction input) auto
  then show ?thesis
    by (simp add: RemoveChars_def ReplaceCharsT_def
        replace_chars_loop_eq [where pos = 0, OF refl])
qed

section \<open>Replacing substrings\<close>

text \<open>
  The three loops, started at a match \<open>offset\<close>. A search string is never empty, by the \<^verbatim>\<open>DCHECK\<close> at
  the top of the function; each loop repeats that test so that it is total. \<open>npos\<close> is greater than
  every length, so the minimum with it is the length.
\<close>

function replace_same :: "'c list \<Rightarrow> 'c list \<Rightarrow> 'c list \<Rightarrow> nat \<Rightarrow> 'c list result" where
  "replace_same find_this replace_with str offset =
     (if find_this = [] then Inl Check_Failed
      else let str = std_string_replace str offset (length find_this) replace_with
           in case std_string_find str find_this (offset + length replace_with) of
                None \<Rightarrow> Inr str
              | Some offset' \<Rightarrow> replace_same find_this replace_with str offset')"
  by pat_completeness auto
termination
proof (relation "measure (\<lambda>(f, r, str, offset). length str - offset)", goal_cases)
  case (2 f r str offset ys i)
  then show ?case
    by (cases f; cases "offset \<le> length str")
      (auto simp: std_string_replace_def min_def dest!: std_string_find_Some split: if_splits)
qed simp

declare replace_same.simps [simp del]

function replace_shorter ::
  "'c \<Rightarrow> 'c list \<Rightarrow> 'c list \<Rightarrow> nat \<Rightarrow> 'c list \<Rightarrow> nat \<Rightarrow> nat \<Rightarrow> 'c list result" where
  "replace_shorter nul find_this replace_with str_length str write_offset offset =
     (if find_this = [] then Inl Check_Failed
      else
        let (str, write_offset) =
              (if replace_with \<noteq> []
               then (std_string_replace str write_offset (length replace_with) replace_with,
                     write_offset + length replace_with)
               else (str, write_offset));
            read_offset = offset + length find_this;
            offset' = (case std_string_find str find_this read_offset of
                         None \<Rightarrow> str_length | Some i \<Rightarrow> min i str_length)
        in if offset' < read_offset then Inl Out_Of_Bounds
           else let len = offset' - read_offset
           in bind_result (if len \<noteq> 0 then move_within str write_offset read_offset len else Inr str)
                (\<lambda>str. let write_offset = write_offset + len
                   in if offset' < str_length
                      then replace_shorter nul find_this replace_with str_length str write_offset offset'
                      else Inr (std_string_resize nul str write_offset)))"
  by pat_completeness auto
termination
  by (relation "measure (\<lambda>(nul, f, r, n, str, w, offset). n - offset)")
    (auto simp: neq_Nil_conv)

declare replace_shorter.simps [simp del]

text \<open>
  Lengthening: the first loop counts the matches to find the final length and the last match, the
  second walks back from it. The second loop has fuel, \<open>None\<close> standing for a walk that has not
  ended; all its sizes wrap like \<^verbatim>\<open>size_t\<close>.
\<close>

function count_matches :: "'c list \<Rightarrow> nat \<Rightarrow> 'c list \<Rightarrow> nat \<Rightarrow> nat \<Rightarrow> (nat \<times> nat) result" where
  "count_matches find_this expansion str final_length offset =
     (if find_this = [] then Inl Check_Failed
      else let final_length = szadd final_length expansion;
               current_match = offset
           in case std_string_find str find_this (offset + length find_this) of
                None \<Rightarrow> Inr (final_length, current_match)
              | Some offset' \<Rightarrow> count_matches find_this expansion str final_length offset')"
  by pat_completeness auto
termination
  by (relation "measure (\<lambda>(f, expansion, str, final_length, offset). length str - offset)")
    (auto simp: neq_Nil_conv dest!: std_string_find_Some)

declare count_matches.simps [simp del]

fun replace_longer ::
  "nat \<Rightarrow> 'c list \<Rightarrow> 'c list \<Rightarrow> nat \<Rightarrow> 'c list \<Rightarrow> nat \<Rightarrow> nat \<Rightarrow> nat \<Rightarrow> 'c list result option" where
  "replace_longer 0 find_this replace_with first_match str current_match prev_match write_offset = None"
| "replace_longer (Suc fuel) find_this replace_with first_match str current_match prev_match write_offset =
     (let read_offset = szadd current_match (length find_this);
          len = szsub prev_match read_offset;
          write_offset = (if len \<noteq> 0 then szsub write_offset len else write_offset)
      in case (if len \<noteq> 0 then move_within str write_offset read_offset len else Inr str) of
           Inl e \<Rightarrow> Some (Inl e)
         | Inr str \<Rightarrow>
             let write_offset = szsub write_offset (length replace_with)
             in if write_offset > length str then Some (Inl Out_Of_Bounds)
                else let str = std_string_replace str write_offset (length replace_with) replace_with
                     in if current_match = first_match then Some (Inr str)
                        else replace_longer fuel find_this replace_with first_match str
                               (pos_of (std_string_rfind str find_this (szsub current_match 1)))
                               current_match write_offset)"

definition DoReplaceSubstringsAfterOffset ::
  "'c \<Rightarrow> 'c list \<Rightarrow> nat \<Rightarrow> 'c list \<Rightarrow> 'c list \<Rightarrow> bool \<Rightarrow> 'c list result option" where
  "DoReplaceSubstringsAfterOffset nul str offset find_this replace_with all =
     (if find_this = [] then Some (Inl Check_Failed)
      else case std_string_find str find_this offset of
        None \<Rightarrow> Some (Inr str)
      | Some offset \<Rightarrow>
          let find_length = length find_this;
              replace_length = length replace_with;
              str_length = length str
          in if \<not> all then Some (Inr (std_string_replace str offset find_length replace_with))
             else if find_length = replace_length
             then Some (replace_same find_this replace_with str offset)
             else if find_length > replace_length
             then Some (replace_shorter nul find_this replace_with str_length str offset offset)
             else (case count_matches find_this (replace_length - find_length) str str_length offset of
                     Inl e \<Rightarrow> Some (Inl e)
                   | Inr (final_length, current_match) \<Rightarrow>
                       replace_longer (Suc str_length) find_this replace_with offset
                         (std_string_resize nul str final_length) current_match str_length final_length))"

text \<open>
  What is promised: every match is replaced, from left to right, matches not overlapping and
  replaced text not searched again; or the first match only.
\<close>

function replace_all :: "'c list \<Rightarrow> 'c list \<Rightarrow> 'c list \<Rightarrow> 'c list" where
  "replace_all f r [] = []"
| "replace_all f r (x # xs) =
     (if f \<noteq> [] \<and> prefix f (x # xs) then r @ replace_all f r (drop (length f) (x # xs))
      else x # replace_all f r xs)"
  by pat_completeness auto
termination by (relation "measure (\<lambda>(f, r, xs). length xs)") (auto simp: neq_Nil_conv)

fun replace_first :: "'c list \<Rightarrow> 'c list \<Rightarrow> 'c list \<Rightarrow> 'c list" where
  "replace_first f r [] = []"
| "replace_first f r (x # xs) =
     (if f \<noteq> [] \<and> prefix f (x # xs) then r @ drop (length f) (x # xs) else x # replace_first f r xs)"

lemma occurs_prefix: "i \<le> length xs \<Longrightarrow> occurs_at xs f i \<longleftrightarrow> prefix f (drop i xs)"
  by (auto simp: occurs_at_def prefix_take)

text \<open>Both replacements, seen from the first match at or after a position.\<close>

lemma replace_at_first:
  assumes "f \<noteq> []" "pos \<le> length xs" "is_first (occurs_at xs f) pos (Suc (length xs)) R"
  shows "replace_all f r (drop pos xs) = (case R of None \<Rightarrow> drop pos xs
      | Some i \<Rightarrow> take (i - pos) (drop pos xs) @ r @ replace_all f r (drop (i + length f) xs))"
    (is ?all)
    and "replace_first f r (drop pos xs) = (case R of None \<Rightarrow> drop pos xs
      | Some i \<Rightarrow> take (i - pos) (drop pos xs) @ r @ drop (i + length f) xs)" (is ?first)
proof -
  have "?all \<and> ?first" using assms(2,3)
  proof (induction "length xs - pos" arbitrary: pos)
    case 0
    then have "\<not> occurs_at xs f pos" using assms(1) by (auto simp: occurs_at_def)
    with 0 show ?case
      by (auto simp: is_first_def less_Suc_eq_le dest: le_antisym split: option.splits)
  next
    case (Suc d)
    then have pos: "pos < length xs" by simp
    then have cons: "drop pos xs = xs ! pos # drop (Suc pos) xs" by (rule Cons_nth_drop_Suc [symmetric])
    show ?case
    proof (cases "occurs_at xs f pos")
      case True
      then have R: "R = Some pos" using Suc.prems(2) pos
        by (auto simp: is_first_def le_less split: option.splits)
      have "prefix f (xs ! pos # drop (Suc pos) xs)" using True pos occurs_prefix [of pos xs f] cons by simp
      moreover have "drop (length f) (xs ! pos # drop (Suc pos) xs) = drop (pos + length f) xs"
        unfolding cons [symmetric] by (simp add: add.commute)
      ultimately show ?thesis using assms(1) R by (simp add: cons del: drop_Suc_Cons drop_Cons')
    next
      case False
      have "is_first (occurs_at xs f) (Suc pos) (Suc (length xs)) R"
        using Suc.prems(2) False
        by (auto simp: is_first_def split: option.splits) (metis Suc_leI le_neq_implies_less)
      moreover have "\<not> prefix f (xs ! pos # drop (Suc pos) xs)"
        using False pos occurs_prefix [of pos xs f] cons by simp
      moreover have "i - pos = Suc (i - Suc pos)" if "R = Some i" for i
        using Suc.prems(2) False that by (auto simp: is_first_def) (metis Suc_diff_Suc le_neq_implies_less)
      ultimately show ?thesis using Suc.hyps(1) [of "Suc pos"] Suc.hyps(2) pos
        by (auto simp: cons split: option.splits)
    qed
  qed
  then show ?all ?first by simp_all
qed

lemma replace_same_eq:
  assumes "f \<noteq> []" "length r = length f" "occurs_at str f offset"
  shows "replace_same f r str offset = Inr (take offset str @ replace_all f r (drop offset str))"
  using assms
proof (induction f r str offset rule: replace_same.induct)
  case (1 f r str offset)
  let ?str = "std_string_replace str offset (length f) r" and ?o = "offset + length r"
  have off: "offset + length f \<le> length str" using 1(4) by (simp add: occurs_at_def)
  have parts: "take ?o ?str = take offset str @ r" "drop ?o ?str = drop (offset + length f) str"
    "?o \<le> length ?str"
    using off 1(3) by (simp_all add: std_string_replace_def)
  have here: "replace_all f r (drop offset str) = r @ replace_all f r (drop ?o ?str)"
  proof -
    have "is_first (occurs_at str f) offset (Suc (length str)) (Some offset)"
      using 1(4) off by (simp add: is_first_def)
    from replace_at_first(1) [OF 1(2) _ this] off show ?thesis by (simp add: parts)
  qed
  show ?case
  proof (cases "std_string_find ?str f ?o")
    case None
    with std_string_find_first [of ?str f ?o]
    have "replace_all f r (drop ?o ?str) = drop ?o ?str"
      using replace_at_first(1) [OF 1(2) parts(3), of None r] by simp
    moreover have "?str = take offset str @ r @ drop ?o ?str"
      using append_take_drop_id [of ?o ?str] parts(1) by (metis append_assoc)
    moreover have "replace_same f r str offset = Inr ?str"
      using None 1(2) by (subst replace_same.simps) (simp add: Let_def)
    ultimately show ?thesis using here by (simp only:)
  next
    case (Some i)
    have first: "is_first (occurs_at ?str f) ?o (Suc (length ?str)) (Some i)"
      using std_string_find_first [of ?str f ?o] Some by simp
    then have i: "?o \<le> i" "occurs_at ?str f i" by (auto simp: is_first_def)
    have "replace_all f r (drop ?o ?str) = take (i - ?o) (drop ?o ?str) @ replace_all f r (drop i ?str)"
    proof -
      have "is_first (occurs_at ?str f) i (Suc (length ?str)) (Some i)"
        using first by (simp add: is_first_def)
      from replace_at_first(1) [OF 1(2) _ this] replace_at_first(1) [OF 1(2) parts(3) first] i(2)
      show ?thesis by (simp add: occurs_at_def)
    qed
    moreover have "take i ?str = take ?o ?str @ take (i - ?o) (drop ?o ?str)"
      using i(1) by (rule take_upto [symmetric])
    moreover have "replace_same f r ?str i = Inr (take i ?str @ replace_all f r (drop i ?str))"
      using 1(1) [OF 1(2) refl Some] 1(2,3) i(2) by simp
    moreover have "replace_same f r str offset = replace_same f r ?str i"
      using Some 1(2) by (subst replace_same.simps) (simp add: Let_def)
    ultimately show ?thesis using here parts(1) by (simp only: append_assoc)
  qed
qed

lemma replace_shorter_eq:
  assumes "f \<noteq> []" "length r < length f" "occurs_at str f offset" "w \<le> offset" "n = length str"
  shows "replace_shorter nul f r n str w offset = Inr (take w str @ replace_all f r (drop offset str))"
  using assms
proof (induction "n - offset" arbitrary: str w offset rule: less_induct)
  case (less offset str w)
  note 1 = less(1-6)
  define str1 where "str1 = std_string_replace str w (length r) r"
  let ?read = "offset + length f" and ?w = "w + length r"
  have off: "?read \<le> n" using 1(4,6) by (simp add: occurs_at_def)
  have first_step: "(if r \<noteq> [] then (std_string_replace str w (length r) r, ?w) else (str, w)) = (str1, ?w)"
    by (simp add: str1_def std_string_replace_def)
  have len1: "length str1 = n" using off 1(3,5,6) by (simp add: str1_def std_string_replace_def)
  have parts: "take ?w str1 = take w str @ r" "drop ?read str1 = drop ?read str"
    using off 1(3,5,6) by (simp_all add: str1_def std_string_replace_def)
  have here: "replace_all f r (drop offset str) = r @ replace_all f r (drop ?read str1)"
  proof -
    have "is_first (occurs_at str f) offset (Suc (length str)) (Some offset)"
      using 1(4,6) off by (simp add: is_first_def)
    from replace_at_first(1) [OF 1(2) _ this] off 1(6) show ?thesis by (simp add: parts)
  qed
  define off' where "off' = (case std_string_find str1 f ?read of None \<Rightarrow> n | Some i \<Rightarrow> min i n)"
  define len where "len = off' - ?read"
  define str2 where "str2 = take ?w str1 @ take len (drop ?read str1) @ drop (?w + len) str1"
  have off': "?read \<le> off'" "off' \<le> n"
    using off len1 by (auto simp: off'_def split: option.splits dest: std_string_find_Some)
  have w: "?w + len \<le> off'" using 1(3,5) off' by (simp add: len_def)
  have move: "(if len \<noteq> 0 then move_within str1 ?w ?read len else Inr str1) = Inr str2"
    using w off' len1 by (auto simp: move_within_def str2_def len_def)
  have str2: "length str2 = n" "drop off' str2 = drop off' str1"
    "take (?w + len) str2 = take w str @ r @ take len (drop ?read str1)"
    using w off' len1 parts(1) 1(5,6) off by (simp_all add: str2_def len_def)
  have unfold: "replace_shorter nul f r n str w offset =
      (if off' < n then replace_shorter nul f r n str2 (?w + len) off'
       else Inr (std_string_resize nul str2 (?w + len)))"
    using 1(2) off' first_step move
    by (subst replace_shorter.simps) (simp add: Let_def off'_def [symmetric] len_def [symmetric])
  show ?case
  proof (cases "off' < n")
    case False
    then have none: "std_string_find str1 f ?read = None"
      using std_string_find_Some [of str1 f ?read] len1 1(2)
      by (auto simp: off'_def neq_Nil_conv split: option.splits)
    then have "replace_all f r (drop ?read str1) = drop ?read str1"
      using replace_at_first(1) [OF 1(2), of ?read str1 None r] std_string_find_first [of str1 f ?read]
        off len1 by simp
    moreover have "take len (drop ?read str1) = drop ?read str1"
      using False off' len1 by (simp add: len_def)
    ultimately show ?thesis using False here str2 w off'
      by (simp add: unfold std_string_resize_def)
  next
    case True
    then obtain i where i: "std_string_find str1 f ?read = Some i" "off' = i"
      using std_string_find_Some [of str1 f ?read] len1
      by (auto simp: off'_def split: option.splits)
    have first: "is_first (occurs_at str1 f) ?read (Suc (length str1)) (Some off')"
      using std_string_find_first [of str1 f ?read] i by simp
    then have occ: "occurs_at str1 f off'" by (simp add: is_first_def)
    then have occ2: "occurs_at str2 f off'" using str2 len1 by (simp add: occurs_at_def)
    have "is_first (occurs_at str1 f) off' (Suc (length str1)) (Some off')"
      using first by (simp add: is_first_def)
    from replace_at_first(1) [OF 1(2) _ this] replace_at_first(1) [OF 1(2) _ first] off len1 off'
    have rest: "replace_all f r (drop ?read str1) =
        take len (drop ?read str1) @ replace_all f r (drop off' str1)"
      by (simp add: len_def)
    have "replace_shorter nul f r n str2 (?w + len) off' =
        Inr (take (?w + len) str2 @ replace_all f r (drop off' str2))"
      using 1(2,3) occ2 w str2(1) True off'(1) by (intro 1(1)) (auto simp: neq_Nil_conv)
    then show ?thesis using True here rest str2 by (simp add: unfold)
  qed
qed

subsection \<open>Lengthening with a search string of one character\<close>

lemma occurs_at_single: "occurs_at xs [x] = (\<lambda>i. i < length xs \<and> xs ! i = x)"
  by (rule ext) (auto simp: occurs_at_def take_Suc hd_drop_conv_nth Suc_le_eq)

lemma subst_single_none: "x \<notin> set xs \<Longrightarrow> concat (map (\<lambda>c. if c = x then r else [c]) xs) = xs"
  by (induction xs) auto

lemma replace_all_single: "replace_all [x] r xs = subst_chars [x] r xs"
  by (induction xs) auto

abbreviation matches :: "'c \<Rightarrow> 'c list \<Rightarrow> nat" where
  "matches x xs \<equiv> length (filter (\<lambda>c. c = x) xs)"

text \<open>A segment \<open>[cm, prev)\<close> of the string whose only match is at its start.\<close>

lemma segment:
  assumes "cm < prev" "prev \<le> length s" "s ! cm = x" "\<forall>i. cm < i \<longrightarrow> i < prev \<longrightarrow> s ! i \<noteq> x"
  defines "mid \<equiv> take (prev - Suc cm) (drop (Suc cm) s)"
  shows "x \<notin> set mid" "drop cm s = x # mid @ drop prev s"
    "first \<le> cm \<Longrightarrow> drop first (take prev s) = drop first (take cm s) @ x # mid"
proof -
  have "\<forall>i < length mid. mid ! i \<noteq> x" using assms by (auto simp: mid_def)
  then show "x \<notin> set mid" by (auto simp: in_set_conv_nth)
  have "drop cm s = s ! cm # drop (Suc cm) s"
    using assms(1,2) by (intro Cons_nth_drop_Suc [symmetric]) simp
  then show *: "drop cm s = x # mid @ drop prev s"
    using assms drop_upto [of "Suc cm" prev s] by (simp add: mid_def)
  have "take prev s = take cm s @ take (prev - cm) (drop cm s)"
    using assms(1) by (simp add: take_upto)
  also have "take (prev - cm) (drop cm s) = x # mid"
    unfolding * using assms(1,2) Suc_diff_Suc [OF assms(1)] by (simp add: mid_def flip: Suc_diff_Suc)
  finally show "first \<le> cm \<Longrightarrow> drop first (take prev s) = drop first (take cm s) @ x # mid"
    using assms(1,2) by simp
qed

lemma matches_none: "x \<notin> set xs \<Longrightarrow> matches x xs = 0"
  by (induction xs) auto

lemma count_matches_single:
  assumes "offset < length s" "s ! offset = x" "fin + matches x (drop offset s) * e < 2 ^ 64"
  shows "\<exists>m. count_matches [x] e s fin offset = Inr (fin + matches x (drop offset s) * e, m) \<and>
    offset \<le> m \<and> m < length s \<and> s ! m = x \<and> (\<forall>i. m < i \<longrightarrow> i < length s \<longrightarrow> s ! i \<noteq> x)"
  using assms
proof (induction "length s - offset" arbitrary: offset fin rule: less_induct)
  case less
  let ?R = "std_string_find s [x] (offset + 1)"
  have first: "is_first (\<lambda>i. i < length s \<and> s ! i = x) (offset + 1) (Suc (length s)) ?R"
    using std_string_find_first [of s "[x]" "offset + 1"] by (simp add: occurs_at_single)
  show ?case
  proof (cases ?R)
    case None
    with first have none: "\<forall>i. offset < i \<longrightarrow> i < length s \<longrightarrow> s ! i \<noteq> x" by (auto simp: is_first_def)
    with less.prems segment(1,2) [of offset "length s" s x] have "matches x (drop offset s) = 1"
      by (simp add: matches_none)
    with None none less.prems show ?thesis
      by (subst count_matches.simps) (auto simp: Let_def szadd_id)
  next
    case (Some i)
    with first have i: "offset < i" "i < length s" "s ! i = x"
      "\<forall>j. offset < j \<longrightarrow> j < i \<longrightarrow> s ! j \<noteq> x" by (auto simp: is_first_def)
    with less.prems segment(1,2) [of offset i s x]
    have m: "matches x (drop offset s) = Suc (matches x (drop i s))" by (simp add: matches_none)
    have "szadd fin e = fin + e" using less.prems(3) m by (intro szadd_id) simp
    then have "count_matches [x] e s fin offset = count_matches [x] e s (fin + e) i"
      using Some by (subst count_matches.simps) (simp add: Let_def)
    moreover have "\<exists>m'. count_matches [x] e s (fin + e) i = Inr (fin + e + matches x (drop i s) * e, m') \<and>
        i \<le> m' \<and> m' < length s \<and> s ! m' = x \<and> (\<forall>i. m' < i \<longrightarrow> i < length s \<longrightarrow> s ! i \<noteq> x)"
      using i less.prems m by (intro less.hyps) auto
    ultimately show ?thesis using i(1) m by (auto simp: add.assoc)
  qed
qed

lemma replace_longer_single:
  assumes "first < length s" "s ! first = x" "length r = Suc e"
    and "first \<le> cm" "cm < prev" "prev \<le> length s" "s ! cm = x"
    and "\<forall>i. cm < i \<longrightarrow> i < prev \<longrightarrow> s ! i \<noteq> x"
    and "take prev str = take prev s" "w = prev + matches x (drop first (take prev s)) * e"
    and "w \<le> length str" "length str < 2 ^ 64"
    and "drop w str = subst_chars [x] r (drop prev s)" "cm < fuel"
  shows "replace_longer fuel [x] r first str cm prev w =
    Some (Inr (take first s @ subst_chars [x] r (drop first s)))"
  using assms(4-)
proof (induction cm arbitrary: str prev w fuel rule: less_induct)
  case (less cm)
  define len where "len = prev - Suc cm"
  define k where "k = matches x (drop first (take cm s))"
  define mid where "mid = take len (drop (Suc cm) s)"
  have mid: "x \<notin> set mid" "drop cm s = x # mid @ drop prev s"
    "drop first (take prev s) = drop first (take cm s) @ x # mid"
    using segment(1,2) [of cm prev s x] segment(3) [of cm prev s x first] less.prems(1-5)
    by (simp_all add: mid_def len_def)
  then have w: "w = prev + Suc k * e"
    using less.prems(7) by (simp add: k_def matches_none)
  define w1 where "w1 = Suc cm + Suc k * e"
  define w2 where "w2 = cm + k * e"
  have sizes: "szadd cm 1 = Suc cm" "szsub prev (Suc cm) = len" "szsub w len = w1"
    "szsub w1 (length r) = w2" "w1 + len = w" "w2 + length r = w1" "Suc cm + len = prev"
    using less.prems(2,3,8,9) w assms(3)
    by (simp_all add: szadd_id szsub_id len_def w1_def w2_def)
  define str1 where "str1 = take w1 str @ take len (drop (Suc cm) str) @ drop w str"
  have move: "(if len \<noteq> 0 then move_within str w1 (Suc cm) len else Inr str) = Inr str1"
    using sizes less.prems(8) w by (auto simp: move_within_def str1_def)
  have fit: "w1 \<le> length str" "Suc cm + len \<le> length str" "w \<le> length str"
    using sizes(5,7) less.prems(8) w by auto
  have mid_str: "take len (drop (Suc cm) str) = mid"
    using arg_cong [OF less.prems(6), of "drop (Suc cm)"] by (simp add: drop_take len_def mid_def)
  have str1: "length str1 = length str" "take w1 str1 = take w1 str" "drop w1 str1 = mid @ drop w str"
    unfolding str1_def mid_str [symmetric] using fit sizes(5) by simp_all
  define str2 where "str2 = std_string_replace str1 w2 (length r) r"
  have w12: "w2 \<le> w1" "w1 \<le> length str" "cm \<le> w2" "cm \<le> w1"
    using sizes less.prems(8) by (auto simp: w2_def)
  have drop2: "drop w2 str2 = subst_chars [x] r (drop cm s)"
  proof -
    have "drop w2 str2 = r @ drop w1 str1"
      using w12 str1(1) sizes(6) by (simp add: str2_def std_string_replace_def)
    also have "\<dots> = subst_chars [x] r (drop cm s)"
      unfolding str1(3) mid(2) less.prems(10)
      using mid(1) by (simp add: subst_single_none)
    finally show ?thesis .
  qed
  have take2: "take cm str2 = take cm s"
  proof -
    have "take cm str2 = take cm (take w1 str1)"
      using w12 str1(1) by (simp add: str2_def std_string_replace_def min_def)
    also have "\<dots> = take cm (take prev s)" using w12 less.prems(2,6) str1(2)
      by (metis less_imp_le min.absorb1 take_take)
    finally show ?thesis using less.prems(2) by simp
  qed
  have len2: "length str2 = length str"
    using w12 str1(1) sizes(6) by (simp add: str2_def std_string_replace_def)
  obtain g where g: "fuel = Suc g" "cm \<le> g" using less.prems(11) by (cases fuel) auto
  have step: "replace_longer fuel [x] r first str cm prev w =
      (if cm = first then Some (Inr str2)
       else replace_longer g [x] r first str2 (pos_of (std_string_rfind str2 [x] (szsub cm 1))) cm w2)"
  proof -
    have w1: "(if len \<noteq> 0 then szsub w len else w) = w1" using sizes(3,5) by auto
    have w2: "\<not> w2 > length str1" using w12 str1(1) by simp
    have read: "szadd cm (length [x]) = Suc cm" using sizes(1) by simp
    show ?thesis
      unfolding g(1) replace_longer.simps Let_def read sizes(2) w1 move sum.case sizes(4)
        str2_def [symmetric] using w2 by simp
  qed
  show ?case
  proof (cases "cm = first")
    case True
    then have "w2 = first" using assms(1) by (simp add: w2_def k_def)
    then have "str2 = take first s @ subst_chars [x] r (drop first s)"
      using drop2 take2 True append_take_drop_id [of first str2] by metis
    then show ?thesis using step True by simp
  next
    case False
    have cm1: "szsub cm 1 = cm - 1" using False less.prems(1,2,3,9) less.prems(8) w
      by (intro szsub_id) auto
    have nth2: "i < cm \<Longrightarrow> str2 ! i = s ! i" for i
      using take2 by (metis nth_take)
    have cm_len: "cm \<le> length str2" "cm < length s" using len2 w12 less.prems(2,3) by auto
    have last: "is_last (\<lambda>i. i < length str2 \<and> str2 ! i = x) cm (std_string_rfind str2 [x] (cm - 1))"
    proof -
      have "min (cm - 1) (length str2) = cm - 1" "Suc (cm - 1) = cm"
        using cm_len False less.prems(1) by auto
      then show ?thesis using scan_backward_last [of "occurs_at str2 [x]" "cm - 1"]
        by (simp add: std_string_rfind_def occurs_at_single)
    qed
    obtain i where i: "std_string_rfind str2 [x] (cm - 1) = Some i" "i < cm" "s ! i = x" "first \<le> i"
      "\<forall>j. i < j \<longrightarrow> j < cm \<longrightarrow> s ! j \<noteq> x"
    proof (cases "std_string_rfind str2 [x] (cm - 1)")
      case None
      then show ?thesis using last False less.prems(1) assms(2) nth2 cm_len
        by (auto simp: is_last_def)
    next
      case (Some i)
      then have "i < cm" "str2 ! i = x" "\<forall>j. i < j \<longrightarrow> j < cm \<longrightarrow> str2 ! j \<noteq> x"
        using last cm_len by (auto simp: is_last_def)
      moreover have "first \<le> i"
        using calculation False less.prems(1) assms(2) nth2
        by (metis le_neq_implies_less not_le_imp_less)
      ultimately show ?thesis using that Some nth2 by simp
    qed
    have "replace_longer g [x] r first str2 i cm w2 =
        Some (Inr (take first s @ subst_chars [x] r (drop first s)))"
      using i take2 w12 len2 less.prems(9) drop2 cm_len g(2)
      by (intro less.IH) (simp_all add: w2_def k_def)
    then show ?thesis using step False cm1 i(1) by simp
  qed
qed

lemma replace_from_match:
  assumes "f \<noteq> []" "std_string_find str f offset = Some i" "offset \<le> length str"
  shows "take offset str @ replace_all f r (drop offset str) = take i str @ replace_all f r (drop i str)"
    "take offset str @ replace_first f r (drop offset str) = std_string_replace str i (length f) r"
    "occurs_at str f i" "offset \<le> i"
proof -
  have first: "is_first (occurs_at str f) offset (Suc (length str)) (Some i)"
    using std_string_find_first [of str f offset] assms(2) by simp
  then show i: "occurs_at str f i" "offset \<le> i" by (auto simp: is_first_def)
  have "is_first (occurs_at str f) i (Suc (length str)) (Some i)"
    using first by (simp add: is_first_def)
  with replace_at_first(1) [OF assms(1) _ this] replace_at_first(1) [OF assms(1,3) first] i(1)
  have "replace_all f r (drop offset str) = take (i - offset) (drop offset str) @ replace_all f r (drop i str)"
    by (simp add: occurs_at_def)
  then show "take offset str @ replace_all f r (drop offset str) = take i str @ replace_all f r (drop i str)"
    using take_upto [OF i(2), of str] by (metis append_assoc)
  show "take offset str @ replace_first f r (drop offset str) = std_string_replace str i (length f) r"
    using replace_at_first(2) [OF assms(1,3) first, of r] take_upto [OF i(2), of str]
    by (simp add: std_string_replace_def)
qed

lemma replace_no_match:
  assumes "f \<noteq> []" "std_string_find str f offset = None"
  shows "take offset str @ replace_all f r (drop offset str) = str"
    "take offset str @ replace_first f r (drop offset str) = str"
proof -
  have "replace_all f r (drop offset str) = drop offset str \<and>
      replace_first f r (drop offset str) = drop offset str"
  proof (cases "offset \<le> length str")
    case True
    have "is_first (occurs_at str f) offset (Suc (length str)) None"
      using std_string_find_first [of str f offset] assms(2) by simp
    from replace_at_first [OF assms(1) True this] show ?thesis by simp
  qed simp
  then show "take offset str @ replace_all f r (drop offset str) = str"
    "take offset str @ replace_first f r (drop offset str) = str" by simp_all
qed

lemma DoReplace_longer_single:
  assumes "std_string_find str [x] offset = Some i" "offset \<le> length str" "1 < length r"
    and "length str + length str * length r < 2 ^ 64"
  shows "DoReplaceSubstringsAfterOffset nul str offset [x] r True =
    Some (Inr (take i str @ subst_chars [x] r (drop i str)))"
proof -
  let ?n = "length str" and ?e = "length r - 1"
  define fin where "fin = ?n + matches x (drop i str) * ?e"
  have i: "i < ?n" "str ! i = x"
    using replace_from_match(3) [OF _ assms(1,2)] by (simp_all add: occurs_at_single)
  have "matches x (drop i str) \<le> ?n" using length_filter_le [of "\<lambda>c. c = x" "drop i str"] by simp
  then have "fin \<le> ?n + ?n * length r" unfolding fin_def by (intro add_mono mult_le_mono) simp_all
  with assms(4) have fin: "fin < 2 ^ 64" by simp
  from count_matches_single [OF i fin [unfolded fin_def]] obtain m where m:
    "count_matches [x] ?e str ?n i = Inr (fin, m)" "i \<le> m" "m < ?n" "str ! m = x"
    "\<forall>j. m < j \<longrightarrow> j < ?n \<longrightarrow> str ! j \<noteq> x" unfolding fin_def by auto
  have "?n \<le> fin" by (simp add: fin_def)
  then have "replace_longer (Suc ?n) [x] r i (std_string_resize nul str fin) m ?n fin =
      Some (Inr (take i str @ subst_chars [x] r (drop i str)))"
    using i m(2-) fin assms(3)
    by (intro replace_longer_single [where e = ?e]) (simp_all add: std_string_resize_def fin_def)
  then show ?thesis using assms(1,3) m(1)
    by (auto simp: DoReplaceSubstringsAfterOffset_def Let_def simp del: replace_longer.simps)
qed

text \<open>
  C19. Replacing substrings after an offset gives the left-to-right replacement: of the first match
  only, or of all of them when the replacement is not longer than the search string, or is longer
  and the search string is a single character. Nothing is read or written outside the string and
  the walk from the back ends within its fuel.
\<close>

theorem ReplaceSubstrings_correct:
  assumes "f \<noteq> []" "length str + length str * length r < 2 ^ 64"
  shows "DoReplaceSubstringsAfterOffset nul str offset f r False =
      Some (Inr (take offset str @ replace_first f r (drop offset str))) \<and>
    (length r \<le> length f \<or> length f = 1 \<longrightarrow>
       DoReplaceSubstringsAfterOffset nul str offset f r True =
         Some (Inr (take offset str @ replace_all f r (drop offset str))))"
proof (cases "std_string_find str f offset")
  case None
  then show ?thesis using assms(1) replace_no_match [OF assms(1) None, of r]
    by (simp add: DoReplaceSubstringsAfterOffset_def)
next
  case (Some i)
  then have "offset \<le> length str" using std_string_find_Some [OF Some] by simp
  note match = replace_from_match [OF assms(1) Some this]
  have "DoReplaceSubstringsAfterOffset nul str offset f r True =
      Some (Inr (take i str @ replace_all f r (drop i str)))"
    if short: "length r \<le> length f \<or> length f = 1"
  proof (cases "length r \<le> length f")
    case True
    then show ?thesis using assms(1) Some match(3)
      by (cases "length r = length f")
        (simp_all add: DoReplaceSubstringsAfterOffset_def Let_def replace_same_eq replace_shorter_eq)
  next
    case False
    with short obtain x where "f = [x]" by (cases f) auto
    with False show ?thesis
      using DoReplace_longer_single [of str x offset i r nul] Some assms(2)
        \<open>offset \<le> length str\<close> by (simp add: replace_all_single)
  qed
  then show ?thesis using assms(1) Some match(1,2) [of r]
    by (simp add: DoReplaceSubstringsAfterOffset_def)
qed

theorem ReplaceSubstrings_correct_witness:
  "DoReplaceSubstringsAfterOffset (CHR 0x00) ''a%b%'' 0 ''%'' ''%25'' True = Some (Inr ''a%25b%25'')"
proof -
  have "''%'' \<noteq> []" "length ''a%b%'' + length ''a%b%'' * length ''%25'' < 2 ^ 64" by simp_all
  from ReplaceSubstrings_correct [OF this, of "CHR 0x00" 0] show ?thesis by simp
qed

text \<open>
  C20. With a longer search string the walk from the back can go wrong: replacing \<^verbatim>\<open>aab\<close> by
  \<^verbatim>\<open>bxyz\<close> in \<^verbatim>\<open>aabaaab\<close>, the text already written behind the last match makes \<^verbatim>\<open>rfind\<close> see a match
  that overlaps it, the distance to it wraps around and the move leaves the string, where the
  promised result is \<^verbatim>\<open>bxyzabxyz\<close>.
\<close>

theorem ReplaceSubstrings_overlap:
  "DoReplaceSubstringsAfterOffset (CHR 0x00) ''aabaaab'' 0 ''aab'' ''bxyz'' True =
     Some (Inl Out_Of_Bounds) \<and>
   replace_all ''aab'' ''bxyz'' ''aabaaab'' = ''bxyzabxyz''"
proof -
  let ?s = "''aabaaab''" and ?f = "''aab''" and ?r = "''bxyz''"
  note eval = scan_forward.simps scan_backward.simps occurs_at_def numeral_eq_Suc
  have find: "std_string_find ?s ?f 0 = Some 0" "std_string_find ?s ?f (Suc (Suc (Suc 0))) = Some 4"
    "std_string_find ?s ?f 7 = None"
    by (simp_all add: std_string_find_def eval)
  have count: "count_matches ?f 1 ?s 7 0 = Inr (9, 4)"
    using find by (simp add: count_matches.simps szadd_def)
  have rfind: "std_string_rfind ''aabaabxyz'' ?f 3 = Some 3"
    by (simp add: std_string_rfind_def eval)
  have "replace_longer (Suc (Suc n)) ?f ?r 0 (?s @ [CHR 0x00, CHR 0x00]) 4 7 9 =
      Some (Inl Out_Of_Bounds)" for n
    using rfind by (simp add: szadd_def szsub_def std_string_replace_def move_within_def Let_def)
  moreover have "std_string_resize (CHR 0x00) ?s 9 = ?s @ [CHR 0x00, CHR 0x00]"
    by (simp add: std_string_resize_def numeral_eq_Suc)
  moreover have "length ?s = 7" "length ?r - length ?f = 1" "length ?f \<noteq> length ?r"
    "\<not> length ?f > length ?r" by simp_all
  moreover have "replace_all ?f ?r ?s = ''bxyzabxyz''" by simp
  ultimately show ?thesis using find(1) count
    unfolding DoReplaceSubstringsAfterOffset_def Let_def
    by (simp only: find option.case if_True if_False simp_thms sum.case prod.case list.distinct)
      (simp add: numeral_eq_Suc)
qed

end
