(* ===== verification/String_Text.thy ===== *)
theory String_Text
  imports String_Util
begin

text \<open>
  base/strings/string_util.cc, second part: routines that work on buffers or machine words.
  Collapsing of white space writes into a preallocated string through an index that it also steps
  back; the ASCII test reads eight bytes at a time between an unaligned head and tail;
  \<^verbatim>\<open>strlcpy\<close> copies into a caller's buffer; \<^verbatim>\<open>IsWprintfFormatPortable\<close> scans a format string. Every
  index is checked in the model, so that the theorems also show that no access is out of range.
\<close>

unbundle bit_operations_syntax

section \<open>Collapsing white space\<close>

definition IsUnicodeWhitespace :: "int \<Rightarrow> bool" where
  "IsUnicodeWhitespace c = list_ex (\<lambda>cur. cur = c) kWhitespaceWide"

definition put_at :: "'c list \<Rightarrow> int \<Rightarrow> 'c \<Rightarrow> 'c list result" where
  "put_at buf i c = (if 0 \<le> i \<and> i < int (length buf) then Inr (buf[nat i := c]) else Inl Out_Of_Bounds)"

text \<open>The loop's variables: \<^verbatim>\<open>result\<close>, \<^verbatim>\<open>chars_written\<close>, \<^verbatim>\<open>in_whitespace\<close>, \<^verbatim>\<open>already_trimmed\<close>.\<close>

type_synonym 'c collapse_state = "'c list \<times> int \<times> bool \<times> bool"

definition collapse_step ::
  "('c \<Rightarrow> int) \<Rightarrow> (int \<Rightarrow> 'c) \<Rightarrow> bool \<Rightarrow> 'c \<Rightarrow> 'c collapse_state \<Rightarrow> 'c collapse_state result" where
  "collapse_step val mk trim_sequences_with_line_breaks i st =
     (case st of (buf, chars_written, in_whitespace, already_trimmed) \<Rightarrow>
        if IsUnicodeWhitespace (val i) then
          bind_result
            (if \<not> in_whitespace
             then bind_result (put_at buf chars_written (mk 32))
                    (\<lambda>buf. Inr (buf, add32 chars_written 1))
             else Inr (buf, chars_written))
            (\<lambda>(buf, chars_written).
               if trim_sequences_with_line_breaks \<and> \<not> already_trimmed \<and> (val i = 10 \<or> val i = 13)
               then Inr (buf, sub32 chars_written 1, True, True)
               else Inr (buf, chars_written, True, already_trimmed))
        else
          bind_result (put_at buf chars_written i)
            (\<lambda>buf. Inr (buf, add32 chars_written 1, False, False)))"

fun collapse_loop ::
  "('c \<Rightarrow> int) \<Rightarrow> (int \<Rightarrow> 'c) \<Rightarrow> bool \<Rightarrow> 'c list \<Rightarrow> 'c collapse_state \<Rightarrow> 'c collapse_state result" where
  "collapse_loop val mk lb [] st = Inr st"
| "collapse_loop val mk lb (i # text) st =
     bind_result (collapse_step val mk lb i st) (collapse_loop val mk lb text)"

text \<open>
  The buffer starts at the size of the text, filled with zeros; the last \<^verbatim>\<open>resize\<close> cuts it to the
  characters written. A negative count converted to a size is a length error.
\<close>

definition CollapseWhitespaceT ::
  "('c \<Rightarrow> int) \<Rightarrow> (int \<Rightarrow> 'c) \<Rightarrow> 'c list \<Rightarrow> bool \<Rightarrow> 'c list result" where
  "CollapseWhitespaceT val mk text lb =
     bind_result (collapse_loop val mk lb text (replicate (length text) (mk 0), 0, True, True))
       (\<lambda>(buf, chars_written, in_whitespace, already_trimmed).
          let chars_written = (if in_whitespace \<and> \<not> already_trimmed then sub32 chars_written 1
                               else chars_written)
          in if chars_written < 0 \<or> chars_written > int (length buf) then Inl Length_Error
             else Inr (take (nat chars_written) buf))"

text \<open>
  What collapsing means: the words of the text with one space between neighbours, or nothing where
  the white space between them has a line break and line breaks are to be trimmed.
\<close>

definition gap :: "('c \<Rightarrow> int) \<Rightarrow> (int \<Rightarrow> 'c) \<Rightarrow> bool \<Rightarrow> 'c list \<Rightarrow> 'c list" where
  "gap val mk lb ws = (if lb \<and> list_ex (\<lambda>c. val c = 10 \<or> val c = 13) ws then [] else [mk 32])"

abbreviation is_ws :: "('c \<Rightarrow> int) \<Rightarrow> 'c \<Rightarrow> bool" where
  "is_ws val c \<equiv> IsUnicodeWhitespace (val c)"

lemma collapse_words_shorter:
  assumes "dropWhile P (dropWhile (\<lambda>c. \<not> P c) text) \<noteq> []"
  shows "length (dropWhile P (dropWhile (\<lambda>c. \<not> P c) text)) < length text"
proof -
  let ?r = "dropWhile (\<lambda>c. \<not> P c) text"
  from assms obtain c r where r: "?r = c # r" by (cases ?r) auto
  then have "P c" by (metis dropWhile_eq_Cons_conv)
  then have "length (dropWhile P ?r) \<le> length r" using r by (simp add: length_dropWhile_le)
  also have "\<dots> < length ?r" using r by simp
  also have "\<dots> \<le> length text" by (rule length_dropWhile_le)
  finally show ?thesis .
qed

function collapse_words :: "('c \<Rightarrow> int) \<Rightarrow> (int \<Rightarrow> 'c) \<Rightarrow> bool \<Rightarrow> 'c list \<Rightarrow> 'c list" where
  "collapse_words val mk lb text =
     (let word = takeWhile (\<lambda>c. \<not> is_ws val c) text;
          rest = dropWhile (\<lambda>c. \<not> is_ws val c) text;
          ws = takeWhile (is_ws val) rest;
          more = dropWhile (is_ws val) rest
      in if more = [] then word else word @ gap val mk lb ws @ collapse_words val mk lb more)"
  by pat_completeness auto

termination
  by (relation "measure (\<lambda>(val, mk, lb, text). length text)")
    (simp_all only: in_measure wf_measure split_conv collapse_words_shorter not_False_eq_True)

declare collapse_words.simps [simp del]

definition collapse_spec :: "('c \<Rightarrow> int) \<Rightarrow> (int \<Rightarrow> 'c) \<Rightarrow> bool \<Rightarrow> 'c list \<Rightarrow> 'c list" where
  "collapse_spec val mk lb text = collapse_words val mk lb (dropWhile (is_ws val) text)"

subsection \<open>The buffer holds the collapsed text\<close>

lemma collapse_loop_append:
  "collapse_loop val mk lb (xs @ ys) st =
   bind_result (collapse_loop val mk lb xs st) (collapse_loop val mk lb ys)"
  by (induction xs arbitrary: st) (auto simp: bind_result_def split: sum.splits)

text \<open>A state whose first characters of the buffer are \<open>out\<close>.\<close>

definition holds :: "'c list \<Rightarrow> nat \<Rightarrow> bool \<Rightarrow> bool \<Rightarrow> 'c collapse_state \<Rightarrow> bool" where
  "holds out n iw tr st \<longleftrightarrow> (\<exists>buf. st = (buf, int (length out), iw, tr) \<and>
     length buf = n \<and> take (length out) buf = out)"

lemma put_at_holds:
  assumes "length out < length buf" "take (length out) buf = out" "length buf < 2 ^ 31"
  shows "\<exists>buf'. put_at buf (int (length out)) c = Inr buf' \<and> length buf' = length buf \<and>
    take (length (out @ [c])) buf' = out @ [c] \<and>
    add32 (int (length out)) 1 = int (length (out @ [c]))"
  using assms by (auto simp: put_at_def take_Suc_conv_app_nth i32_simps is_i32_iff)

lemma collapse_skip:
  assumes "\<forall>c \<in> set ws. is_ws val c"
  shows "collapse_loop val mk lb ws (buf, w, True, True) = Inr (buf, w, True, True)"
  using assms by (induction ws) (auto simp: collapse_step_def)

lemma collapse_word:
  assumes "\<forall>c \<in> set word. \<not> is_ws val c" "holds out n iw tr st" "word \<noteq> []"
    and "length out + length word \<le> n" "n < 2 ^ 31"
  shows "\<exists>st'. collapse_loop val mk lb word st = Inr st' \<and> holds (out @ word) n False False st'"
  using assms
proof (induction word arbitrary: out iw tr st)
  case (Cons c word)
  then obtain buf where st: "st = (buf, int (length out), iw, tr)" "length buf = n"
    "take (length out) buf = out" by (auto simp: holds_def)
  with Cons.prems put_at_holds [of out buf c] obtain buf' where buf':
    "put_at buf (int (length out)) c = Inr buf'" "length buf' = n"
    "take (length (out @ [c])) buf' = out @ [c]"
    "add32 (int (length out)) 1 = int (length (out @ [c]))" by auto
  let ?st = "(buf', int (length (out @ [c])), False, False)"
  have step: "collapse_step val mk lb c st = Inr ?st"
    using st buf' Cons.prems by (simp add: collapse_step_def)
  have holds: "holds (out @ [c]) n False False ?st" using buf' by (simp add: holds_def)
  show ?case
  proof (cases "word = []")
    case True
    then show ?thesis using step holds by simp
  next
    case False
    with Cons.prems holds Cons.IH [of "out @ [c]" False False ?st] step show ?thesis by auto
  qed
qed simp

text \<open>White space after a word: one space, or none as soon as a trimmed line break is seen.\<close>

lemma collapse_more_ws:
  assumes "\<forall>c \<in> set ws. is_ws val c" "holds (out @ [mk 32]) n True False st" "n < 2 ^ 31"
    "length out < n"
  shows "\<exists>st'. collapse_loop val mk lb ws st = Inr st' \<and>
    holds (out @ gap val mk lb ws) n True (gap val mk lb ws = []) st'"
  using assms
proof (induction ws arbitrary: st)
  case Nil
  then show ?case by (simp add: gap_def)
next
  case (Cons c ws)
  then obtain buf where st: "st = (buf, int (length out) + 1, True, False)" "length buf = n"
    "take (Suc (length out)) buf = out @ [mk 32]" by (auto simp: holds_def)
  show ?case
  proof (cases "lb \<and> (val c = 10 \<or> val c = 13)")
    case True
    have "take (length out) buf = out" using arg_cong [OF st(3), of "take (length out)"] by simp
    moreover have "sub32 (int (length out) + 1) 1 = int (length out)"
      using Cons.prems(3,4) by (simp add: i32_simps is_i32_iff)
    moreover have "\<forall>c \<in> set ws. is_ws val c" using Cons.prems(1) by simp
    ultimately show ?thesis using True st Cons.prems
      by (simp add: collapse_step_def collapse_skip gap_def holds_def)
  next
    case False
    then have "collapse_step val mk lb c st = Inr st"
      using st Cons.prems by (auto simp: collapse_step_def)
    moreover have "gap val mk lb (c # ws) = gap val mk lb ws" using False by (auto simp: gap_def)
    ultimately show ?thesis using Cons by simp
  qed
qed

lemma collapse_ws:
  assumes "\<forall>c \<in> set ws. is_ws val c" "holds out n False False st" "n < 2 ^ 31"
    "length out < n" "ws \<noteq> []"
  shows "\<exists>st'. collapse_loop val mk lb ws st = Inr st' \<and>
    holds (out @ gap val mk lb ws) n True (gap val mk lb ws = []) st'"
proof -
  obtain c ws' where ws: "ws = c # ws'" using assms(5) by (cases ws) auto
  from assms obtain buf where st: "st = (buf, int (length out), False, False)" "length buf = n"
    "take (length out) buf = out" by (auto simp: holds_def)
  with assms put_at_holds [of out buf "mk 32"] obtain buf' where buf':
    "put_at buf (int (length out)) (mk 32) = Inr buf'" "length buf' = n"
    "take (length (out @ [mk 32])) buf' = out @ [mk 32]"
    "add32 (int (length out)) 1 = int (length (out @ [mk 32]))" by auto
  let ?st = "(buf', int (length (out @ [mk 32])), True, False)"
  have "collapse_step val mk lb c st = collapse_step val mk lb c ?st"
    using st buf' assms(1) ws by (simp add: collapse_step_def add.commute)
  moreover have "holds (out @ [mk 32]) n True False ?st" using buf' by (simp add: holds_def)
  ultimately show ?thesis
    using collapse_more_ws [OF assms(1) _ assms(3,4), of mk ?st lb] ws by simp
qed

lemma collapse_words_loop:
  assumes "holds out n True tr st" "n < 2 ^ 31" "length out + length text \<le> n"
    and "text \<noteq> [] \<longrightarrow> \<not> is_ws val (hd text)" "text \<noteq> []"
  shows "\<exists>st' iw tr' w. collapse_loop val mk lb text st = Inr st' \<and> holds w n iw tr' st' \<and>
    (if iw \<and> \<not> tr' then w = out @ collapse_words val mk lb text @ [mk 32]
     else w = out @ collapse_words val mk lb text)"
  using assms
proof (induction val mk lb "text" arbitrary: out st tr rule: collapse_words.induct)
  case (1 val mk lb "text")
  let ?word = "takeWhile (\<lambda>c. \<not> is_ws val c) text" and ?rest = "dropWhile (\<lambda>c. \<not> is_ws val c) text"
  let ?ws = "takeWhile (is_ws val) ?rest" and ?more = "dropWhile (is_ws val) ?rest"
  have dec: "text = ?word @ ?ws @ ?more" by simp
  have len: "length ?word + length ?ws + length ?more = length text"
    using arg_cong [OF dec, of length] by (simp only: length_append add.assoc)
  have word: "?word \<noteq> []" "\<forall>c \<in> set ?word. \<not> is_ws val c"
    using 1(5,6) by (cases "text"; auto dest: set_takeWhileD)+
  obtain st1 where st1: "collapse_loop val mk lb ?word st = Inr st1"
    "holds (out @ ?word) n False False st1"
    using collapse_word [OF word(2) 1(2) word(1)] 1(3,4) len by fastforce
  have ws: "\<forall>c \<in> set ?ws. is_ws val c" by (auto dest: set_takeWhileD)
  show ?case
  proof (cases "?ws = []")
    case True
    then have "?rest = []"
      by (metis dropWhile_eq_Cons_conv neq_Nil_conv takeWhile.simps(2))
    then have "text = ?word" by (metis append_Nil2 takeWhile_dropWhile_id)
    moreover have "collapse_words val mk lb text = ?word"
      by (subst collapse_words.simps) (simp only: \<open>?rest = []\<close> Let_def dropWhile.simps if_True simp_thms)
    ultimately show ?thesis using st1 by (metis (no_types, lifting))
  next
    case False
    then have "length (out @ ?word) < n" using 1(4) len by (cases ?ws) auto
    then obtain st2 where st2: "collapse_loop val mk lb ?ws st1 = Inr st2"
      "holds ((out @ ?word) @ gap val mk lb ?ws) n True (gap val mk lb ?ws = []) st2"
      using collapse_ws [OF ws st1(2) 1(3) _ False] by blast
    have run: "collapse_loop val mk lb text st = collapse_loop val mk lb ?more st2"
      by (subst dec) (simp only: collapse_loop_append st1 st2 bind_result_simps)
    show ?thesis
    proof (cases "?more = []")
      case True
      then have "collapse_words val mk lb text = ?word"
        by (subst collapse_words.simps) (simp only: Let_def if_True simp_thms)
      then have out: "if True \<and> gap val mk lb ?ws \<noteq> []
          then (out @ ?word) @ gap val mk lb ?ws = out @ collapse_words val mk lb text @ [mk 32]
          else (out @ ?word) @ gap val mk lb ?ws = out @ collapse_words val mk lb text"
        by (simp only: gap_def) simp
      have "collapse_loop val mk lb text st = Inr st2"
        unfolding run True by (rule collapse_loop.simps)
      with st2(2) out show ?thesis by blast
    next
      case more: False
      then have hd: "\<not> is_ws val (hd ?more)" by (rule hd_dropWhile)
      have g: "length (gap val mk lb ?ws) \<le> length ?ws"
        using False by (cases ?ws) (auto simp: gap_def)
      have "collapse_words val mk lb text = ?word @ gap val mk lb ?ws @ collapse_words val mk lb ?more"
        using more by (subst collapse_words.simps) (simp only: Let_def if_False simp_thms)
      moreover have "\<exists>st' iw tr' w. collapse_loop val mk lb ?more st2 = Inr st' \<and> holds w n iw tr' st' \<and>
        (if iw \<and> \<not> tr' then w = ((out @ ?word) @ gap val mk lb ?ws) @ collapse_words val mk lb ?more @ [mk 32]
         else w = ((out @ ?word) @ gap val mk lb ?ws) @ collapse_words val mk lb ?more)"
        using more hd g 1(4) len
        by (intro 1(1) [OF refl refl refl refl more st2(2) 1(3)]) auto
      ultimately show ?thesis unfolding run by (simp only: append_assoc)
    qed
  qed
qed



lemma collapse_finish:
  assumes "length w \<le> length buf" "take (length w) buf = w" "length buf < 2 ^ 31"
    and "if fl then w = v @ [c] else w = v"
  shows "(let chars_written = (if fl then sub32 (int (length w)) 1 else int (length w))
    in if chars_written < 0 \<or> chars_written > int (length buf) then Inl Length_Error
       else Inr (take (nat chars_written) buf)) = Inr v"
proof (cases fl)
  case True
  with assms have w: "w = v @ [c]" by simp
  then have "sub32 (int (length w)) 1 = int (length v)"
    using assms(1,3) by (simp add: i32_simps is_i32_iff)
  moreover have "take (length v) buf = v"
    using arg_cong [OF assms(2), of "take (length v)"] w by simp
  ultimately show ?thesis using True assms(1) w by simp
next
  case False
  then show ?thesis using assms by simp
qed

text \<open>
  Collapsing white space never writes outside its buffer and never counts below zero, and the
  result is the words of the text, in order, with a single space between neighbours (nothing where
  a line break stands between them and the caller asked for that), none in front and none behind.
  The text is shorter than the range of the \<^verbatim>\<open>int\<close> that counts the characters.
\<close>

theorem CollapseWhitespace_correct:
  assumes "length xs < 2 ^ 31"
  shows "CollapseWhitespaceT val mk xs lb = Inr (collapse_spec val mk lb xs)"
proof -
  let ?n = "length xs" and ?init = "(replicate (length xs) (mk 0), 0, True, True)"
  let ?ws = "takeWhile (is_ws val) xs" and ?more = "dropWhile (is_ws val) xs"
  have skip: "collapse_loop val mk lb xs ?init = collapse_loop val mk lb ?more ?init"
  proof -
    have "collapse_loop val mk lb (?ws @ ?more) ?init = collapse_loop val mk lb ?more ?init"
      unfolding collapse_loop_append
      by (subst collapse_skip) (auto dest: set_takeWhileD)
    then show ?thesis by simp
  qed
  show ?thesis
  proof (cases "?more = []")
    case True
    show ?thesis
      unfolding CollapseWhitespaceT_def skip collapse_spec_def True
      by (simp add: collapse_words.simps [of _ _ _ "[]"])
  next
    case False
    have "\<exists>st' iw tr' w. collapse_loop val mk lb ?more ?init = Inr st' \<and> holds w ?n iw tr' st' \<and>
      (if iw \<and> \<not> tr' then w = [] @ collapse_words val mk lb ?more @ [mk 32]
       else w = [] @ collapse_words val mk lb ?more)"
      using assms False hd_dropWhile [OF False]
      by (intro collapse_words_loop [where tr = True]) (auto simp: holds_def length_dropWhile_le)
    then obtain buf iw tr' w where run:
      "collapse_loop val mk lb ?more ?init = Inr (buf, int (length w), iw, tr')"
      "length buf = ?n" "take (length w) buf = w"
      "if iw \<and> \<not> tr' then w = collapse_words val mk lb ?more @ [mk 32]
       else w = collapse_words val mk lb ?more"
      by (auto simp: holds_def)
    have "length w \<le> ?n" using run(2,3) by (metis length_take min.cobounded1 min.commute)
    then show ?thesis
      unfolding CollapseWhitespaceT_def skip collapse_spec_def run(1) bind_result_simps prod.case
      by (intro collapse_finish) (use run(2-) assms in \<open>simp_all only:\<close>)
  qed
qed

theorem CollapseWhitespace_correct_witness:
  "CollapseWhitespaceT val8 mk8 ''  a  b '' False = Inr ''a b''"
proof -
  have "collapse_spec val8 mk8 False ''  a  b '' = ''a b''" by code_simp
  moreover have "length ''  a  b '' < 2 ^ 31" by simp
  ultimately show ?thesis using CollapseWhitespace_correct by metis
qed

section \<open>The test for ASCII\<close>

text \<open>
  A character of \<open>sz\<close> bytes (1 for \<^verbatim>\<open>char\<close>, 2 for \<^verbatim>\<open>char16\<close>, 4 for \<^verbatim>\<open>wchar_t\<close>) is given by the integer
  it is promoted to; \<open>addr\<close> is the address of the next character, and the list holds the characters
  up to \<^verbatim>\<open>end\<close>. A machine word has eight bytes, lowest address in the lowest bits.
\<close>

definition IsAlignedToMachineWord :: "64 word \<Rightarrow> bool" where
  "IsAlignedToMachineWord pointer \<longleftrightarrow> pointer AND (8 - 1) = 0"

definition AlignToMachineWord :: "64 word \<Rightarrow> 64 word" where
  "AlignToMachineWord pointer = pointer AND NOT (8 - 1)"

definition NonASCIIMask :: "nat \<Rightarrow> 64 word" where
  "NonASCIIMask sz =
     (if sz = 2 then 0xFF80FF80FF80FF80 else if sz = 1 then 0x8080808080808080
      else 0xFFFFFF80FFFFFF80)"

fun load_word :: "nat \<Rightarrow> int list \<Rightarrow> 64 word" where
  "load_word sz [] = 0"
| "load_word sz (c # cs) = take_bit (8 * sz) (word_of_int c) OR push_bit (8 * sz) (load_word sz cs)"

fun ascii_prologue :: "nat \<Rightarrow> nat \<Rightarrow> int list \<Rightarrow> 64 word \<Rightarrow> nat \<times> int list \<times> 64 word" where
  "ascii_prologue sz addr [] bits = (addr, [], bits)"
| "ascii_prologue sz addr (c # cs) bits =
     (if \<not> IsAlignedToMachineWord (of_nat addr)
      then ascii_prologue sz (addr + sz) cs (bits OR word_of_int c)
      else (addr, c # cs, bits))"

function ascii_words ::
  "nat \<Rightarrow> nat \<Rightarrow> nat \<Rightarrow> int list \<Rightarrow> 64 word \<Rightarrow> (int list \<times> 64 word) result" where
  "ascii_words sz word_end addr cs bits =
     (if addr < word_end
      then if 8 div sz > length cs then Inl Out_Of_Bounds
           else ascii_words sz word_end (addr + 8) (drop (8 div sz) cs)
                  (bits OR load_word sz (take (8 div sz) cs))
      else Inr (cs, bits))"
  by pat_completeness auto
termination by (relation "measure (\<lambda>(sz, word_end, addr, cs, bits). word_end - addr)") auto

declare ascii_words.simps [simp del]

definition DoIsStringASCII :: "nat \<Rightarrow> nat \<Rightarrow> int list \<Rightarrow> bool result" where
  "DoIsStringASCII sz addr characters =
     (let end_ptr = addr + sz * length characters;
          (addr', cs, bits) = ascii_prologue sz addr characters 0;
          word_end = unat (AlignToMachineWord (of_nat end_ptr))
      in bind_result (ascii_words sz word_end addr' cs bits) (\<lambda>(cs, bits).
           let all_char_bits = fold (\<lambda>c bits. bits OR word_of_int c) cs bits
           in Inr (all_char_bits AND NonASCIIMask sz = 0)))"

subsection \<open>What the test computes\<close>

lemma low_bits: "(of_nat a :: 64 word) AND (8 - 1) = of_nat (a mod 8)"
proof -
  have "(of_nat a :: 64 word) AND (8 - 1) = take_bit 3 (of_nat a)"
    using take_bit_eq_mask [of 3 "of_nat a :: 64 word"] by (simp add: mask_eq_exp_minus_1)
  also have "\<dots> = of_nat (take_bit 3 a)" by (rule take_bit_of_nat)
  finally show ?thesis by (simp add: take_bit_eq_mod)
qed

lemma aligned_iff: "IsAlignedToMachineWord (of_nat a) \<longleftrightarrow> a mod 8 = 0"
proof -
  have "a mod 8 < 2 ^ 64" by (rule less_trans [of _ 8]) simp_all
  then have "(of_nat (a mod 8) :: 64 word) = 0 \<longleftrightarrow> a mod 8 = 0"
    using nat_dvd_not_less [of "a mod 8" "2 ^ 64"] by (auto simp: word_of_nat_eq_0_iff)
  then show ?thesis unfolding IsAlignedToMachineWord_def low_bits .
qed

lemma align_down:
  assumes "e < 2 ^ 64"
  shows "unat (AlignToMachineWord (of_nat e)) = e - e mod 8"
proof -
  have "AlignToMachineWord (of_nat e) = of_nat e - of_nat (e mod 8)"
    unfolding AlignToMachineWord_def low_bits [symmetric]
    using disjunctive_diff_eq_and_not [of "of_nat e :: 64 word" "of_nat e AND (8 - 1)"]
    by (simp add: bit_eq_iff bit_simps) blast
  also have "\<dots> = of_nat (e - e mod 8)" by (simp add: of_nat_diff)
  finally have "unat (AlignToMachineWord (of_nat e)) = (e - e mod 8) mod 2 ^ 64"
    by (simp only: unat_of_nat) simp
  then show ?thesis using assms by simp
qed

lemma small_bits:
  assumes "0 \<le> v" "v < (128::int)" "7 \<le> n"
  shows "\<not> bit v n"
proof -
  have "(128::int) \<le> 2 ^ n" using power_increasing [OF assms(3), of "2::int"] by simp
  with assms have "v div 2 ^ n = 0" by (intro div_pos_pos_trivial) auto
  then show ?thesis by (simp add: bit_iff_odd)
qed

definition high_bits_clear :: "nat \<Rightarrow> int \<Rightarrow> bool" where
  "high_bits_clear sz v \<longleftrightarrow> (\<forall>n. 7 \<le> n \<longrightarrow> n < 8 * sz \<longrightarrow> \<not> bit v n)"

definition mask_clear :: "nat \<Rightarrow> 64 word \<Rightarrow> bool" where
  "mask_clear sz w \<longleftrightarrow> w AND NonASCIIMask sz = 0"

lemma bit_mask: "sz \<in> {1, 2, 4} \<Longrightarrow> bit (NonASCIIMask sz) n \<longleftrightarrow> n < 64 \<and> 7 \<le> n mod (8 * sz)"
proof -
  have "list_all (\<lambda>n. bit (NonASCIIMask 1) n = (7 \<le> n mod 8)) [0..<64]"
    "list_all (\<lambda>n. bit (NonASCIIMask 2) n = (7 \<le> n mod 16)) [0..<64]"
    "list_all (\<lambda>n. bit (NonASCIIMask 4) n = (7 \<le> n mod 32)) [0..<64]"
    by code_simp+
  moreover have "\<not> bit (w :: 64 word) n" if "\<not> n < 64" for w n
    using that by (auto dest: bit_imp_le_length)
  ultimately show "sz \<in> {1, 2, 4} \<Longrightarrow> ?thesis"
    by (cases "n < 64") (auto simp: list_all_iff)
qed

lemma ascii_iff:
  assumes "sz \<in> {1, 2, 4}" "- (2 ^ (8 * sz - 1)) \<le> v" "v < 2 ^ (8 * sz)"
  shows "high_bits_clear sz v \<longleftrightarrow> 0 \<le> v \<and> v < 128"
proof
  assume "high_bits_clear sz v"
  then have "take_bit (8 * sz) v = take_bit 7 v"
    using assms(1) by (intro bit_eqI) (auto simp: bit_simps high_bits_clear_def not_less intro: leI)
  then have m: "v mod 2 ^ (8 * sz) = v mod 128" by (simp add: take_bit_eq_mod)
  show "0 \<le> v \<and> v < 128"
  proof (cases "0 \<le> v")
    case True
    with m assms(3) have "v = v mod 128" by simp
    then show ?thesis using True pos_mod_bound [of 128 v] by simp
  next
    case False
    have "v mod 2 ^ (8 * sz) = v + 2 ^ (8 * sz)"
      using False assms by (intro int_mod_pos_eq [where q = "-1"]) auto
    moreover have "v mod 128 < 128" by simp
    ultimately show ?thesis using m assms(1,2) by auto
  qed
next
  assume "0 \<le> v \<and> v < 128"
  then show "high_bits_clear sz v" by (simp add: high_bits_clear_def small_bits)
qed

lemma mask_clear_iff:
  "sz \<in> {1, 2, 4} \<Longrightarrow>
   mask_clear sz w \<longleftrightarrow> (\<forall>n. n < 64 \<longrightarrow> 7 \<le> n mod (8 * sz) \<longrightarrow> \<not> bit w n)"
  by (auto simp: mask_clear_def bit_eq_iff bit_simps bit_mask)

lemma mask_clear_or: "mask_clear sz (a OR b) \<longleftrightarrow> mask_clear sz a \<and> mask_clear sz b"
  by (auto simp: mask_clear_def bit_eq_iff bit_simps)

lemma mask_clear_char:
  assumes "sz \<in> {1, 2, 4}" "- (2 ^ (8 * sz - 1)) \<le> v" "v < 2 ^ (8 * sz)"
  shows "mask_clear sz (word_of_int v) \<longleftrightarrow> 0 \<le> v \<and> v < 128"
proof
  assume "mask_clear sz (word_of_int v)"
  then have "high_bits_clear sz v"
    using assms(1) by (auto simp: mask_clear_iff high_bits_clear_def bit_simps)
  then show "0 \<le> v \<and> v < 128" using ascii_iff [OF assms] by simp
next
  assume v: "0 \<le> v \<and> v < 128"
  have "\<not> bit v n" if "7 \<le> n mod (8 * sz)" for n
    using v le_trans [OF that mod_less_eq_dividend] by (intro small_bits) auto
  then show "mask_clear sz (word_of_int v)"
    using assms(1) by (auto simp: mask_clear_iff bit_simps)
qed

lemma bit_load_word:
  assumes "0 < sz"
  shows "bit (load_word sz cs) n \<longleftrightarrow>
    n < 64 \<and> n div (8 * sz) < length cs \<and> bit (cs ! (n div (8 * sz))) (n mod (8 * sz))"
  using assms
proof (induction cs arbitrary: n)
  case (Cons c cs)
  show ?case
  proof (cases "n < 8 * sz")
    case True
    then show ?thesis using Cons.prems by (auto simp: bit_simps)
  next
    case False
    then have "n div (8 * sz) = Suc ((n - 8 * sz) div (8 * sz))" "n mod (8 * sz) = (n - 8 * sz) mod (8 * sz)"
      using Cons.prems by (simp_all add: le_div_geq le_mod_geq)
    then show ?thesis using False Cons.IH [of "n - 8 * sz"] Cons.prems by (auto simp: bit_simps)
  qed
qed simp

lemma mask_clear_load:
  assumes "sz \<in> {1, 2, 4}" "length cs * (8 * sz) \<le> 64"
  shows "mask_clear sz (load_word sz cs) \<longleftrightarrow> (\<forall>c \<in> set cs. high_bits_clear sz c)"
proof -
  have sz: "0 < sz" using assms(1) by auto
  have "(\<forall>c \<in> set cs. high_bits_clear sz c) \<longleftrightarrow>
      (\<forall>i < length cs. \<forall>k. 7 \<le> k \<longrightarrow> k < 8 * sz \<longrightarrow> \<not> bit (cs ! i) k)"
    by (auto simp: high_bits_clear_def all_set_conv_all_nth)
  also have "\<dots> \<longleftrightarrow> (\<forall>n. n < 64 \<longrightarrow> 7 \<le> n mod (8 * sz) \<longrightarrow> \<not> bit (load_word sz cs) n)"
  proof (intro iffI allI impI)
    fix n
    assume "\<forall>i < length cs. \<forall>k. 7 \<le> k \<longrightarrow> k < 8 * sz \<longrightarrow> \<not> bit (cs ! i) k" "7 \<le> n mod (8 * sz)"
    then show "\<not> bit (load_word sz cs) n" using sz by (simp add: bit_load_word)
  next
    fix i k
    assume *: "\<forall>n. n < 64 \<longrightarrow> 7 \<le> n mod (8 * sz) \<longrightarrow> \<not> bit (load_word sz cs) n"
      and ik: "i < length cs" "7 \<le> k" "k < 8 * sz"
    have "k + i * (8 * sz) < Suc i * (8 * sz)" using ik(3) by simp
    also have "\<dots> \<le> length cs * (8 * sz)" using ik(1) by (intro mult_le_mono1) simp
    also note assms(2)
    finally have "k + i * (8 * sz) < 64" .
    moreover have "(k + i * (8 * sz)) mod (8 * sz) = k" "(k + i * (8 * sz)) div (8 * sz) = i"
      using ik(3) by simp_all
    ultimately show "\<not> bit (cs ! i) k"
      using * [rule_format, of "k + i * (8 * sz)"] ik sz by (simp add: bit_load_word)
  qed
  finally show ?thesis using assms(1) by (simp add: mask_clear_iff)
qed

text \<open>A list of characters of the width \<open>sz\<close>, and one of them in ASCII.\<close>

definition of_width :: "nat \<Rightarrow> int list \<Rightarrow> bool" where
  "of_width sz cs \<longleftrightarrow> list_all (\<lambda>c. - (2 ^ (8 * sz - 1)) \<le> c \<and> c < 2 ^ (8 * sz)) cs"

definition all_ascii :: "int list \<Rightarrow> bool" where
  "all_ascii cs \<longleftrightarrow> list_all (\<lambda>c. 0 \<le> c \<and> c < 128) cs"

lemma of_width_simps [simp]:
  "of_width sz []" "of_width sz (c # cs) \<longleftrightarrow> (- (2 ^ (8 * sz - 1)) \<le> c \<and> c < 2 ^ (8 * sz)) \<and> of_width sz cs"
  "of_width sz (xs @ ys) \<longleftrightarrow> of_width sz xs \<and> of_width sz ys"
  "all_ascii []" "all_ascii (c # cs) \<longleftrightarrow> (0 \<le> c \<and> c < 128) \<and> all_ascii cs"
  "all_ascii (xs @ ys) \<longleftrightarrow> all_ascii xs \<and> all_ascii ys"
  by (auto simp: of_width_def all_ascii_def)

lemma high_bits_clear_all:
  "sz \<in> {1, 2, 4} \<Longrightarrow> of_width sz cs \<Longrightarrow> (\<forall>c \<in> set cs. high_bits_clear sz c) \<longleftrightarrow> all_ascii cs"
  by (induction cs) (auto simp: ascii_iff)

lemma ascii_prologue_split:
  assumes "sz \<in> {1, 2, 4}" "of_width sz cs" "ascii_prologue sz a cs bits = (a', cs', bits')"
  shows "a' + sz * length cs' = a + sz * length cs \<and> of_width sz cs' \<and> (cs' \<noteq> [] \<longrightarrow> a' mod 8 = 0) \<and>
    (mask_clear sz bits' \<and> all_ascii cs' \<longleftrightarrow> mask_clear sz bits \<and> all_ascii cs)"
  using assms(2,3)
proof (induction cs arbitrary: a bits)
  case (Cons c cs)
  show ?case
  proof (cases "a mod 8 = 0")
    case True
    then show ?thesis using Cons.prems by (auto simp: aligned_iff)
  next
    case False
    then have "a' + sz * length cs' = a + sz + sz * length cs \<and> of_width sz cs' \<and>
        (cs' \<noteq> [] \<longrightarrow> a' mod 8 = 0) \<and>
        (mask_clear sz bits' \<and> all_ascii cs' \<longleftrightarrow>
         mask_clear sz (bits OR word_of_int c) \<and> all_ascii cs)"
      using Cons.prems by (intro Cons.IH) (simp_all add: aligned_iff)
    then show ?thesis using Cons.prems assms(1) by (auto simp: mask_clear_or mask_clear_char)
  qed
qed auto

lemma ascii_words_split:
  assumes "sz \<in> {1, 2, 4}" "of_width sz cs" "a < e \<longrightarrow> a mod 8 = 0" "e mod 8 = 0"
    "e \<le> a + sz * length cs"
  shows "\<exists>cs' bits'. ascii_words sz e a cs bits = Inr (cs', bits') \<and> of_width sz cs' \<and>
    (mask_clear sz bits' \<and> all_ascii cs' \<longleftrightarrow> mask_clear sz bits \<and> all_ascii cs)"
  using assms
proof (induction sz e a cs bits rule: ascii_words.induct)
  case (1 sz e a cs bits)
  show ?case
  proof (cases "a < e")
    case True
    let ?k = "8 div sz"
    have "a + 8 \<le> e" using True 1(4,5) by presburger
    with 1(6) have len: "8 \<le> sz * length cs" by linarith
    then have k: "?k \<le> length cs" "sz * ?k = 8" using 1(2) by (elim insertE emptyE; force)+
    have cs: "cs = take ?k cs @ drop ?k cs" by simp
    have wd: "of_width sz (take ?k cs)" "of_width sz (drop ?k cs)"
      using 1(3) by (subst (asm) cs, simp only: of_width_simps)+
    have load: "mask_clear sz (load_word sz (take ?k cs)) \<longleftrightarrow> all_ascii (take ?k cs)"
    proof -
      have "length (take ?k cs) * (8 * sz) \<le> 64" using k by (simp add: mult.commute)
      then show ?thesis using 1(2) wd by (simp add: mask_clear_load high_bits_clear_all)
    qed
    have asc: "all_ascii cs \<longleftrightarrow> all_ascii (take ?k cs) \<and> all_ascii (drop ?k cs)"
      by (subst cs) (simp only: of_width_simps)
    have "e \<le> a + 8 + sz * length (drop ?k cs)"
      using 1(6) k by (simp add: diff_mult_distrib2)
    then obtain cs' bits' where
      "ascii_words sz e (a + 8) (drop ?k cs) (bits OR load_word sz (take ?k cs)) = Inr (cs', bits')"
      "of_width sz cs'"
      "mask_clear sz bits' \<and> all_ascii cs' \<longleftrightarrow>
       mask_clear sz (bits OR load_word sz (take ?k cs)) \<and> all_ascii (drop ?k cs)"
      using 1(1) [OF True] k(1) 1(2,4,5) wd by force
    then show ?thesis using True k(1) load asc
      by (subst ascii_words.simps) (auto simp: mask_clear_or)
  next
    case False
    then show ?thesis using 1 by (subst ascii_words.simps) simp
  qed
qed

lemma ascii_epilogue:
  "sz \<in> {1, 2, 4} \<Longrightarrow> of_width sz cs \<Longrightarrow>
   mask_clear sz (fold (\<lambda>c bits. bits OR word_of_int c) cs bits) \<longleftrightarrow> mask_clear sz bits \<and> all_ascii cs"
  by (induction cs arbitrary: bits) (auto simp: mask_clear_or mask_clear_char)

lemma ascii_test_eq:
  assumes "sz \<in> {1, 2, 4}" "of_width sz cs" "addr + sz * length cs < 2 ^ 64"
  shows "DoIsStringASCII sz addr cs = Inr (all_ascii cs)"
proof -
  obtain a' cs' bits' where p: "ascii_prologue sz addr cs 0 = (a', cs', bits')"
    by (metis prod_cases3)
  let ?stop = "addr + sz * length cs"
  let ?e = "?stop - ?stop mod 8"
  have pro: "a' + sz * length cs' = ?stop" "of_width sz cs'" "cs' \<noteq> [] \<longrightarrow> a' mod 8 = 0"
    "mask_clear sz bits' \<and> all_ascii cs' \<longleftrightarrow> all_ascii cs"
    using ascii_prologue_split [OF assms(1,2) p] by (auto simp: mask_clear_def)
  have "a' < ?e \<longrightarrow> a' mod 8 = 0" using pro(1,3) by (cases cs') auto
  moreover have "?e mod 8 = 0" by presburger
  moreover have "?e \<le> a' + sz * length cs'" using pro(1) by simp
  ultimately obtain cs2 bits2 where "ascii_words sz ?e a' cs' bits' = Inr (cs2, bits2)"
    "of_width sz cs2" "mask_clear sz bits2 \<and> all_ascii cs2 \<longleftrightarrow> all_ascii cs"
    using ascii_words_split [OF assms(1) pro(2)] pro(4) by metis
  then show ?thesis using p ascii_epilogue [OF assms(1), of cs2 bits2]
    by (simp add: DoIsStringASCII_def align_down [OF assms(3)] Let_def mask_clear_def [symmetric]
        del: of_nat_add of_nat_mult)
qed

text \<open>
  C18. The word-at-a-time test for ASCII reads nothing outside the string and answers whether every
  character is below 128, for every address the string may start at, aligned or not, and for
  characters of one, two and four bytes, sign-extended ones included.
\<close>

theorem DoIsStringASCII_correct:
  assumes "sz \<in> {1, 2, 4}" "of_width sz cs" "addr + sz * length cs < 2 ^ 64"
  shows "DoIsStringASCII sz addr cs = Inr (all_ascii cs)"
  using assms by (rule ascii_test_eq)

theorem DoIsStringASCII_correct_witness:
  "DoIsStringASCII 1 1003 (map val8 ''config.ini 8080'') = Inr True \<and>
   DoIsStringASCII 2 16 [104, 228] = Inr False"
proof -
  have "of_width 1 (map val8 ''config.ini 8080'')" "all_ascii (map val8 ''config.ini 8080'')"
    by code_simp+
  then show ?thesis
    using DoIsStringASCII_correct [of 1 "map val8 ''config.ini 8080''" 1003]
      DoIsStringASCII_correct [of 2 "[104, 228]" 16] by simp
qed

section \<open>Bounded copies\<close>

text \<open>
  \<^verbatim>\<open>strlcpy\<close> and \<^verbatim>\<open>wcslcpy\<close>: \<open>src\<close> is the memory from the source pointer on, \<open>dst\<close> the destination
  array, and \<open>nul\<close> the terminator. The result is the returned length and the new array.
\<close>

function lcpy_copy :: "'c \<Rightarrow> 'c list \<Rightarrow> 'c list \<Rightarrow> nat \<Rightarrow> nat \<Rightarrow> ('c list \<times> nat option) result" where
  "lcpy_copy nul dst src dst_size i =
     (if i < dst_size
      then if i \<ge> length src \<or> i \<ge> length dst then Inl Out_Of_Bounds
           else let dst = dst[i := src ! i]
                in if src ! i = nul then Inr (dst, Some i)
                   else lcpy_copy nul dst src dst_size (i + 1)
      else Inr (dst, None))"
  by pat_completeness auto
termination by (relation "measure (\<lambda>(nul, dst, src, dst_size, i). dst_size - i)") auto

declare lcpy_copy.simps [simp del]

function lcpy_measure :: "'c \<Rightarrow> 'c list \<Rightarrow> nat \<Rightarrow> nat result" where
  "lcpy_measure nul src n =
     (if n \<ge> length src then Inl Out_Of_Bounds
      else if src ! n \<noteq> nul then lcpy_measure nul src (n + 1) else Inr n)"
  by pat_completeness auto
termination by (relation "measure (\<lambda>(nul, src, n). length src - n)") auto

declare lcpy_measure.simps [simp del]

definition lcpyT :: "'c \<Rightarrow> 'c list \<Rightarrow> 'c list \<Rightarrow> nat \<Rightarrow> (nat \<times> 'c list) result" where
  "lcpyT nul dst src dst_size =
     bind_result (lcpy_copy nul dst src dst_size 0) (\<lambda>(dst, r).
       case r of
         Some i \<Rightarrow> Inr (i, dst)
       | None \<Rightarrow>
           bind_result (if dst_size \<noteq> 0 then put_at dst (int dst_size - 1) nul else Inr dst)
             (\<lambda>dst. bind_result (lcpy_measure nul src dst_size) (\<lambda>n. Inr (n, dst))))"

lemma lcpy_measure_Inr:
  assumes "nul \<notin> set s" "n \<le> length s"
  shows "lcpy_measure nul (s @ nul # t) n = Inr (length s)"
  using assms(2)
proof (induction "length s - n" arbitrary: n)
  case 0
  then have "n = length s" by simp
  then show ?case by (subst lcpy_measure.simps) simp
next
  case (Suc d)
  then have "n < length s" by simp
  then have "s ! n \<noteq> nul" using assms(1) nth_mem [of n s] by metis
  with \<open>n < length s\<close> Suc show ?case by (subst lcpy_measure.simps) (simp add: nth_append)
qed

lemma lcpy_copy_Inr:
  assumes "nul \<notin> set s" "n \<le> length dst" "i \<le> length s" "i \<le> n" "take i dst = take i s"
  shows "lcpy_copy nul dst (s @ nul # t) n i =
    (if length s < n then Inr (s @ nul # drop (Suc (length s)) dst, Some (length s))
     else Inr (take n s @ drop n dst, None))"
  using assms(2-)
proof (induction "n - i" arbitrary: i dst)
  case 0
  then have "i = n" by simp
  with 0 show ?case by (subst lcpy_copy.simps) (auto, metis append_take_drop_id)
next
  case (Suc d)
  then have i: "i < n" by simp
  show ?case
  proof (cases "i < length s")
    case True
    then have "s ! i \<noteq> nul" using assms(1) nth_mem [of i s] by metis
    moreover have "take (i + 1) (dst[i := s ! i]) = take (i + 1) s"
      using Suc.prems True i by (simp add: take_Suc_conv_app_nth)
    ultimately show ?thesis
      using Suc.prems Suc.hyps(1) [of "i + 1" "dst[i := s ! i]"] Suc.hyps(2) True i
      by (subst lcpy_copy.simps) (auto simp: nth_append Let_def)
  next
    case False
    with Suc.prems have "i = length s" by simp
    moreover have "dst[length s := nul] = s @ nul # drop (Suc (length s)) dst"
      using Suc.prems i \<open>i = length s\<close> by (simp add: upd_conv_take_nth_drop)
    ultimately show ?thesis using Suc.prems i
      by (subst lcpy_copy.simps) (simp add: nth_append Let_def)
  qed
qed

text \<open>
  \<^verbatim>\<open>strlcpy\<close>, given a terminated source and a destination of at least the stated size: it
  stays inside both arrays, returns the length of the source, and leaves in the destination as much
  of the source as fits in front of a terminator, with the rest of the array untouched; a size of
  zero changes nothing.
\<close>

theorem strlcpy_correct:
  assumes "nul \<notin> set s" "dst_size \<le> length dst"
  shows "lcpyT nul dst (s @ nul # t) dst_size =
    Inr (length s,
         if dst_size = 0 then dst
         else let k = min (length s) (dst_size - 1) in take k s @ nul # drop (Suc k) dst)"
proof (cases "length s < dst_size")
  case True
  then show ?thesis
    using lcpy_copy_Inr [of nul s dst_size dst 0 t] assms by (simp add: lcpyT_def min_def Let_def)
next
  case False
  have "put_at (take dst_size s @ drop dst_size dst) (int dst_size - 1) nul =
      Inr (take (dst_size - 1) s @ nul # drop dst_size dst)" if pos: "dst_size \<noteq> 0"
  proof -
    obtain k where k: "dst_size = Suc k" using pos by (cases dst_size) auto
    then show ?thesis using False assms(2)
      by (simp add: put_at_def list_update_append take_Suc_conv_app_nth)
  qed
  then show ?thesis
    using False lcpy_copy_Inr [of nul s dst_size dst 0 t] assms
      lcpy_measure_Inr [OF assms(1), of dst_size t]
    by (simp add: lcpyT_def min_def Let_def) auto
qed

theorem strlcpy_correct_witness:
  "lcpyT (0::int) [9, 9, 9, 9, 9] [1, 2, 3, 4, 0, 7] 3 = Inr (4, [1, 2, 0, 9, 9])"
  using strlcpy_correct [of "0::int" "[1, 2, 3, 4]" 3 "[9, 9, 9, 9, 9]" "[7]"]
  by (simp add: Let_def)

end
