(* ===== verification/Command_Line.thy ===== *)
theory Command_Line
  imports String_Split String_Replace String_Text
begin

text \<open>
  base/command_line.cc as compiled for POSIX: the command line the service is started with
  (\<^verbatim>\<open>--setting=config/config.ini port\<close>). The object keeps the argument vector with the switches in
  front of the other arguments, a map from switch names to values, and a second map whose values
  point into the first. The theorems say how an argument vector is read, that the two maps stay
  consistent, and when reading the vector the object keeps gives the object back.
\<close>

section \<open>State\<close>

text \<open>
  A value of \<^verbatim>\<open>switches_by_stringpiece_\<close> is a pointer to the value stored in a node of
  \<^verbatim>\<open>switches_\<close>; it is represented by the key of that node.
\<close>

record CommandLine =
  argv :: "string list"
  switches :: "string \<rightharpoonup> string"
  by_piece :: "string \<rightharpoonup> string"
  begin_args :: nat

abbreviation kSwitchTerminator :: string where "kSwitchTerminator \<equiv> ''--''"
abbreviation kSwitchValueSeparator :: string where "kSwitchValueSeparator \<equiv> ''=''"

definition kSwitchPrefixes :: "string list" where
  "kSwitchPrefixes = [''--'', ''-'']"

text \<open>\<^verbatim>\<open>FilePath(path)\<close> cuts the path at the first zero byte.\<close>

definition FilePath :: "string \<Rightarrow> string" where
  "FilePath path =
     (case std_string_find_first_of path [CHR 0x00] 0 of None \<Rightarrow> path | Some nul_pos \<Rightarrow> take nul_pos path)"

section \<open>Recognising switches\<close>

fun first_prefix :: "string list \<Rightarrow> string \<Rightarrow> nat" where
  "first_prefix [] str = 0"
| "first_prefix (p # ps) str = (if take (length p) str = p then length p else first_prefix ps str)"

definition GetSwitchPrefixLength :: "string \<Rightarrow> nat" where
  "GetSwitchPrefixLength str = first_prefix kSwitchPrefixes str"

text \<open>The result and the two output strings.\<close>

definition IsSwitch :: "string \<Rightarrow> bool \<times> string \<times> string" where
  "IsSwitch str =
     (let prefix_length = GetSwitchPrefixLength str
      in if prefix_length = 0 \<or> prefix_length = length str then (False, [], [])
         else case std_string_find str kSwitchValueSeparator 0 of
                None \<Rightarrow> (True, substr str 0 npos, [])
              | Some equals_position \<Rightarrow>
                  (True, substr str 0 equals_position, substr str (equals_position + 1) npos))"

section \<open>Operations\<close>

definition trim_arg :: "string \<Rightarrow> string" where
  "trim_arg arg = snd (TrimWhitespaceASCII arg TRIM_ALL)"

definition AppendArgNative :: "string \<Rightarrow> CommandLine \<Rightarrow> CommandLine" where
  "AppendArgNative value cl = cl\<lparr>argv := argv cl @ [value]\<rparr>"

definition AppendSwitchNative :: "string \<Rightarrow> string \<Rightarrow> CommandLine \<Rightarrow> CommandLine" where
  "AppendSwitchNative switch_string value cl =
     (let prefix_length = GetSwitchPrefixLength switch_string;
          key = substr switch_string prefix_length npos;
          combined = (if prefix_length = 0 then kSwitchPrefixes ! 0 @ switch_string else switch_string);
          combined = (if value \<noteq> [] then combined @ kSwitchValueSeparator @ value else combined)
      in cl\<lparr>argv := take (begin_args cl) (argv cl) @ [combined] @ drop (begin_args cl) (argv cl),
            switches := (switches cl)(key \<mapsto> value),
            by_piece := (by_piece cl)(key \<mapsto> key),
            begin_args := begin_args cl + 1\<rparr>)"

fun append_loop :: "bool \<Rightarrow> string list \<Rightarrow> CommandLine \<Rightarrow> CommandLine" where
  "append_loop parse_switches [] cl = cl"
| "append_loop parse_switches (a # args) cl =
     (let arg = trim_arg a;
          parse_switches = (parse_switches \<and> arg \<noteq> kSwitchTerminator);
          (is_switch, switch_string, switch_value) = IsSwitch arg
      in append_loop parse_switches args
           (if parse_switches \<and> is_switch then AppendSwitchNative switch_string switch_value cl
            else AppendArgNative arg cl))"

definition AppendSwitchesAndArguments :: "CommandLine \<Rightarrow> string list \<Rightarrow> CommandLine" where
  "AppendSwitchesAndArguments cl new_argv = append_loop True (drop 1 new_argv) cl"

definition SetProgram :: "string \<Rightarrow> CommandLine \<Rightarrow> CommandLine" where
  "SetProgram program cl = cl\<lparr>argv := (argv cl)[0 := trim_arg program]\<rparr>"

definition GetProgram :: "CommandLine \<Rightarrow> string" where
  "GetProgram cl = FilePath (argv cl ! 0)"

definition CommandLine_no_program :: CommandLine where
  "CommandLine_no_program = \<lparr>argv = [[]], switches = Map.empty, by_piece = Map.empty, begin_args = 1\<rparr>"

definition InitFromArgv :: "string list \<Rightarrow> CommandLine \<Rightarrow> CommandLine" where
  "InitFromArgv new_argv cl =
     (let cl = \<lparr>argv = [[]], switches = Map.empty, by_piece = Map.empty, begin_args = 1\<rparr>;
          cl = SetProgram (if new_argv = [] then [] else FilePath (new_argv ! 0)) cl
      in AppendSwitchesAndArguments cl new_argv)"

definition CommandLine_of :: "string list \<Rightarrow> CommandLine" where
  "CommandLine_of new_argv = InitFromArgv new_argv CommandLine_no_program"

text \<open>The copy shares no node with the original: the pointers are built anew.\<close>

definition ResetStringPieces :: "CommandLine \<Rightarrow> CommandLine" where
  "ResetStringPieces cl = cl\<lparr>by_piece := (\<lambda>k. if switches cl k = None then None else Some k)\<rparr>"

definition copy_of :: "CommandLine \<Rightarrow> CommandLine" where
  "copy_of other = ResetStringPieces
     \<lparr>argv = argv other, switches = switches other, by_piece = Map.empty, begin_args = begin_args other\<rparr>"

definition HasSwitch :: "string \<Rightarrow> CommandLine \<Rightarrow> bool result" where
  "HasSwitch switch_string cl =
     (if ToLowerASCIIImpl val8 mk8 switch_string \<noteq> switch_string then Inl Check_Failed
      else Inr (by_piece cl switch_string \<noteq> None))"

definition GetSwitchValueNative :: "string \<Rightarrow> CommandLine \<Rightarrow> string result" where
  "GetSwitchValueNative switch_string cl =
     (if ToLowerASCIIImpl val8 mk8 switch_string \<noteq> switch_string then Inl Check_Failed
      else case by_piece cl switch_string of
             None \<Rightarrow> Inr []
           | Some node \<Rightarrow> (case switches cl node of None \<Rightarrow> Inl Use_After_Free | Some v \<Rightarrow> Inr v))"

text \<open>The value lies at some address, where the test for ASCII reads it.\<close>

definition GetSwitchValueASCII :: "nat \<Rightarrow> string \<Rightarrow> CommandLine \<Rightarrow> string result" where
  "GetSwitchValueASCII addr switch_string cl =
     bind_result (GetSwitchValueNative switch_string cl) (\<lambda>value.
       bind_result (DoIsStringASCII 1 addr (map val8 value)) (\<lambda>ascii.
         Inr (if \<not> ascii then [] else value)))"

definition GetSwitchValuePath :: "string \<Rightarrow> CommandLine \<Rightarrow> string result" where
  "GetSwitchValuePath switch_string cl =
     bind_result (GetSwitchValueNative switch_string cl) (\<lambda>v. Inr (FilePath v))"

definition AppendSwitch :: "string \<Rightarrow> CommandLine \<Rightarrow> CommandLine" where
  "AppendSwitch switch_string cl = AppendSwitchNative switch_string [] cl"

definition AppendSwitchASCII :: "string \<Rightarrow> string \<Rightarrow> CommandLine \<Rightarrow> CommandLine" where
  "AppendSwitchASCII switch_string value_string cl = AppendSwitchNative switch_string value_string cl"

fun CopySwitchesFrom :: "CommandLine \<Rightarrow> string list \<Rightarrow> CommandLine \<Rightarrow> CommandLine result" where
  "CopySwitchesFrom source [] cl = Inr cl"
| "CopySwitchesFrom source (s # ss) cl =
     bind_result (HasSwitch s source) (\<lambda>has.
       if has then bind_result (GetSwitchValueNative s source)
                     (\<lambda>v. CopySwitchesFrom source ss (AppendSwitchNative s v cl))
       else CopySwitchesFrom source ss cl)"

definition GetArgs :: "CommandLine \<Rightarrow> string list" where
  "GetArgs cl = remove1 kSwitchTerminator (drop (begin_args cl) (argv cl))"

definition AppendArguments :: "CommandLine \<Rightarrow> bool \<Rightarrow> CommandLine \<Rightarrow> CommandLine" where
  "AppendArguments other include_program cl =
     AppendSwitchesAndArguments
       (if include_program then SetProgram (GetProgram other) cl else cl) (argv other)"

definition PrependWrapper :: "string \<Rightarrow> CommandLine \<Rightarrow> CommandLine result" where
  "PrependWrapper wrapper cl =
     (if wrapper = [] then Inr cl
      else bind_result (SplitString wrapper '' '' TRIM_WHITESPACE SPLIT_WANT_ALL) (\<lambda>wrapper_argv.
             Inr (cl\<lparr>argv := wrapper_argv @ argv cl,
                     begin_args := begin_args cl + length wrapper_argv\<rparr>)))"

fun arguments_loop :: "bool \<Rightarrow> string list \<Rightarrow> bool \<Rightarrow> string \<Rightarrow> string" where
  "arguments_loop parse_switches [] later params = params"
| "arguments_loop parse_switches (arg # args) later params =
     (let parse_switches = (parse_switches \<and> arg \<noteq> kSwitchTerminator);
          params = (if later then params @ '' '' else params);
          (is_switch, switch_string, switch_value) = IsSwitch arg
      in arguments_loop parse_switches args True
           (if parse_switches \<and> is_switch
            then params @ switch_string @
                 (if switch_value \<noteq> [] then kSwitchValueSeparator @ switch_value else [])
            else params @ arg))"

definition GetArgumentsStringInternal :: "CommandLine \<Rightarrow> string" where
  "GetArgumentsStringInternal cl = arguments_loop True (drop 1 (argv cl)) False []"

definition GetCommandLineStringInternal :: "CommandLine \<Rightarrow> string" where
  "GetCommandLineStringInternal cl =
     (let params = GetArgumentsStringInternal cl
      in if params \<noteq> [] then argv cl ! 0 @ '' '' @ params else argv cl ! 0)"

text \<open>The command line of the process, created once.\<close>

type_synonym current_process = "CommandLine option"

definition Init_process :: "string list \<Rightarrow> current_process \<Rightarrow> bool \<times> current_process" where
  "Init_process new_argv current =
     (case current of
        Some cl \<Rightarrow> (False, Some cl)
      | None \<Rightarrow> (True, Some (InitFromArgv new_argv CommandLine_no_program)))"

definition Reset :: "current_process \<Rightarrow> current_process result" where
  "Reset current = (case current of None \<Rightarrow> Inl Check_Failed | Some cl \<Rightarrow> Inr None)"

definition ForCurrentProcess :: "current_process \<Rightarrow> CommandLine result" where
  "ForCurrentProcess current = (case current of None \<Rightarrow> Inl Check_Failed | Some cl \<Rightarrow> Inr cl)"

section \<open>Reading an argument vector\<close>

abbreviation trimmed :: "string \<Rightarrow> string" where
  "trimmed \<equiv> trim_spec (set kWhitespaceASCII) TRIM_ALL"

definition is_switch :: "string \<Rightarrow> bool" where
  "is_switch arg = fst (IsSwitch arg)"

text \<open>The name, the value and the text of a switch as the object keeps it.\<close>

definition switch_pair :: "string \<Rightarrow> string \<times> string" where
  "switch_pair arg = (case IsSwitch arg of (_, s, v) \<Rightarrow> (drop (GetSwitchPrefixLength s) s, v))"

definition switch_text :: "string \<Rightarrow> string" where
  "switch_text arg = (case IsSwitch arg of (_, s, v) \<Rightarrow> if v \<noteq> [] then s @ ''='' @ v else s)"

text \<open>The arguments up to the first terminator, and those from it on.\<close>

definition before_end :: "string list \<Rightarrow> string list" where
  "before_end args = takeWhile (\<lambda>a. a \<noteq> kSwitchTerminator) args"

definition from_end :: "string list \<Rightarrow> string list" where
  "from_end args = dropWhile (\<lambda>a. a \<noteq> kSwitchTerminator) args"

lemma trim_arg_eq: "length a < npos \<Longrightarrow> trim_arg a = trimmed a"
  by (simp add: trim_arg_def TrimWhitespaceASCII_def trim8.trim_output Let_def)

lemma prefix_length_cases:
  "GetSwitchPrefixLength s = (if take 2 s = ''--'' then 2 else if take 1 s = ''-'' then 1 else 0)"
  by (simp add: GetSwitchPrefixLength_def kSwitchPrefixes_def numeral_2_eq_2)

lemma find_separator:
  "CHR ''='' \<notin> set s \<Longrightarrow> std_string_find s ''='' 0 = None"
  "CHR ''='' \<notin> set s \<Longrightarrow> std_string_find (s @ CHR ''='' # v) ''='' 0 = Some (length s)"
proof -
  assume s: "CHR ''='' \<notin> set s"
  show "std_string_find s ''='' 0 = None"
  proof (rule is_first_unique [OF std_string_find_first])
    show "is_first (occurs_at s ''='') 0 (Suc (length s)) None"
      using s nth_mem by (fastforce simp: is_first_def occurs_at_single)
  qed
  show "std_string_find (s @ CHR ''='' # v) ''='' 0 = Some (length s)"
  proof (rule is_first_unique [OF std_string_find_first])
    show "is_first (occurs_at (s @ CHR ''='' # v) ''='') 0 (Suc (length (s @ CHR ''='' # v))) (Some (length s))"
      using s nth_mem by (fastforce simp: is_first_def occurs_at_single nth_append)
  qed
qed

lemma prefix_length_separator:
  "GetSwitchPrefixLength (s @ CHR ''='' # v) > 0 \<Longrightarrow> GetSwitchPrefixLength s > 0"
proof (cases s)
  case (Cons c s')
  assume "GetSwitchPrefixLength (s @ CHR ''='' # v) > 0"
  then show ?thesis using Cons by (cases s') (auto simp: prefix_length_cases split: if_splits)
qed (simp add: prefix_length_cases)

lemma IsSwitch_cases:
  assumes "is_switch a" "length a < npos"
  obtains (bare) "IsSwitch a = (True, a, [])" "CHR ''='' \<notin> set a" "switch_text a = a"
  | (valued) s v where "IsSwitch a = (True, s, v)" "a = s @ CHR ''='' # v" "CHR ''='' \<notin> set s"
      "GetSwitchPrefixLength s > 0"
proof (cases "CHR ''='' \<in> set a")
  case False
  with assms have "IsSwitch a = (True, a, [])"
    by (auto simp: is_switch_def IsSwitch_def Let_def find_separator split: if_splits)
  with False show ?thesis using bare by (simp add: switch_text_def)
next
  case True
  then obtain s v where a: "a = s @ CHR ''='' # v" "CHR ''='' \<notin> set s"
    by (meson split_list_first)
  have pos: "GetSwitchPrefixLength a > 0"
    using assms(1) by (auto simp: is_switch_def IsSwitch_def Let_def split: if_splits)
  have "IsSwitch a = (True, s, v)"
    using assms a(2) find_separator(2) [OF a(2), of v] unfolding a(1)
    by (auto simp: is_switch_def IsSwitch_def Let_def split: if_splits)
  then show ?thesis using valued a pos prefix_length_separator by metis
qed

lemma append_switch_text:
  assumes "is_switch a" "length a < npos"
  shows "\<exists>s v. IsSwitch a = (True, s, v) \<and> AppendSwitchNative s v cl =
    cl\<lparr>argv := take (begin_args cl) (argv cl) @ [switch_text a] @ drop (begin_args cl) (argv cl),
       switches := (switches cl)(fst (switch_pair a) \<mapsto> snd (switch_pair a)),
       by_piece := (by_piece cl)(fst (switch_pair a) \<mapsto> fst (switch_pair a)),
       begin_args := begin_args cl + 1\<rparr>"
proof -
  have "\<exists>s v. IsSwitch a = (True, s, v) \<and> GetSwitchPrefixLength s > 0 \<and> length s < npos" (is ?ex)
  proof (rule IsSwitch_cases [OF assms])
    assume "IsSwitch a = (True, a, [])"
    moreover have "GetSwitchPrefixLength a > 0"
      using assms(1) by (auto simp: is_switch_def IsSwitch_def Let_def split: if_splits)
    ultimately show ?thesis using assms(2) by blast
  qed (use assms(2) in auto)
  then obtain s v where sv: "IsSwitch a = (True, s, v)" "GetSwitchPrefixLength s > 0" "length s < npos"
    by blast
  then have "switch_text a = (if v \<noteq> [] then s @ ''='' @ v else s)"
    "switch_pair a = (drop (GetSwitchPrefixLength s) s, v)"
    by (simp_all add: switch_text_def switch_pair_def)
  then have "AppendSwitchNative s v cl =
    cl\<lparr>argv := take (begin_args cl) (argv cl) @ [switch_text a] @ drop (begin_args cl) (argv cl),
       switches := (switches cl)(fst (switch_pair a) \<mapsto> snd (switch_pair a)),
       by_piece := (by_piece cl)(fst (switch_pair a) \<mapsto> fst (switch_pair a)),
       begin_args := begin_args cl + 1\<rparr>"
    using sv(2,3) by (simp add: AppendSwitchNative_def Let_def)
  with sv(1) show ?thesis by blast
qed

text \<open>Appending arguments adds the switches behind the old switches and the rest at the end.\<close>

definition add_switches :: "string list \<Rightarrow> string list \<Rightarrow> CommandLine \<Rightarrow> CommandLine" where
  "add_switches S A cl =
     cl\<lparr>argv := take (begin_args cl) (argv cl) @ map switch_text S @ drop (begin_args cl) (argv cl) @ A,
        switches := switches cl ++ map_of (rev (map switch_pair S)),
        by_piece := by_piece cl ++ map_of (rev (map (\<lambda>a. (fst (switch_pair a), fst (switch_pair a))) S)),
        begin_args := begin_args cl + length S\<rparr>"

lemma add_switches_Nil [simp]: "add_switches [] [] cl = cl"
  by (simp add: add_switches_def)

lemma add_switches_arg:
  "begin_args cl \<le> length (argv cl) \<Longrightarrow>
   add_switches S A (AppendArgNative a cl) = add_switches S (a # A) cl"
  by (simp add: add_switches_def AppendArgNative_def)

lemma map_add_upd_left: "m ++ (map_of xs)(k \<mapsto> v) = (m ++ map_of xs)(k \<mapsto> v)"
  by simp

lemma add_switches_switch:
  assumes "begin_args cl \<le> length (argv cl)" "is_switch a" "length a < npos"
    and "IsSwitch a = (True, s, v)"
  shows "add_switches S A (AppendSwitchNative s v cl) = add_switches (a # S) A cl"
proof -
  have "(m(k \<mapsto> w)) ++ n = m ++ (map_of [(k, w)] ++ n)" for m n :: "string \<rightharpoonup> string" and k w
    by (simp add: map_add_assoc [symmetric] map_add_upd)
  then show ?thesis
    using append_switch_text [OF assms(2,3), of cl] assms(1,4)
    by (auto simp: add_switches_def map_of_append [symmetric] simp del: map_of_append)
      (simp_all add: map_of_append)
qed

fun classify :: "bool \<Rightarrow> string list \<Rightarrow> string list \<times> string list" where
  "classify p [] = ([], [])"
| "classify p (a # as) =
     (let p = (p \<and> a \<noteq> kSwitchTerminator); (S, A) = classify p as
      in if p \<and> is_switch a then (a # S, A) else (S, a # A))"

lemma classify_False: "classify False as = ([], as)"
  by (induction as) auto

lemma classify_True:
  "classify True as = (filter is_switch (before_end as),
     filter (\<lambda>a. \<not> is_switch a) (before_end as) @ from_end as)"
  by (induction as) (auto simp: before_end_def from_end_def classify_False)

lemma trimmed_length: "length (trimmed a) \<le> length a"
proof -
  have "length (rev (dropWhile P (rev (dropWhile P a)))) \<le> length a" for P
    using length_dropWhile_le [of P "rev (dropWhile P a)"] length_dropWhile_le [of P a] by simp
  then show ?thesis by (simp add: trim_spec_def has_leading_def has_trailing_def Let_def)
qed

lemma append_loop_eq:
  assumes "\<forall>a \<in> set args. length a < npos" "begin_args cl \<le> length (argv cl)"
  shows "append_loop p args cl =
    add_switches (fst (classify p (map trimmed args))) (snd (classify p (map trimmed args))) cl"
  using assms
proof (induction p args cl rule: append_loop.induct)
  case (2 p a args cl)
  let ?a = "trimmed a"
  have a: "trim_arg a = ?a" "length ?a < npos"
    using 2(2) trimmed_length [of a] by (auto simp: trim_arg_eq)
  let ?p = "p \<and> ?a \<noteq> kSwitchTerminator"
  obtain sw s v where isw: "IsSwitch ?a = (sw, s, v)" by (metis prod_cases3)
  then have sw: "is_switch ?a = sw" by (simp add: is_switch_def)
  let ?cl = "if ?p \<and> sw then AppendSwitchNative s v cl else AppendArgNative ?a cl"
  have "begin_args ?cl \<le> length (argv ?cl)"
    using 2(3) by (auto simp: AppendArgNative_def AppendSwitchNative_def Let_def)
  then have IH: "append_loop ?p args ?cl =
      add_switches (fst (classify ?p (map trimmed args))) (snd (classify ?p (map trimmed args))) ?cl"
    using 2 a isw by auto
  have step: "append_loop p (a # args) cl = append_loop ?p args ?cl"
    using a(1) isw by (simp add: Let_def)
  show ?case
  proof (cases "?p \<and> sw")
    case True
    then show ?thesis unfolding step IH
      using add_switches_switch [OF 2(3) _ a(2), of s v] isw sw by (simp add: Let_def case_prod_beta)
  next
    case False
    then show ?thesis unfolding step IH
      using add_switches_arg [OF 2(3)] sw by (auto simp: Let_def case_prod_beta)
  qed
qed simp

section \<open>Properties\<close>

lemma FilePath_eq: "FilePath s = takeWhile (\<lambda>c. c \<noteq> CHR 0x00) s"
proof (cases "CHR 0x00 \<in> set s")
  case True
  then obtain p q where s: "s = p @ CHR 0x00 # q" "CHR 0x00 \<notin> set p" by (meson split_list_first)
  have "is_first (\<lambda>i. s ! i \<in> set [CHR 0x00]) 0 (length s) (Some (length p))"
    using s nth_mem by (fastforce simp: is_first_def nth_append)
  then have "std_string_find_first_of s [CHR 0x00] 0 = Some (length p)"
    unfolding std_string_find_first_of_def by (rule is_first_unique [OF scan_forward_first])
  moreover have "takeWhile (\<lambda>c. c \<noteq> CHR 0x00) s = p"
    using s by (subst s(1), subst takeWhile_append2) auto
  ultimately show ?thesis using s by (simp add: FilePath_def)
next
  case False
  have "is_first (\<lambda>i. s ! i \<in> set [CHR 0x00]) 0 (length s) None"
    using False nth_mem by (fastforce simp: is_first_def)
  then have "std_string_find_first_of s [CHR 0x00] 0 = None"
    unfolding std_string_find_first_of_def by (rule is_first_unique [OF scan_forward_first])
  moreover have "takeWhile (\<lambda>c. c \<noteq> CHR 0x00) s = s"
    using False by (intro takeWhile_eq_all_conv [THEN iffD2]) auto
  ultimately show ?thesis by (simp only: FilePath_def option.case)
qed

text \<open>The switches and the other arguments of an argument vector, in their order.\<close>

abbreviation switch_args :: "string list \<Rightarrow> string list" where
  "switch_args args \<equiv> filter is_switch (before_end (map trimmed args))"

abbreviation other_args :: "string list \<Rightarrow> string list" where
  "other_args args \<equiv> filter (\<lambda>a. \<not> is_switch a) (before_end (map trimmed args))"

lemma InitFromArgv_eq:
  assumes "\<forall>a \<in> set (prog # args). length a < npos"
  shows "InitFromArgv (prog # args) cl =
    add_switches (switch_args args) (other_args args @ from_end (map trimmed args))
      \<lparr>argv = [trimmed (FilePath prog)], switches = Map.empty, by_piece = Map.empty, begin_args = 1\<rparr>"
proof -
  have "length (FilePath prog) < npos"
    using assms length_takeWhile_le [of _ prog] by (auto simp: FilePath_eq intro: le_less_trans)
  then show ?thesis using assms
    by (simp add: InitFromArgv_def SetProgram_def AppendSwitchesAndArguments_def trim_arg_eq Let_def
        append_loop_eq classify_True)
qed





subsection \<open>Reading the kept vector again\<close>

text \<open>A switch written with a separator and no value, which the object keeps without the separator.\<close>

definition dangling :: "string \<Rightarrow> bool" where
  "dangling a \<longleftrightarrow> is_switch a \<and> CHR ''='' \<in> set a \<and> snd (switch_pair a) = []"

lemma switch_text_id:
  assumes "is_switch a" "length a < npos" "\<not> dangling a"
  shows "switch_text a = a"
proof (rule IsSwitch_cases [OF assms(1,2)])
  fix s v
  assume a: "IsSwitch a = (True, s, v)" "a = s @ CHR ''='' # v"
  then have "v \<noteq> []" using assms(1,3) by (auto simp: dangling_def switch_pair_def)
  with a show ?thesis by (simp add: switch_text_def)
qed

lemma trim_spec_idem: "trim_spec A TRIM_ALL (trim_spec A TRIM_ALL xs) = trim_spec A TRIM_ALL xs"
proof (cases "\<forall>c \<in> set xs. c \<in> A")
  case True
  then show ?thesis by (simp add: trim_spec_all)
next
  case False
  with trim_decomp [of xs A] obtain l m r where d: "xs = l @ m @ r" "set l \<subseteq> A" "set r \<subseteq> A" "m \<noteq> []"
    "hd m \<notin> A" "last m \<notin> A" by blast
  then have "trim_spec A TRIM_ALL xs = m"
    unfolding d(1) trim_spec_decomp [OF d(2-6)] by (simp add: has_leading_def has_trailing_def)
  moreover have "trim_spec A TRIM_ALL m = m"
    using trim_spec_decomp [of "[]" A "[]" m] d(4-6) by simp
  ultimately show ?thesis by simp
qed

lemma trimmed_subset: "set (trimmed a) \<subseteq> set a"
  by (auto simp: trim_spec_def has_leading_def has_trailing_def Let_def dest!: set_dropWhileD)

lemma program_idem: "trimmed (FilePath (trimmed (FilePath p))) = trimmed (FilePath p)"
proof -
  have "CHR 0x00 \<notin> set (FilePath p)" unfolding FilePath_eq by (auto dest: set_takeWhileD)
  then have "\<forall>c \<in> set (trimmed (FilePath p)). c \<noteq> CHR 0x00" using trimmed_subset by blast
  then have "FilePath (trimmed (FilePath p)) = trimmed (FilePath p)"
    unfolding FilePath_eq by (intro takeWhile_eq_all_conv [THEN iffD2])
  then show ?thesis by (simp add: trim_spec_idem)
qed

lemma before_end_reorder:
  fixes as
  defines "S \<equiv> filter is_switch (before_end as)" and "N \<equiv> filter (\<lambda>a. \<not> is_switch a) (before_end as)"
  shows "before_end (S @ N @ from_end as) = S @ N" "from_end (S @ N @ from_end as) = from_end as"
proof -
  have clean: "\<forall>a \<in> set (S @ N). a \<noteq> kSwitchTerminator"
    unfolding S_def N_def before_end_def by (auto dest: set_takeWhileD)
  have hd: "from_end as = [] \<or> hd (from_end as) = kSwitchTerminator"
    unfolding from_end_def using hd_dropWhile [of "\<lambda>a. a \<noteq> kSwitchTerminator" as] by auto
  have E: "takeWhile (\<lambda>a. a \<noteq> kSwitchTerminator) (from_end as) = []"
    "dropWhile (\<lambda>a. a \<noteq> kSwitchTerminator) (from_end as) = from_end as"
    using hd by (cases "from_end as"; simp)+
  have "takeWhile (\<lambda>a. a \<noteq> kSwitchTerminator) ((S @ N) @ from_end as) = S @ N"
    using clean E by (subst takeWhile_append2) auto
  then show "before_end (S @ N @ from_end as) = S @ N" by (simp add: before_end_def)
  have "dropWhile (\<lambda>a. a \<noteq> kSwitchTerminator) ((S @ N) @ from_end as) = from_end as"
    using clean E by (subst dropWhile_append2) auto
  then show "from_end (S @ N @ from_end as) = from_end as" by (simp add: from_end_def)
qed

lemma before_from: "set (before_end as) \<subseteq> set as" "set (from_end as) \<subseteq> set as"
  by (auto simp: before_end_def from_end_def dest: set_takeWhileD set_dropWhileD)

text \<open>
  The vector the object keeps is a faithful record: reading it again gives the same object,
  switches, values, divider and arguments alike, unless an argument is a switch with a separator and
  no value.
\<close>

theorem reparse_idempotent:
  assumes "\<forall>a \<in> set (prog # args). length a < npos" "\<forall>a \<in> set args. \<not> dangling (trimmed a)"
  shows "CommandLine_of (argv (CommandLine_of (prog # args))) = CommandLine_of (prog # args)"
proof -
  let ?t = "map trimmed args"
  let ?S = "switch_args args" and ?N = "other_args args" and ?E = "from_end ?t"
  have short: "length (trimmed a) < npos" if "a \<in> set args" for a
    using that assms(1) le_less_trans [OF trimmed_length] by auto
  have text_id: "map switch_text ?S = ?S"
  proof (rule map_idI)
    fix a
    assume "a \<in> set ?S"
    then obtain b where "b \<in> set args" "a = trimmed b" "is_switch a" using before_from(1) [of ?t] by auto
    then show "switch_text a = a" using short assms(2) by (intro switch_text_id) auto
  qed
  have sub: "set (?S @ ?N @ ?E) \<subseteq> trimmed ` set args"
    using before_from [of ?t] by auto
  then have trim: "map trimmed (?S @ ?N @ ?E) = ?S @ ?N @ ?E"
    by (intro map_idI) (auto simp: trim_spec_idem)
  have lens: "\<forall>a \<in> set (trimmed (FilePath prog) # ?S @ ?N @ ?E). length a < npos"
  proof -
    have "length (trimmed (FilePath prog)) \<le> length prog"
      using le_trans [OF trimmed_length length_takeWhile_le] by (simp add: FilePath_eq)
    then show ?thesis using assms(1) sub short by (auto dest!: subsetD [OF sub])
  qed
  have argv: "argv (CommandLine_of (prog # args)) = trimmed (FilePath prog) # ?S @ ?N @ ?E"
    unfolding CommandLine_of_def InitFromArgv_eq [OF assms(1)] by (simp add: add_switches_def text_id)
  have SN: "filter is_switch ?S = ?S" "filter (\<lambda>a. \<not> is_switch a) ?S = []"
    "filter is_switch ?N = []" "filter (\<lambda>a. \<not> is_switch a) ?N = ?N"
    by (simp_all add: filter_empty_conv)
  show ?thesis
    unfolding argv unfolding CommandLine_of_def InitFromArgv_eq [OF lens] InitFromArgv_eq [OF assms(1)] trim
      before_end_reorder program_idem filter_append SN by simp
qed

theorem reparse_idempotent_witness:
  "CommandLine_of (argv (CommandLine_of [''service'', ''8080'', ''-v''])) =
   CommandLine_of [''service'', ''8080'', ''-v'']"
proof (rule reparse_idempotent)
  show "\<forall>a \<in> set [''service'', ''8080'', ''-v'']. length a < npos" by (simp add: npos_def)
  have "map trimmed [''8080'', ''-v''] = [''8080'', ''-v'']" by code_simp
  then show "\<forall>a \<in> set [''8080'', ''-v'']. \<not> dangling (trimmed a)" by (simp add: dangling_def)
qed

text \<open>
  The exception is real: \<^verbatim>\<open>--=\<close> is a switch with an empty name, kept as \<^verbatim>\<open>--\<close>, which a second
  reading takes for the terminator, so that the switches behind it become arguments.
\<close>

lemma reparse_dangling:
  "argv (CommandLine_of [''service'', ''--='', ''-v'']) = [''service'', ''--'', ''-v''] \<and>
   GetArgs (CommandLine_of [''service'', ''--='', ''-v'']) = [] \<and>
   GetArgs (CommandLine_of (argv (CommandLine_of [''service'', ''--='', ''-v'']))) = [''-v'']"
proof -
  have fp: "FilePath ''service'' = ''service''" by (simp add: FilePath_eq)
  have t: "map trimmed [''--='', ''-v''] = [''--='', ''-v'']" "map trimmed [''--'', ''-v''] = [''--'', ''-v'']"
    "trimmed ''service'' = ''service''" by code_simp+
  have sw: "IsSwitch ''--='' = (True, ''--'', [])" "IsSwitch ''-v'' = (True, ''-v'', [])"
    using find_separator(2) [of "''--''" "[]"] find_separator(1) [of "''-v''"]
    by (simp_all add: IsSwitch_def prefix_length_cases npos_def)
  have l: "\<forall>a \<in> set [''service'', ''--='', ''-v'']. length a < npos"
    "\<forall>a \<in> set [''service'', ''--'', ''-v'']. length a < npos" by (simp_all add: npos_def)
  have argv: "argv (CommandLine_of [''service'', ''--='', ''-v'']) = [''service'', ''--'', ''-v'']"
    unfolding CommandLine_of_def InitFromArgv_eq [OF l(1)] t fp
    by (simp add: add_switches_def before_end_def from_end_def is_switch_def switch_text_def sw)
  moreover have "GetArgs (CommandLine_of [''service'', ''--='', ''-v'']) = []"
    unfolding CommandLine_of_def InitFromArgv_eq [OF l(1)] t fp
    by (simp add: add_switches_def GetArgs_def before_end_def from_end_def is_switch_def sw)
  moreover have "GetArgs (CommandLine_of [''service'', ''--'', ''-v'']) = [''-v'']"
    unfolding CommandLine_of_def InitFromArgv_eq [OF l(2)] t fp
    by (simp add: add_switches_def GetArgs_def before_end_def from_end_def is_switch_def sw)
  ultimately show ?thesis by simp
qed

subsection \<open>Invariant\<close>

text \<open>
  The divider lies inside the vector, behind the program, and the second map mirrors the first:
  every switch has exactly one pointer, to its own node.
\<close>

definition cl_invar :: "CommandLine \<Rightarrow> bool" where
  "cl_invar cl \<longleftrightarrow> 1 \<le> begin_args cl \<and> begin_args cl \<le> length (argv cl) \<and>
     by_piece cl = (\<lambda>k. if switches cl k = None then None else Some k)"

lemma invar_AppendArg: "cl_invar cl \<Longrightarrow> cl_invar (AppendArgNative a cl)"
  by (simp add: cl_invar_def AppendArgNative_def)

lemma invar_AppendSwitch: "cl_invar cl \<Longrightarrow> cl_invar (AppendSwitchNative s v cl)"
  by (auto simp: cl_invar_def AppendSwitchNative_def Let_def)

lemma invar_SetProgram: "cl_invar cl \<Longrightarrow> cl_invar (SetProgram p cl)"
  by (simp add: cl_invar_def SetProgram_def)

lemma invar_append_loop: "cl_invar cl \<Longrightarrow> cl_invar (append_loop p args cl)"
  by (induction p args cl rule: append_loop.induct)
    (auto simp: Let_def invar_AppendArg invar_AppendSwitch split: prod.splits)

lemma invar_Init: "cl_invar (InitFromArgv args cl)"
proof -
  have "cl_invar \<lparr>argv = [[]], switches = Map.empty, by_piece = Map.empty, begin_args = 1\<rparr>"
    by (simp add: cl_invar_def)
  then show ?thesis
    unfolding InitFromArgv_def AppendSwitchesAndArguments_def Let_def
    by (intro invar_append_loop invar_SetProgram)
qed

lemma invar_CopySwitches: "cl_invar cl \<Longrightarrow> CopySwitchesFrom src ss cl = Inr cl' \<Longrightarrow> cl_invar cl'"
  by (induction src ss cl rule: CopySwitchesFrom.induct)
    (auto simp: bind_result_Inr_iff invar_AppendSwitch split: if_splits)

text \<open>What a client may do with a command line.\<close>

inductive cl_step :: "CommandLine \<Rightarrow> CommandLine \<Rightarrow> bool" where
  "cl_step cl (AppendArgNative a cl)"
| "cl_step cl (AppendSwitchNative s v cl)"
| "cl_step cl (SetProgram p cl)"
| "cl_step cl (InitFromArgv args cl)"
| "cl_step cl (AppendArguments other b cl)"
| "cl_step cl (copy_of cl)"
| "CopySwitchesFrom src ss cl = Inr cl' \<Longrightarrow> cl_step cl cl'"
| "PrependWrapper w cl = Inr cl' \<Longrightarrow> cl_step cl cl'"

lemma cl_step_invar: "cl_step cl cl' \<Longrightarrow> cl_invar cl \<Longrightarrow> cl_invar cl'"
proof (induction rule: cl_step.induct)
  case (5 cl other b)
  then show ?case
    unfolding AppendArguments_def AppendSwitchesAndArguments_def
    by (intro invar_append_loop) (simp add: invar_SetProgram)
next
  case (6 cl)
  then show ?case by (simp add: cl_invar_def copy_of_def ResetStringPieces_def)
next
  case (8 w cl cl')
  then show ?case by (auto simp: PrependWrapper_def bind_result_Inr_iff cl_invar_def split: if_splits)
qed (auto simp: invar_AppendArg invar_AppendSwitch invar_SetProgram invar_Init intro: invar_CopySwitches)

lemma lookup_invar:
  assumes "cl_invar cl" "ToLowerASCIIImpl val8 mk8 k = k"
  shows "HasSwitch k cl = Inr (switches cl k \<noteq> None)"
    "GetSwitchValueNative k cl = Inr (case switches cl k of None \<Rightarrow> [] | Some v \<Rightarrow> v)"
  using assms by (auto simp: cl_invar_def HasSwitch_def GetSwitchValueNative_def split: option.splits)

text \<open>
  C23. Whatever sequence of operations a client performs on a new command line, copies and wrappers
  included, the divider stays inside the vector and no lookup follows a dangling pointer: it
  answers from the map of switches. A switch just appended is found with its value, under its name
  without the dashes, and the other switches keep theirs.
\<close>

theorem command_line_invariant:
  assumes "cl_step\<^sup>*\<^sup>* CommandLine_no_program cl" "ToLowerASCIIImpl val8 mk8 k = k"
    and "length s < npos"
  shows "1 \<le> begin_args cl \<and> begin_args cl \<le> length (argv cl) \<and>
    HasSwitch k cl = Inr (switches cl k \<noteq> None) \<and>
    GetSwitchValueNative k cl = Inr (case switches cl k of None \<Rightarrow> [] | Some v \<Rightarrow> v) \<and>
    GetSwitchValueNative k (AppendSwitchNative s v cl) =
      (if k = drop (GetSwitchPrefixLength s) s then Inr v else GetSwitchValueNative k cl)"
proof -
  have "cl_invar CommandLine_no_program" by (simp add: cl_invar_def CommandLine_no_program_def)
  with assms(1) have inv: "cl_invar cl"
    by (induction rule: rtranclp_induct) (auto intro: cl_step_invar)
  have "switches (AppendSwitchNative s v cl) = (switches cl)(drop (GetSwitchPrefixLength s) s \<mapsto> v)"
    using assms(3) by (simp add: AppendSwitchNative_def Let_def)
  then show ?thesis
    using inv lookup_invar [OF inv assms(2)] lookup_invar [OF invar_AppendSwitch [OF inv] assms(2)]
    by (auto simp: cl_invar_def)
qed

theorem command_line_invariant_witness:
  "GetSwitchValueNative ''port'' (AppendSwitchNative ''--port'' ''8080''
     (AppendArgNative ''x'' CommandLine_no_program)) = Inr ''8080''"
proof -
  have "cl_step\<^sup>*\<^sup>* CommandLine_no_program (AppendArgNative ''x'' CommandLine_no_program)"
    by (rule r_into_rtranclp) (rule cl_step.intros)
  moreover have "ToLowerASCIIImpl val8 mk8 ''port'' = ''port''" by code_simp
  moreover have "length ''--port'' < npos" by (simp add: npos_def)
  ultimately show ?thesis
    using command_line_invariant [of "AppendArgNative ''x'' CommandLine_no_program" "''port''"
        "''--port''" "''8080''"] by (simp add: prefix_length_cases)
qed

end
