(* ===== verification/Number_Conversions.thy ===== *)
theory Number_Conversions
  imports String_Util
begin

unbundle bit_operations_syntax

text \<open>
  base/strings/string_number_conversions.cc: integers to decimal text, text to integers in base
  ten and sixteen, and hexadecimal dumps of bytes.

  The templates are instantiated for \<^verbatim>\<open>int\<close>, \<^verbatim>\<open>unsigned\<close>, \<^verbatim>\<open>int64_t\<close>, \<^verbatim>\<open>uint64_t\<close> and \<^verbatim>\<open>size_t\<close>,
  so a definition takes the type as a record of its size and signedness; a value is an integer in
  the range of the type, and every assignment to \<^verbatim>\<open>*output\<close> reduces to that range (\<open>wrap_to\<close>).
  The characters are those of \<open>String_Util\<close>. \<^verbatim>\<open>isspace\<close> and \<^verbatim>\<open>iswspace\<close> depend on the locale of the
  process and are an argument. A failed \<^verbatim>\<open>DCHECK\<close> is the fault \<^const>\<open>Check_Failed\<close>, as in a build
  that has them enabled.
\<close>

section \<open>Integer types\<close>

record int_type =
  sizeof :: nat
  is_signed :: bool

definition int_t :: int_type where
  "int_t = \<lparr>sizeof = 4, is_signed = True\<rparr>"

definition uint_t :: int_type where
  "uint_t = \<lparr>sizeof = 4, is_signed = False\<rparr>"

definition int64_t :: int_type where
  "int64_t = \<lparr>sizeof = 8, is_signed = True\<rparr>"

definition uint64_t :: int_type where
  "uint64_t = \<lparr>sizeof = 8, is_signed = False\<rparr>"

definition size_type :: int_type where
  "size_type = \<lparr>sizeof = 8, is_signed = False\<rparr>"

definition bits_of :: "int_type \<Rightarrow> nat" where
  "bits_of ty = 8 * sizeof ty"

definition traits_min :: "int_type \<Rightarrow> int" where
  "traits_min ty = (if is_signed ty then - (2 ^ (bits_of ty - 1)) else 0)"

definition traits_max :: "int_type \<Rightarrow> int" where
  "traits_max ty = (if is_signed ty then 2 ^ (bits_of ty - 1) - 1 else 2 ^ bits_of ty - 1)"

definition wrap_to :: "int_type \<Rightarrow> int \<Rightarrow> int" where
  "wrap_to ty x = (if is_signed ty then signed_take_bit (bits_of ty - 1) x else take_bit (bits_of ty) x)"

definition in_type :: "int_type \<Rightarrow> int \<Rightarrow> bool" where
  "in_type ty x \<longleftrightarrow> traits_min ty \<le> x \<and> x \<le> traits_max ty"

lemmas int_types = int_t_def uint_t_def int64_t_def uint64_t_def size_type_def

lemma wrap_to_id: "sizeof ty > 0 \<Longrightarrow> in_type ty x \<Longrightarrow> wrap_to ty x = x"
  by (auto simp: in_type_def traits_min_def traits_max_def wrap_to_def
      intro: signed_take_bit_int_eq_self take_bit_int_eq_self)

text \<open>The remainder that goes with division towards zero.\<close>

definition crem :: "int \<Rightarrow> int \<Rightarrow> int" where
  "crem a b = a - quot32 a b * b"

section \<open>Numbers to text\<close>

text \<open>\<^verbatim>\<open>CheckedUnsignedAbs\<close> and \<^verbatim>\<open>IsValueNegative\<close> of base/numerics.\<close>

definition CheckedUnsignedAbs :: "int_type \<Rightarrow> int \<Rightarrow> int" where
  "CheckedUnsignedAbs ty v =
     (if \<not> is_signed ty then v
      else if v = traits_min ty then take_bit (bits_of ty) (traits_max ty + 1)
      else take_bit (bits_of ty) \<bar>v\<bar>)"

definition IsValueNegative :: "int_type \<Rightarrow> int \<Rightarrow> bool" where
  "IsValueNegative ty v = (if is_signed ty then v < 0 else False)"

text \<open>
  The buffer is filled from its end; a cell that was never written is \<^const>\<open>None\<close>. \<open>put_back\<close> is
  the decrement of \<^verbatim>\<open>i\<close>, the check and the write.
\<close>

definition put_back :: "'c \<Rightarrow> nat \<Rightarrow> 'c option list \<Rightarrow> (nat \<times> 'c option list) result" where
  "put_back c i outbuf =
     (if i = 0 \<or> i > length outbuf then Inl Out_Of_Bounds
      else if i - 1 = 0 then Inl Check_Failed
      else Inr (i - 1, outbuf[i - 1 := Some c]))"

function int_to_string_loop ::
  "(int \<Rightarrow> 'c) \<Rightarrow> int \<Rightarrow> nat \<Rightarrow> 'c option list \<Rightarrow> (nat \<times> 'c option list) result" where
  "int_to_string_loop mk res i outbuf =
     (case put_back (mk (res mod 10 + 48)) i outbuf of
        Inl e \<Rightarrow> Inl e
      | Inr (i', outbuf') \<Rightarrow>
          if res div 10 \<noteq> 0 then int_to_string_loop mk (res div 10) i' outbuf' else Inr (i', outbuf'))"
  by pat_completeness auto

termination
  by (relation "measure (\<lambda>(mk, res, i, outbuf). i)") (auto simp: put_back_def split: if_splits)

declare int_to_string_loop.simps [simp del]

definition read_cells :: "'c option list \<Rightarrow> 'c list result" where
  "read_cells cells = (if None \<in> set cells then Inl Uninitialised else Inr (map the cells))"

definition kOutputBufSize :: "int_type \<Rightarrow> nat" where
  "kOutputBufSize ty = 3 * sizeof ty + (if is_signed ty then 1 else 0)"

definition IntToStringT :: "(int \<Rightarrow> 'c) \<Rightarrow> int_type \<Rightarrow> int \<Rightarrow> 'c list result" where
  "IntToStringT mk ty v =
     bind_result (int_to_string_loop mk (CheckedUnsignedAbs ty v) (kOutputBufSize ty)
                    (replicate (kOutputBufSize ty) None)) (\<lambda>(i, outbuf).
     bind_result (if IsValueNegative ty v then put_back (mk 45) i outbuf else Inr (i, outbuf)) (\<lambda>(i, outbuf).
     read_cells (drop i outbuf)))"

definition IntToString :: "int \<Rightarrow> string result" where
  "IntToString = IntToStringT mk8 int_t"

definition IntToString16 :: "int \<Rightarrow> 16 word list result" where
  "IntToString16 = IntToStringT mk16 int_t"

definition UintToString :: "int \<Rightarrow> string result" where
  "UintToString = IntToStringT mk8 uint_t"

definition UintToString16 :: "int \<Rightarrow> 16 word list result" where
  "UintToString16 = IntToStringT mk16 uint_t"

definition Int64ToString :: "int \<Rightarrow> string result" where
  "Int64ToString = IntToStringT mk8 int64_t"

definition Int64ToString16 :: "int \<Rightarrow> 16 word list result" where
  "Int64ToString16 = IntToStringT mk16 int64_t"

definition Uint64ToString :: "int \<Rightarrow> string result" where
  "Uint64ToString = IntToStringT mk8 uint64_t"

definition Uint64ToString16 :: "int \<Rightarrow> 16 word list result" where
  "Uint64ToString16 = IntToStringT mk16 uint64_t"

definition SizeTToString :: "int \<Rightarrow> string result" where
  "SizeTToString = IntToStringT mk8 size_type"

definition SizeTToString16 :: "int \<Rightarrow> 16 word list result" where
  "SizeTToString16 = IntToStringT mk16 size_type"

section \<open>Text to numbers\<close>

text \<open>The digit is a \<^verbatim>\<open>uint8_t\<close>; \<^const>\<open>None\<close> is the result \<^verbatim>\<open>false\<close>.\<close>

definition Convert_le10 :: "('c \<Rightarrow> int) \<Rightarrow> int \<Rightarrow> 'c \<Rightarrow> int option" where
  "Convert_le10 val base c =
     (if val c \<ge> 48 \<and> val c < 48 + base then Some ((val c - 48) mod 256) else None)"

definition Convert_gt10 :: "('c \<Rightarrow> int) \<Rightarrow> int \<Rightarrow> 'c \<Rightarrow> int option" where
  "Convert_gt10 val base c =
     (if val c \<ge> 48 \<and> val c \<le> 57 then Some ((val c - 48) mod 256)
      else if val c \<ge> 97 \<and> val c < 97 + base - 10 then Some ((val c - 97 + 10) mod 256)
      else if val c \<ge> 65 \<and> val c < 65 + base - 10 then Some ((val c - 65 + 10) mod 256)
      else None)"

definition CharToDigit :: "('c \<Rightarrow> int) \<Rightarrow> int \<Rightarrow> 'c \<Rightarrow> int option" where
  "CharToDigit val base c = (if base \<le> 10 then Convert_le10 val base c else Convert_gt10 val base c)"

text \<open>\<^verbatim>\<open>CheckBounds\<close> returns its verdict and the new \<^verbatim>\<open>*output\<close>.\<close>

definition Positive_CheckBounds :: "int_type \<Rightarrow> int \<Rightarrow> int \<Rightarrow> int \<Rightarrow> bool \<times> int" where
  "Positive_CheckBounds ty base out new_digit =
     (if out > quot32 (traits_max ty) base \<or>
         (out = quot32 (traits_max ty) base \<and> new_digit > crem (traits_max ty) base)
      then (False, traits_max ty) else (True, out))"

definition Positive_Increment :: "int_type \<Rightarrow> int \<Rightarrow> int \<Rightarrow> int" where
  "Positive_Increment ty increment out = wrap_to ty (out + increment)"

definition Negative_CheckBounds :: "int_type \<Rightarrow> int \<Rightarrow> int \<Rightarrow> int \<Rightarrow> bool \<times> int" where
  "Negative_CheckBounds ty base out new_digit =
     (if out < quot32 (traits_min ty) base \<or>
         (out = quot32 (traits_min ty) base \<and> new_digit > 0 - crem (traits_min ty) base)
      then (False, traits_min ty) else (True, out))"

definition Negative_Increment :: "int_type \<Rightarrow> int \<Rightarrow> int \<Rightarrow> int" where
  "Negative_Increment ty increment out = wrap_to ty (out - increment)"

text \<open>The loop of \<^verbatim>\<open>Base<Sign>::Invoke\<close>; \<open>at_begin\<close> is \<^verbatim>\<open>current == begin\<close>.\<close>

fun digits_loop ::
  "('c \<Rightarrow> int) \<Rightarrow> int \<Rightarrow> int_type \<Rightarrow> (int \<Rightarrow> int \<Rightarrow> bool \<times> int) \<Rightarrow> (int \<Rightarrow> int \<Rightarrow> int)
   \<Rightarrow> bool \<Rightarrow> int \<Rightarrow> 'c list \<Rightarrow> bool \<times> int" where
  "digits_loop val base ty CheckBounds Increment at_begin out [] = (True, out)"
| "digits_loop val base ty CheckBounds Increment at_begin out (c # cs) =
     (case CharToDigit val base c of
        None \<Rightarrow> (False, out)
      | Some new_digit \<Rightarrow>
          if at_begin
          then digits_loop val base ty CheckBounds Increment False (Increment new_digit out) cs
          else case CheckBounds out new_digit of
              (False, out') \<Rightarrow> (False, out')
            | (True, out') \<Rightarrow>
                digits_loop val base ty CheckBounds Increment False
                  (Increment new_digit (wrap_to ty (out' * base))) cs)"

definition skip_hex_prefix :: "('c \<Rightarrow> int) \<Rightarrow> int \<Rightarrow> 'c list \<Rightarrow> 'c list" where
  "skip_hex_prefix val base cs =
     (if base = 16 \<and> length cs > 2 \<and> val (cs ! 0) = 48 \<and> (val (cs ! 1) = 120 \<or> val (cs ! 1) = 88)
      then drop 2 cs else cs)"

definition Base_Invoke ::
  "('c \<Rightarrow> int) \<Rightarrow> int \<Rightarrow> int_type \<Rightarrow> (int \<Rightarrow> int \<Rightarrow> bool \<times> int) \<Rightarrow> (int \<Rightarrow> int \<Rightarrow> int)
   \<Rightarrow> 'c list \<Rightarrow> bool \<times> int" where
  "Base_Invoke val base ty CheckBounds Increment cs =
     (if cs = [] then (False, 0)
      else digits_loop val base ty CheckBounds Increment True 0 (skip_hex_prefix val base cs))"

definition Positive_Invoke :: "('c \<Rightarrow> int) \<Rightarrow> int \<Rightarrow> int_type \<Rightarrow> 'c list \<Rightarrow> bool \<times> int" where
  "Positive_Invoke val base ty =
     Base_Invoke val base ty (Positive_CheckBounds ty base) (Positive_Increment ty)"

definition Negative_Invoke :: "('c \<Rightarrow> int) \<Rightarrow> int \<Rightarrow> int_type \<Rightarrow> 'c list \<Rightarrow> bool \<times> int" where
  "Negative_Invoke val base ty =
     Base_Invoke val base ty (Negative_CheckBounds ty base) (Negative_Increment ty)"

text \<open>
  \<^verbatim>\<open>IteratorRangeToNumber::Invoke\<close>: the white space loop, the sign and the digits. The last
  argument is what \<^verbatim>\<open>*output\<close> held before the call.
\<close>

fun skip_whitespace :: "('c \<Rightarrow> bool) \<Rightarrow> bool \<Rightarrow> 'c list \<Rightarrow> bool \<times> 'c list" where
  "skip_whitespace LocalIsWhitespace valid [] = (valid, [])"
| "skip_whitespace LocalIsWhitespace valid (c # cs) =
     (if LocalIsWhitespace c then skip_whitespace LocalIsWhitespace False cs else (valid, c # cs))"

definition IteratorRangeToNumber ::
  "('c \<Rightarrow> int) \<Rightarrow> ('c \<Rightarrow> bool) \<Rightarrow> int \<Rightarrow> int_type \<Rightarrow> 'c list \<Rightarrow> int \<Rightarrow> bool \<times> int" where
  "IteratorRangeToNumber val LocalIsWhitespace base ty input out =
     (let (valid, cs) = skip_whitespace LocalIsWhitespace True input
      in if cs \<noteq> [] \<and> val (hd cs) = 45 then
           (if \<not> is_signed ty then (False, out)
            else let (ok, out') = Negative_Invoke val base ty (tl cs) in (valid \<and> ok, out'))
         else
           let cs' = (if cs \<noteq> [] \<and> val (hd cs) = 43 then tl cs else cs);
               (ok, out') = Positive_Invoke val base ty cs'
           in (valid \<and> ok, out'))"

definition StringToIntImpl :: "(char \<Rightarrow> bool) \<Rightarrow> int_type \<Rightarrow> string \<Rightarrow> int \<Rightarrow> bool \<times> int" where
  "StringToIntImpl isspace ty = IteratorRangeToNumber val8 isspace 10 ty"

definition String16ToIntImpl :: "(16 word \<Rightarrow> bool) \<Rightarrow> int_type \<Rightarrow> 16 word list \<Rightarrow> int \<Rightarrow> bool \<times> int" where
  "String16ToIntImpl iswspace ty = IteratorRangeToNumber val16 iswspace 10 ty"

definition StringToInt :: "(char \<Rightarrow> bool) \<Rightarrow> string \<Rightarrow> int \<Rightarrow> bool \<times> int" where
  "StringToInt isspace = StringToIntImpl isspace int_t"

definition StringToInt_16 :: "(16 word \<Rightarrow> bool) \<Rightarrow> 16 word list \<Rightarrow> int \<Rightarrow> bool \<times> int" where
  "StringToInt_16 iswspace = String16ToIntImpl iswspace int_t"

definition StringToUint :: "(char \<Rightarrow> bool) \<Rightarrow> string \<Rightarrow> int \<Rightarrow> bool \<times> int" where
  "StringToUint isspace = StringToIntImpl isspace uint_t"

definition StringToUint_16 :: "(16 word \<Rightarrow> bool) \<Rightarrow> 16 word list \<Rightarrow> int \<Rightarrow> bool \<times> int" where
  "StringToUint_16 iswspace = String16ToIntImpl iswspace uint_t"

definition StringToInt64 :: "(char \<Rightarrow> bool) \<Rightarrow> string \<Rightarrow> int \<Rightarrow> bool \<times> int" where
  "StringToInt64 isspace = StringToIntImpl isspace int64_t"

definition StringToInt64_16 :: "(16 word \<Rightarrow> bool) \<Rightarrow> 16 word list \<Rightarrow> int \<Rightarrow> bool \<times> int" where
  "StringToInt64_16 iswspace = String16ToIntImpl iswspace int64_t"

definition StringToUint64 :: "(char \<Rightarrow> bool) \<Rightarrow> string \<Rightarrow> int \<Rightarrow> bool \<times> int" where
  "StringToUint64 isspace = StringToIntImpl isspace uint64_t"

definition StringToUint64_16 :: "(16 word \<Rightarrow> bool) \<Rightarrow> 16 word list \<Rightarrow> int \<Rightarrow> bool \<times> int" where
  "StringToUint64_16 iswspace = String16ToIntImpl iswspace uint64_t"

definition StringToSizeT :: "(char \<Rightarrow> bool) \<Rightarrow> string \<Rightarrow> int \<Rightarrow> bool \<times> int" where
  "StringToSizeT isspace = StringToIntImpl isspace size_type"

definition StringToSizeT_16 :: "(16 word \<Rightarrow> bool) \<Rightarrow> 16 word list \<Rightarrow> int \<Rightarrow> bool \<times> int" where
  "StringToSizeT_16 iswspace = String16ToIntImpl iswspace size_type"

definition HexStringToInt :: "(char \<Rightarrow> bool) \<Rightarrow> string \<Rightarrow> int \<Rightarrow> bool \<times> int" where
  "HexStringToInt isspace = IteratorRangeToNumber val8 isspace 16 int_t"

definition HexStringToUInt :: "(char \<Rightarrow> bool) \<Rightarrow> string \<Rightarrow> int \<Rightarrow> bool \<times> int" where
  "HexStringToUInt isspace = IteratorRangeToNumber val8 isspace 16 uint_t"

definition HexStringToInt64 :: "(char \<Rightarrow> bool) \<Rightarrow> string \<Rightarrow> int \<Rightarrow> bool \<times> int" where
  "HexStringToInt64 isspace = IteratorRangeToNumber val8 isspace 16 int64_t"

definition HexStringToUInt64 :: "(char \<Rightarrow> bool) \<Rightarrow> string \<Rightarrow> int \<Rightarrow> bool \<times> int" where
  "HexStringToUInt64 isspace = IteratorRangeToNumber val8 isspace 16 uint64_t"

section \<open>Hexadecimal dumps\<close>

text \<open>
  \<^verbatim>\<open>HexEncode\<close> fills a string of zeros by index; the byte is read as a \<^verbatim>\<open>char\<close>, so the shift is one
  of a signed integer.
\<close>

definition kHexChars :: string where
  "kHexChars = ''0123456789ABCDEF''"

definition hex_encode_step :: "8 word list \<Rightarrow> nat \<Rightarrow> string \<Rightarrow> string" where
  "hex_encode_step bytes i ret =
     (let b = sint (bytes ! i);
          ret = ret[i * 2 := kHexChars ! nat (drop_bit 4 b AND 15)]
      in ret[i * 2 + 1 := kHexChars ! nat (b AND 15)])"

definition HexEncode :: "8 word list \<Rightarrow> string" where
  "HexEncode bytes =
     fold (hex_encode_step bytes) [0..<length bytes] (replicate (length bytes * 2) (CHR 0x00))"

text \<open>The loop of \<^verbatim>\<open>HexStringToBytesT\<close> from index \<open>i\<close>, with the bytes pushed so far.\<close>

function hex_bytes_loop :: "('c \<Rightarrow> int) \<Rightarrow> 'c list \<Rightarrow> nat \<Rightarrow> 8 word list \<Rightarrow> bool \<times> 8 word list" where
  "hex_bytes_loop val input i out =
     (if i < length input div 2 then
        (case CharToDigit val 16 (input ! (i * 2)) of
           None \<Rightarrow> (False, out)
         | Some msb \<Rightarrow>
             (case CharToDigit val 16 (input ! (i * 2 + 1)) of
                None \<Rightarrow> (False, out)
              | Some lsb \<Rightarrow>
                  hex_bytes_loop val input (i + 1) (out @ [word_of_int (push_bit 4 msb OR lsb)])))
      else (True, out))"
  by pat_completeness auto

termination
  by (relation "measure (\<lambda>(val, input, i, out). length input div 2 - i)") auto

declare hex_bytes_loop.simps [simp del]

definition HexStringToBytesT :: "('c \<Rightarrow> int) \<Rightarrow> 'c list \<Rightarrow> 8 word list \<Rightarrow> (bool \<times> 8 word list) result" where
  "HexStringToBytesT val input out =
     (if out \<noteq> [] then Inl Check_Failed
      else let count = length input
           in if count = 0 \<or> count mod 2 \<noteq> 0 then Inr (False, out)
              else Inr (hex_bytes_loop val input 0 out))"

definition HexStringToBytes :: "string \<Rightarrow> 8 word list \<Rightarrow> (bool \<times> 8 word list) result" where
  "HexStringToBytes = HexStringToBytesT val8"

section \<open>Reading digits\<close>

lemma CharToDigit_range: "CharToDigit val base c = Some d \<Longrightarrow> base \<le> 36 \<Longrightarrow> 0 \<le> d \<and> d < base"
  by (auto simp: CharToDigit_def Convert_le10_def Convert_gt10_def split: if_splits)

lemma quot32_le: "0 \<le> a \<Longrightarrow> quot32 a b = a div b"
  by (simp add: quot32_def)

text \<open>The bound checks decide, without overflowing, whether the next digit leaves the type.\<close>

lemma over_iff:
  fixes m b out d :: int
  assumes "0 < b" "0 \<le> d" "d < b"
  shows "(out > m div b \<or> (out = m div b \<and> d > m mod b)) \<longleftrightarrow> out * b + d > m"
proof -
  have m: "m = m div b * b + m mod b" by simp
  have r: "0 \<le> m mod b" "m mod b < b" using assms by simp_all
  consider "out < m div b" | "out = m div b" | "out > m div b" by linarith
  then show ?thesis
  proof cases
    case 1
    then have "(out + 1) * b \<le> m div b * b" using assms by (intro mult_right_mono) auto
    then have "out * b + d < m div b * b" using assms by (simp add: algebra_simps)
    with 1 m r show ?thesis by linarith
  next
    case 2
    have "m < m div b * b + d \<longleftrightarrow> m mod b < d" using m by linarith
    with 2 show ?thesis by simp
  next
    case 3
    then have "(m div b + 1) * b \<le> out * b" using assms by (intro mult_right_mono) auto
    then have "m < out * b + d" using m r assms(2) unfolding distrib_right by linarith
    with 3 show ?thesis by simp
  qed
qed

lemma Positive_CheckBounds_iff:
  assumes "0 < base" "0 \<le> d" "d < base" "0 \<le> traits_max ty"
  shows "Positive_CheckBounds ty base out d =
    (if out * base + d > traits_max ty then (False, traits_max ty) else (True, out))"
  using over_iff [OF assms(1-3), where out = out and m = "traits_max ty"] assms(4)
  by (simp add: Positive_CheckBounds_def quot32_le crem_def minus_div_mult_eq_mod)

lemma Negative_CheckBounds_iff:
  assumes "0 < base" "0 \<le> d" "d < base" "traits_min ty \<le> 0"
  shows "Negative_CheckBounds ty base out d =
    (if out * base - d < traits_min ty then (False, traits_min ty) else (True, out))"
proof -
  have q: "quot32 (traits_min ty) base = - (- traits_min ty div base)"
    using assms by (auto simp: quot32_def)
  have c: "0 - crem (traits_min ty) base = - traits_min ty mod base"
    by (simp add: crem_def q minus_div_mult_eq_mod [symmetric])
  have "(out < quot32 (traits_min ty) base \<or>
         (out = quot32 (traits_min ty) base \<and> d > 0 - crem (traits_min ty) base)) \<longleftrightarrow>
        (- out > - traits_min ty div base \<or> (- out = - traits_min ty div base \<and> d > - traits_min ty mod base))"
    unfolding q c by linarith
  also have "\<dots> \<longleftrightarrow> - out * base + d > - traits_min ty" by (rule over_iff [OF assms(1-3)])
  also have "\<dots> \<longleftrightarrow> out * base - d < traits_min ty" by (simp add: algebra_simps)
  finally show ?thesis by (simp add: Negative_CheckBounds_def)
qed

text \<open>The number that a run of digits denotes, and the nearest value of the type.\<close>

definition digits_value :: "int \<Rightarrow> int \<Rightarrow> int \<Rightarrow> int list \<Rightarrow> int" where
  "digits_value sg base n ds = foldl (\<lambda>n d. n * base + sg * d) n ds"

definition clamp :: "int_type \<Rightarrow> int \<Rightarrow> int" where
  "clamp ty x = (if x < traits_min ty then traits_min ty else if x > traits_max ty then traits_max ty else x)"

definition is_digit_of :: "('c \<Rightarrow> int) \<Rightarrow> int \<Rightarrow> 'c \<Rightarrow> bool" where
  "is_digit_of val base c \<longleftrightarrow> CharToDigit val base c \<noteq> None"

definition leading_digits :: "('c \<Rightarrow> int) \<Rightarrow> int \<Rightarrow> 'c list \<Rightarrow> int list" where
  "leading_digits val base cs = map (\<lambda>c. the (CharToDigit val base c)) (takeWhile (is_digit_of val base) cs)"

lemma digits_value_simps [simp]:
  "digits_value sg base n [] = n"
  "digits_value sg base n (d # ds) = digits_value sg base (n * base + sg * d) ds"
  by (simp_all add: digits_value_def)

lemma leading_digits_simps [simp]:
  "leading_digits val base [] = []"
  "CharToDigit val base c = None \<Longrightarrow> leading_digits val base (c # cs) = []"
  "CharToDigit val base c = Some d \<Longrightarrow> leading_digits val base (c # cs) = d # leading_digits val base cs"
  by (simp_all add: leading_digits_def is_digit_of_def)

lemma clamp_in: "in_type ty x \<Longrightarrow> clamp ty x = x"
  by (simp add: clamp_def in_type_def)

lemma digits_value_mono:
  assumes "1 \<le> base" "0 \<le> n" "\<forall>d \<in> set ds. 0 \<le> d"
  shows "n \<le> digits_value 1 base n ds" "digits_value (-1) base (- n) ds = - digits_value 1 base n ds"
  using assms
proof (induction ds arbitrary: n)
  case (Cons d ds)
  {
    case 1
    have "n \<le> n * base" using 1 by (simp add: mult_le_cancel_left1)
    then have "n \<le> n * base + d" using 1 by simp
    then show ?case using Cons.IH(1) [of "n * base + d"] 1 by simp
  next
    case 2
    then have "- (n * base) + - d = - (n * base + d)" by simp
    then show ?case using Cons.IH(2) [of "n * base + d"] 2 by simp
  }
qed simp_all

lemma leading_digits_nonneg: "base \<le> 36 \<Longrightarrow> \<forall>d \<in> set (leading_digits val base cs). 0 \<le> d"
proof (induction cs)
  case (Cons c cs)
  then show ?case by (cases "CharToDigit val base c") (auto dest: CharToDigit_range)
qed simp

lemma traits_bounds: "sizeof ty > 0 \<Longrightarrow> traits_min ty \<le> 0 \<and> 127 \<le> traits_max ty"
proof -
  assume s: "sizeof ty > 0"
  then have "(2::int) ^ 7 \<le> 2 ^ (bits_of ty - 1)" "(2::int) ^ 8 \<le> 2 ^ bits_of ty"
    by (intro power_increasing; simp add: bits_of_def)+
  then show ?thesis by (simp add: traits_min_def traits_max_def)
qed

section \<open>The two signs\<close>

text \<open>
  What \<^verbatim>\<open>Base\<close> relies on in its argument \<^verbatim>\<open>Sign\<close>: the check reports exactly the numbers outside the
  type and then stores the nearest value, and an increment adds the digit with the sign.
\<close>

locale digit_sign =
  fixes sg :: int
    and CheckBounds :: "int_type \<Rightarrow> int \<Rightarrow> int \<Rightarrow> int \<Rightarrow> bool \<times> int"
    and Increment :: "int_type \<Rightarrow> int \<Rightarrow> int \<Rightarrow> int"
    and admits :: "int_type \<Rightarrow> bool"
  assumes sign: "sg = 1 \<or> sg = -1"
    and admits_small: "admits ty \<Longrightarrow> sizeof ty > 0 \<Longrightarrow> \<bar>x\<bar> \<le> 36 \<Longrightarrow> 0 \<le> sg * x \<Longrightarrow> in_type ty x"
    and CheckBounds_law: "\<lbrakk>admits ty; sizeof ty > 0; 0 < base; 0 \<le> d; d < base; 0 \<le> sg * n\<rbrakk> \<Longrightarrow>
      CheckBounds ty base n d =
        (let x = n * base + sg * d in if in_type ty x then (True, n) else (False, clamp ty x))"
    and Increment_law: "Increment ty d n = wrap_to ty (n + sg * d)"
begin

lemma sign_cases: "0 \<le> sg * n \<longleftrightarrow> (sg = 1 \<and> 0 \<le> n) \<or> (sg = -1 \<and> n \<le> 0)"
  using sign by auto

lemma in_type_between:
  assumes "in_type ty x" "in_type ty 0" "0 \<le> sg * y" "sg * y \<le> sg * x"
  shows "in_type ty y"
  using assms sign by (auto simp: in_type_def)

lemma value_grows:
  assumes "1 \<le> base" "0 \<le> sg * n" "\<forall>d \<in> set ds. 0 \<le> d"
  shows "sg * n \<le> sg * digits_value sg base n ds"
  using sign digits_value_mono [OF assms(1) _ assms(3), of "sg * n"] assms(2) by auto

lemma outside_stays:
  assumes "1 \<le> base" "0 \<le> sg * n" "\<forall>d \<in> set ds. 0 \<le> d" "\<not> in_type ty n" "in_type ty 0"
  shows "\<not> in_type ty (digits_value sg base n ds)" "clamp ty (digits_value sg base n ds) = clamp ty n"
  using value_grows [OF assms(1-3)] sign assms(2,4,5) by (auto simp: in_type_def clamp_def)

lemma digits_loop_correct:
  assumes "admits ty" "sizeof ty > 0" "1 \<le> base" "base \<le> 36"
    and "in_type ty n" "0 \<le> sg * n" "at_begin \<Longrightarrow> n = 0"
  shows "digits_loop val base ty (CheckBounds ty base) (Increment ty) at_begin n cs =
    (let x = digits_value sg base n (leading_digits val base cs)
     in (list_all (is_digit_of val base) cs \<and> in_type ty x, clamp ty x))"
  using assms(5-7)
proof (induction cs arbitrary: n at_begin)
  case Nil
  then show ?case by (simp add: clamp_in)
next
  case (Cons c cs)
  show ?case
  proof (cases "CharToDigit val base c")
    case None
    with Cons.prems show ?thesis by (simp add: clamp_in is_digit_of_def)
  next
    case (Some d)
    from CharToDigit_range [OF Some] assms(4) have d: "0 \<le> d" "d < base" by auto
    let ?x = "n * base + sg * d"
    have zero: "in_type ty 0" using admits_small [OF assms(1,2), of 0] by simp
    have nb: "0 \<le> sg * (n * base)" using Cons.prems(2) assms(3) by (simp flip: mult.assoc)
    have "sg * (sg * d) = d" using sign by auto
    then have sx: "sg * ?x = sg * (n * base) + d" by (simp add: distrib_left)
    have x: "0 \<le> sg * ?x" using nb d sx by simp
    have step: "in_type ty ?x \<Longrightarrow>
      digits_loop val base ty (CheckBounds ty base) (Increment ty) at_begin n (c # cs) =
      digits_loop val base ty (CheckBounds ty base) (Increment ty) False ?x cs"
    proof -
      assume in_x: "in_type ty ?x"
      have "in_type ty (n * base)" using in_type_between [OF in_x zero nb] d sx by simp
      then have "Increment ty d (wrap_to ty (n * base)) = ?x" "at_begin \<Longrightarrow> Increment ty d n = ?x"
        using in_x Cons.prems(3) assms(2) by (simp_all add: Increment_law wrap_to_id)
      then show ?thesis
        using Some in_x CheckBounds_law [OF assms(1,2) _ d Cons.prems(2)] assms(3) by (simp add: Let_def)
    qed
    show ?thesis
    proof (cases "in_type ty ?x")
      case True
      with Cons.IH [OF True x] step Some show ?thesis by (simp add: is_digit_of_def)
    next
      case False
      have "\<not> at_begin"
      proof
        assume "at_begin"
        with Cons.prems(3) sign d assms(4) admits_small [OF assms(1,2), of ?x] x False show False by auto
      qed
      with False Some CheckBounds_law [OF assms(1,2) _ d Cons.prems(2)] assms(3)
        outside_stays [OF assms(3) x leading_digits_nonneg [OF assms(4), of val cs] False zero]
      show ?thesis by (simp add: Let_def)
    qed
  qed
qed

lemma Base_Invoke_correct:
  assumes "admits ty" "sizeof ty > 0" "1 \<le> base" "base \<le> 36"
  shows "Base_Invoke val base ty (CheckBounds ty base) (Increment ty) cs =
    (let cs' = skip_hex_prefix val base cs; x = digits_value sg base 0 (leading_digits val base cs')
     in (cs \<noteq> [] \<and> list_all (is_digit_of val base) cs' \<and> in_type ty x, clamp ty x))"
proof -
  have z: "in_type ty 0" using admits_small [OF assms(1,2), of 0] by simp
  show ?thesis
    using digits_loop_correct [OF assms z, of True] z
    by (auto simp: Base_Invoke_def Let_def skip_hex_prefix_def clamp_in)
qed

end

interpretation positive: digit_sign 1 Positive_CheckBounds Positive_Increment "\<lambda>_. True"
proof
  fix ty :: int_type and x base d n :: int
  show "sizeof ty > 0 \<Longrightarrow> \<bar>x\<bar> \<le> 36 \<Longrightarrow> 0 \<le> 1 * x \<Longrightarrow> in_type ty x"
    using traits_bounds [of ty] by (simp add: in_type_def)
  show "\<lbrakk>sizeof ty > 0; 0 < base; 0 \<le> d; d < base; 0 \<le> 1 * n\<rbrakk> \<Longrightarrow> Positive_CheckBounds ty base n d =
    (let x = n * base + 1 * d in if in_type ty x then (True, n) else (False, clamp ty x))"
    using Positive_CheckBounds_iff [of base d ty n] traits_bounds [of ty]
    by (auto simp: in_type_def clamp_def Let_def
        intro: order_trans [of "traits_min ty" 0] add_nonneg_nonneg mult_nonneg_nonneg)
qed (simp_all add: Positive_Increment_def)

interpretation negative: digit_sign "-1" Negative_CheckBounds Negative_Increment is_signed
proof
  fix ty :: int_type and x base d n :: int
  show "is_signed ty \<Longrightarrow> sizeof ty > 0 \<Longrightarrow> \<bar>x\<bar> \<le> 36 \<Longrightarrow> 0 \<le> -1 * x \<Longrightarrow> in_type ty x"
    using traits_bounds [of ty] by (simp add: in_type_def traits_min_def traits_max_def)
  show "\<lbrakk>is_signed ty; sizeof ty > 0; 0 < base; 0 \<le> d; d < base; 0 \<le> -1 * n\<rbrakk> \<Longrightarrow>
    Negative_CheckBounds ty base n d =
    (let x = n * base + -1 * d in if in_type ty x then (True, n) else (False, clamp ty x))"
    using Negative_CheckBounds_iff [of base d ty n] traits_bounds [of ty] mult_nonneg_nonneg [of "-n" base]
    by (auto simp: in_type_def clamp_def Let_def)
qed (simp_all add: Negative_Increment_def)

section \<open>What a conversion returns\<close>

lemma skip_whitespace_eq:
  "skip_whitespace ws valid cs = (valid \<and> takeWhile ws cs = [], dropWhile ws cs)"
proof (induction cs arbitrary: valid)
  case (Cons c cs)
  then show ?case by (cases "ws c") simp_all
qed simp

text \<open>
  The reading of a text as the header documents it: leading white space, a sign, in base sixteen a
  prefix 0x that something follows, and the longest run of digits, whose number is moved to the
  nearest value of the type. The conversion is perfect when there is no white space, at least one
  digit, nothing after the digits and no need to move the number.
\<close>

definition number_sign :: "('c \<Rightarrow> int) \<Rightarrow> 'c list \<Rightarrow> int \<times> 'c list" where
  "number_sign val s = (case s of [] \<Rightarrow> (1, [])
     | c # cs \<Rightarrow> if val c = 45 then (-1, cs) else if val c = 43 then (1, cs) else (1, c # cs))"

definition number_spec ::
  "('c \<Rightarrow> int) \<Rightarrow> ('c \<Rightarrow> bool) \<Rightarrow> int \<Rightarrow> int_type \<Rightarrow> 'c list \<Rightarrow> bool \<times> int" where
  "number_spec val ws base ty input =
     (let (sg, cs) = number_sign val (dropWhile ws input);
          ds = skip_hex_prefix val base cs;
          x = digits_value sg base 0 (leading_digits val base ds)
      in (takeWhile ws input = [] \<and> ds \<noteq> [] \<and> list_all (is_digit_of val base) ds \<and> in_type ty x,
          clamp ty x))"

lemma skip_hex_prefix_Nil [simp]: "skip_hex_prefix val base cs = [] \<longleftrightarrow> cs = []"
  by (auto simp: skip_hex_prefix_def)

lemma IteratorRangeToNumber_eq:
  assumes "sizeof ty > 0" "1 \<le> base" "base \<le> 36"
  shows "IteratorRangeToNumber val ws base ty input out =
    (if fst (number_sign val (dropWhile ws input)) = -1 \<and> \<not> is_signed ty then (False, out)
     else number_spec val ws base ty input)"
  by (cases "dropWhile ws input")
    (auto simp: IteratorRangeToNumber_def skip_whitespace_eq number_spec_def number_sign_def
      Positive_Invoke_def Negative_Invoke_def Let_def
      positive.Base_Invoke_correct [OF _ assms] negative.Base_Invoke_correct [OF _ assms] simp del: dropWhile_eq_Nil_conv)

text \<open>\<^verbatim>\<open>isspace\<close> in the C locale, in which a program starts.\<close>

definition isspace_C :: "char \<Rightarrow> bool" where
  "isspace_C c \<longleftrightarrow> val8 c = 32 \<or> (9 \<le> val8 c \<and> val8 c \<le> 13)"

text \<open>
  C24. For every type the conversions are instantiated with, in base ten and sixteen and for both
  character types, the conversion ends and returns what the header documents: the number of the
  longest run of digits moved to the nearest value of the type, and whether the text was exactly a
  number of the type; no intermediate product or sum leaves the type. The one exception is a minus
  sign in front of an unsigned conversion, which fails and leaves the output as it was.
\<close>

theorem StringToNumber_correct:
  assumes "ty \<in> {int_t, uint_t, int64_t, uint64_t, size_type}" "base \<in> {10, 16}"
  shows "IteratorRangeToNumber val ws base ty input out =
    (if fst (number_sign val (dropWhile ws input)) = -1 \<and> \<not> is_signed ty then (False, out)
     else number_spec val ws base ty input)"
  using assms by (intro IteratorRangeToNumber_eq) (auto simp: int_types)

lemmas val8_chars = val8_def of_char_def

theorem StringToNumber_correct_witness:
  "StringToInt isspace_C ''-2147483649'' 7 = (False, - 2147483648) \<and>
   StringToUint isspace_C ''-5'' 7 = (False, 7) \<and>
   HexStringToInt isspace_C ''0x7fffFFFF'' 7 = (True, 2147483647)"
proof (intro conjI)
  have "IteratorRangeToNumber val8 isspace_C 10 int_t ''-2147483649'' 7 = (False, - 2147483648)"
    using StringToNumber_correct [of int_t 10 val8 isspace_C "''-2147483649''" 7]
    by code_simp
  then show "StringToInt isspace_C ''-2147483649'' 7 = (False, - 2147483648)"
    by (simp add: StringToInt_def StringToIntImpl_def)
  have "IteratorRangeToNumber val8 isspace_C 10 uint_t ''-5'' 7 = (False, 7)"
    using StringToNumber_correct [of uint_t 10 val8 isspace_C "''-5''" 7]
    by code_simp
  then show "StringToUint isspace_C ''-5'' 7 = (False, 7)"
    by (simp add: StringToUint_def StringToIntImpl_def)
  have "IteratorRangeToNumber val8 isspace_C 16 int_t ''0x7fffFFFF'' 7 = (True, 2147483647)"
    using StringToNumber_correct [of int_t 16 val8 isspace_C "''0x7fffFFFF''" 7]
    by code_simp
  then show "HexStringToInt isspace_C ''0x7fffFFFF'' 7 = (True, 2147483647)"
    by (simp add: HexStringToInt_def)
qed

section \<open>Decimal text\<close>

text \<open>The decimal notation of a number in the characters of the string type.\<close>

definition dec_text :: "(int \<Rightarrow> 'c) \<Rightarrow> nat \<Rightarrow> 'c list" where
  "dec_text mk n = map (\<lambda>c. mk (of_char c)) (dec_of_nat n)"

definition signed_text :: "(int \<Rightarrow> 'c) \<Rightarrow> int \<Rightarrow> 'c list" where
  "signed_text mk v = (if v < 0 then mk 45 # dec_text mk (nat (- v)) else dec_text mk (nat v))"

lemma dec_text_small: "n < 10 \<Longrightarrow> dec_text mk n = [mk (int n + 48)]"
  using arg_cong [OF of_char_digit_char, of n int]
  by (simp add: dec_text_def dec_of_nat.simps [of n] add.commute of_nat_of_char)

lemma dec_text_rec: "\<not> n < 10 \<Longrightarrow> dec_text mk n = dec_text mk (n div 10) @ [mk (int (n mod 10) + 48)]"
  using dec_text_small [of "n mod 10" mk]
  by (simp add: dec_text_def dec_of_nat.simps [of n] dec_of_nat.simps [of "n mod 10"])

lemma dec_text_induct [case_names small big]:
  assumes "\<And>n::nat. n < 10 \<Longrightarrow> P n" "\<And>n. \<not> n < 10 \<Longrightarrow> P (n div 10) \<Longrightarrow> P n"
  shows "P n"
  using assms by (induction n rule: dec_of_nat.induct) metis

lemma length_dec_text: "n < 10 ^ k \<Longrightarrow> 0 < k \<Longrightarrow> length (dec_text mk n) \<le> k"
proof (induction n arbitrary: k rule: dec_text_induct)
  case (small n)
  then show ?case by (simp add: dec_text_small)
next
  case (big n)
  then obtain j where k: "k = Suc j" by (cases k) auto
  with big have "0 < j" by (cases j) auto
  with big k show ?case by (simp add: dec_text_rec less_mult_imp_div_less mult.commute)
qed

lemma length_dec_text_eq: "length (dec_text mk n) = length (dec_of_nat n)"
  by (simp add: dec_text_def)

lemma dec_text_nonempty [simp]: "dec_text mk n \<noteq> []"
  by (simp add: dec_text_def)

lemma put_back_ok:
  "1 < i \<Longrightarrow> i \<le> length buf \<Longrightarrow> put_back c i buf = Inr (i - 1, take (i - 1) buf @ Some c # drop i buf)"
  by (simp add: put_back_def upd_conv_take_nth_drop)

lemma int_to_string_loop_correct:
  assumes "length (dec_text mk n) < i" "i \<le> length buf"
  shows "int_to_string_loop mk (int n) i buf =
    (let j = i - length (dec_text mk n)
     in Inr (j, take j buf @ map Some (dec_text mk n) @ drop i buf))"
  using assms
proof (induction n arbitrary: i buf rule: dec_text_induct)
  case (small n)
  then show ?case
    by (subst int_to_string_loop.simps) (simp add: put_back_ok dec_text_small Let_def)
next
  case (big n)
  have len: "length (dec_text mk n) = Suc (length (dec_text mk (n div 10)))"
    by (simp add: dec_text_rec [OF big(1)])
  let ?buf = "take (i - 1) buf @ Some (mk (int (n mod 10) + 48)) # drop i buf"
  have d: "int n div 10 = int (n div 10)" "int n mod 10 = int (n mod 10)"
    by (simp_all add: zdiv_int zmod_int)
  have "int_to_string_loop mk (int n) i buf = int_to_string_loop mk (int (n div 10)) (i - 1) ?buf"
    using big len by (subst int_to_string_loop.simps) (simp add: put_back_ok d)
  also have "\<dots> = (let j = i - 1 - length (dec_text mk (n div 10))
     in Inr (j, take j ?buf @ map Some (dec_text mk (n div 10)) @ drop (i - 1) ?buf))"
    using big len by (intro big(2)) auto
  finally show ?case using big.prems len by (simp add: dec_text_rec [OF big(1)] Let_def)
qed

lemma CheckedUnsignedAbs_eq:
  assumes "ty \<in> {int_t, uint_t, int64_t, uint64_t, size_type}" "in_type ty v"
  shows "CheckedUnsignedAbs ty v = \<bar>v\<bar>"
  using assms
  by (auto simp: int_types in_type_def traits_min_def traits_max_def CheckedUnsignedAbs_def bits_of_def
      take_bit_int_eq_self)

lemma kOutputBufSize_enough:
  assumes "ty \<in> {int_t, uint_t, int64_t, uint64_t, size_type}" "in_type ty v"
  shows "length (signed_text mk v) < kOutputBufSize ty"
proof -
  have "length (dec_text mk (nat \<bar>v\<bar>)) \<le> 10" if "sizeof ty = 4"
    using that assms by (intro length_dec_text)
      (auto simp: int_types in_type_def traits_min_def traits_max_def bits_of_def)
  moreover have "length (dec_text mk (nat \<bar>v\<bar>)) \<le> 20" if "sizeof ty = 8"
    using that assms by (intro length_dec_text)
      (auto simp: int_types in_type_def traits_min_def traits_max_def bits_of_def)
  moreover have "is_signed ty" if "v < 0"
    using that assms by (auto simp: in_type_def traits_min_def split: if_splits)
  ultimately show ?thesis using assms(1)
    by (auto simp: signed_text_def kOutputBufSize_def int_types split: if_splits)
qed

lemma read_cells_Some [simp]: "read_cells (map Some xs) = Inr xs"
  by (simp add: read_cells_def comp_def)

lemma IntToStringT_correct:
  assumes ty: "ty \<in> {int_t, uint_t, int64_t, uint64_t, size_type}" and v: "in_type ty v"
  shows "IntToStringT mk ty v = Inr (signed_text mk v)"
proof -
  let ?k = "kOutputBufSize ty" and ?t = "dec_text mk (nat \<bar>v\<bar>)"
  let ?buf = "replicate ?k None"
  have neg: "IsValueNegative ty v \<longleftrightarrow> v < 0"
    using ty v by (auto simp: IsValueNegative_def in_type_def traits_min_def)
  have len: "length ?t + (if v < 0 then 1 else 0) < ?k"
    using kOutputBufSize_enough [OF assms, of mk] by (auto simp: signed_text_def split: if_splits)
  have "CheckedUnsignedAbs ty v = int (nat \<bar>v\<bar>)" by (simp add: CheckedUnsignedAbs_eq [OF assms])
  then have "int_to_string_loop mk (CheckedUnsignedAbs ty v) ?k ?buf =
      Inr (?k - length ?t, take (?k - length ?t) ?buf @ map Some ?t)"
    using int_to_string_loop_correct [of mk "nat \<bar>v\<bar>" ?k ?buf] len by (simp add: Let_def split: if_splits)
  then show ?thesis
    using len
    by (auto simp: IntToStringT_def neg put_back_ok signed_text_def split: if_splits
        simp del: map_replicate simp flip: list.map)
qed

section \<open>Reading back\<close>

lemma digits_value_append:
  "digits_value sg base n (xs @ ys) = digits_value sg base (digits_value sg base n xs) ys"
  by (simp add: digits_value_def)

lemma leading_digits_append:
  assumes "list_all (is_digit_of val base) xs"
  shows "leading_digits val base (xs @ ys) = leading_digits val base xs @ leading_digits val base ys"
  using assms by (simp add: leading_digits_def takeWhile_append2 list_all_iff
      takeWhile_eq_all_conv [THEN iffD2])

context character
begin

lemma digit_reads: "d < 10 \<Longrightarrow> CharToDigit val 10 (mk (int d + 48)) = Some (int d)"
  by (simp add: CharToDigit_def Convert_le10_def val_mk)

lemma digit_is_digit: "d < 10 \<Longrightarrow> is_digit_of val 10 (mk (int d + 48))"
  by (simp add: is_digit_of_def digit_reads)

lemma dec_text_reads:
  "list_all (is_digit_of val 10) (dec_text mk n) \<and>
   digits_value 1 10 0 (leading_digits val 10 (dec_text mk n)) = int n"
proof (induction n rule: dec_text_induct)
  case (small n)
  then show ?case by (simp add: dec_text_small digit_reads digit_is_digit)
next
  case (big n)
  have "int (n div 10) * 10 + int (n mod 10) = int n"
    by (simp add: zdiv_int zmod_int)
  with big show ?case
    by (simp add: dec_text_rec digit_reads digit_is_digit leading_digits_append digits_value_append)
qed

lemma dec_text_first: "val (hd (dec_text mk n)) \<in> {48..57}"
proof (induction n rule: dec_text_induct)
  case (small n)
  then show ?case by (simp add: dec_text_small val_mk)
next
  case (big n)
  then show ?case by (simp add: dec_text_rec)
qed

lemma number_sign_text: "number_sign val (signed_text mk v) = (if v < 0 then (-1, dec_text mk (nat (- v)))
    else (1, dec_text mk (nat v)))"
proof -
  obtain c cs where c: "dec_text mk (nat v) = c # cs" by (meson dec_text_nonempty list.exhaust)
  with dec_text_first [of "nat v"] have "val c \<in> {48..57}" by simp
  with c show ?thesis by (auto simp: number_sign_def signed_text_def val_mk)
qed

lemma text_reads_back:
  assumes "sizeof ty > 0" "in_type ty v" "\<And>c. val c = 45 \<or> val c \<in> {48..57} \<Longrightarrow> \<not> ws c"
  shows "IteratorRangeToNumber val ws 10 ty (signed_text mk v) out = (True, v)"
proof -
  have hd: "\<not> ws (hd (signed_text mk v))"
    using assms(3) dec_text_first [of "nat v"] by (simp add: signed_text_def val_mk)
  have "signed_text mk v \<noteq> []" by (simp add: signed_text_def)
  with hd have w: "takeWhile ws (signed_text mk v) = []" "dropWhile ws (signed_text mk v) = signed_text mk v"
    by (cases "signed_text mk v"; simp)+
  have signed: "is_signed ty" if "v < 0"
    using that assms(2) by (auto simp: in_type_def traits_min_def split: if_splits)
  have neg: "digits_value (-1) 10 0 (leading_digits val 10 (dec_text mk n)) = - int n" for n
    using digits_value_mono(2) [of 10 0 "leading_digits val 10 (dec_text mk n)"] dec_text_reads [of n]
      leading_digits_nonneg [of 10 val "dec_text mk n"] by simp
  show ?thesis
    using assms(1,2) signed dec_text_reads
    by (simp add: IteratorRangeToNumber_eq w number_sign_text number_spec_def skip_hex_prefix_def neg
        clamp_in split: if_splits)
qed

end

lemma dec_of_int_text: "dec_of_int v = signed_text mk8 v"
proof -
  have "mk8 (of_char c) = c" for c :: char by (simp add: mk8_def)
  then have "dec_text mk8 n = dec_of_nat n" for n by (simp add: dec_text_def)
  moreover have "mk8 45 = CHR ''-''" by (simp add: mk8_def char_of_def bit_numeral_rec bit_0)
  ultimately show ?thesis by (simp add: dec_of_int_def signed_text_def)
qed

lemma text16_equals: "EqualsASCII (signed_text mk16 v) (dec_of_int v)"
proof -
  have "val8 c = val16 (mk16 (of_char c))" if "c \<in> set (dec_of_nat n)" for c n
    using dec_of_nat_digits [OF that] of_nat_of_char [of c, where 'a = int]
    by (simp add: is_digit_def val8_def char16.val_mk Let_def)
  then have "list_all2 (\<lambda>a s. val8 a = val16 s) (dec_of_nat n) (dec_text mk16 n)" for n
    unfolding dec_text_def list_all2_conv_all_nth by (metis length_map nth_map nth_mem)
  moreover have "val8 (CHR ''-'') = val16 (mk16 45)" by (simp add: val8_def char16.val_mk of_char_def)
  ultimately show ?thesis
    by (auto simp: EqualsASCII_def dec_of_int_def signed_text_def length_dec_text_eq)
qed

text \<open>
  C25. Every value of \<^verbatim>\<open>int\<close>, \<^verbatim>\<open>unsigned\<close>, \<^verbatim>\<open>int64_t\<close>, \<^verbatim>\<open>uint64_t\<close> and \<^verbatim>\<open>size_t\<close>, the least one
  included, is written without leaving the temporary buffer or failing its checks, in decimal
  notation and in both character types, and the conversion of that text is perfect and returns the
  value. The locale's white space must not contain digits or the minus sign, as in every locale of
  the C standard.
\<close>

theorem number_text_roundtrip:
  assumes "ty \<in> {int_t, uint_t, int64_t, uint64_t, size_type}" "in_type ty v"
    and "\<And>c. val8 c = 45 \<or> val8 c \<in> {48..57} \<Longrightarrow> \<not> isspace c"
    and "\<And>c. val16 c = 45 \<or> val16 c \<in> {48..57} \<Longrightarrow> \<not> iswspace c"
  shows "IntToStringT mk8 ty v = Inr (dec_of_int v) \<and>
    StringToIntImpl isspace ty (dec_of_int v) out = (True, v) \<and>
    (\<exists>t. IntToStringT mk16 ty v = Inr t \<and> EqualsASCII t (dec_of_int v) \<and>
      String16ToIntImpl iswspace ty t out = (True, v))"
proof -
  have s: "sizeof ty > 0" using assms(1) by (auto simp: int_types)
  have "StringToIntImpl isspace ty (dec_of_int v) out = (True, v)"
    unfolding StringToIntImpl_def dec_of_int_text using s assms(2,3) by (rule char8.text_reads_back)
  moreover have "String16ToIntImpl iswspace ty (signed_text mk16 v) out = (True, v)"
    unfolding String16ToIntImpl_def using s assms(2,4) by (rule char16.text_reads_back)
  ultimately show ?thesis
    using IntToStringT_correct [OF assms(1,2), of mk8] IntToStringT_correct [OF assms(1,2), of mk16]
      text16_equals [of v] by (auto simp: dec_of_int_text)
qed

theorem number_text_roundtrip_witness:
  "IntToStringT mk8 int64_t (- (2 ^ 63)) = Inr ''-9223372036854775808'' \<and>
   StringToInt64 isspace_C ''-9223372036854775808'' 0 = (True, - 9223372036854775808)"
proof -
  let ?w = "\<lambda>c. val16 c = 32"
  have ws: "\<And>c. val8 c = 45 \<or> val8 c \<in> {48..57} \<Longrightarrow> \<not> isspace_C c" "\<And>c. val16 c = 45 \<or> val16 c \<in> {48..57} \<Longrightarrow> \<not> ?w c"
    by (auto simp: isspace_C_def)
  have "in_type int64_t (- (2 ^ 63))" by (simp add: in_type_def traits_min_def traits_max_def int_types bits_of_def)
  moreover have "dec_of_int (- (2 ^ 63)) = ''-9223372036854775808''"
    by (simp add: dec_of_int_def dec_of_nat.simps digit_char_def char_of_def bit_numeral_rec bit_0)
  ultimately show ?thesis
    using number_text_roundtrip [OF _ _ ws, where ty = int64_t and v = "- (2 ^ 63)" and out = 0] by (simp add: StringToInt64_def)
qed

section \<open>Hexadecimal dumps are read back\<close>

definition hex_pair :: "8 word \<Rightarrow> string" where
  "hex_pair b = [kHexChars ! nat (drop_bit 4 (uint b)), kHexChars ! nat (take_bit 4 (uint b))]"

text \<open>The nibbles of a byte do not depend on its being read as a signed character.\<close>

lemma signed_nibbles:
  fixes b :: "8 word"
  shows "drop_bit 4 (sint b) AND 15 = drop_bit 4 (uint b)" "sint b AND 15 = take_bit 4 (uint b)"
proof -
  have m: "x AND 15 = take_bit 4 x" for x :: int by (simp add: take_bit_eq_mask mask_eq_exp_minus_1)
  have u: "take_bit 8 (sint b) = uint b" using uint_sint [of b] by simp
  show "drop_bit 4 (sint b) AND 15 = drop_bit 4 (uint b)"
    using u take_bit_drop_bit [of 4 4 "sint b"] by (simp add: m)
  show "sint b AND 15 = take_bit 4 (uint b)"
    unfolding m u [symmetric] by simp
qed

lemma hex_encode_prefix:
  assumes "n \<le> length bytes"
  shows "fold (hex_encode_step bytes) [0..<n] (replicate (length bytes * 2) z) =
    concat (map hex_pair (take n bytes)) @ replicate ((length bytes - n) * 2) z"
  using assms
proof (induction n)
  case (Suc n)
  let ?p = "concat (map hex_pair (take n bytes))"
  have len: "length ?p = n * 2" using Suc.prems
    by (simp add: hex_pair_def length_concat comp_def sum_list_triv)
  have "(length bytes - n) * 2 = Suc (Suc ((length bytes - Suc n) * 2))" using Suc.prems by simp
  then have "fold (hex_encode_step bytes) [0..<Suc n] (replicate (length bytes * 2) z) =
    hex_encode_step bytes n (?p @ z # z # replicate ((length bytes - Suc n) * 2) z)"
    using Suc by simp
  also have "\<dots> = ?p @ hex_pair (bytes ! n) @ replicate ((length bytes - Suc n) * 2) z"
    using len by (simp add: hex_encode_step_def hex_pair_def signed_nibbles list_update_append)
  finally show ?case using Suc.prems by (simp add: take_Suc_conv_app_nth)
qed simp

lemma HexEncode_eq: "HexEncode bytes = concat (map hex_pair bytes)"
  using hex_encode_prefix [of "length bytes" bytes] by (simp add: HexEncode_def)

text \<open>Decoding from the front, pair by pair.\<close>

fun hex_decode :: "('c \<Rightarrow> int) \<Rightarrow> 'c list \<Rightarrow> bool \<times> 8 word list" where
  "hex_decode val (a # b # cs) =
     (case CharToDigit val 16 a of
        None \<Rightarrow> (False, [])
      | Some m \<Rightarrow>
          (case CharToDigit val 16 b of
             None \<Rightarrow> (False, [])
           | Some l \<Rightarrow> apsnd ((#) (word_of_int (push_bit 4 m OR l))) (hex_decode val cs)))"
| "hex_decode val _ = (True, [])"

lemma hex_decode_short: "length cs < 2 \<Longrightarrow> hex_decode val cs = (True, [])"
  by (induction cs rule: induct_list012) auto

lemma hex_bytes_loop_eq:
  "hex_bytes_loop val input i out = apsnd ((@) out) (hex_decode val (drop (i * 2) input))"
proof (induction val input i out rule: hex_bytes_loop.induct)
  case (1 val input i out)
  show ?case
  proof (cases "i < length input div 2")
    case True
    then have d: "drop (i * 2) input = input ! (i * 2) # input ! (i * 2 + 1) # drop ((i + 1) * 2) input"
      by (simp add: Cons_nth_drop_Suc)
    show ?thesis
      unfolding d hex_bytes_loop.simps [of val input i] using 1 [OF True] True
      by (auto split: option.splits simp: apsnd_def map_prod_def case_prod_unfold)
  next
    case False
    then have "length input < i * 2 + 2" by linarith
    then have "length (drop (i * 2) input) < 2" by simp
    then have "hex_decode val (drop (i * 2) input) = (True, [])" by (rule hex_decode_short)
    with False show ?thesis by (simp add: hex_bytes_loop.simps [of val input i])
  qed
qed

lemma hex_char_reads:
  assumes "0 \<le> k" "k < 16"
  shows "CharToDigit val8 16 (kHexChars ! nat k) = Some k"
proof -
  have "\<forall>k \<in> set [0..15]. CharToDigit val8 16 (kHexChars ! nat k) = Some k" by code_simp
  moreover have "k \<in> set [0..15]" unfolding set_upto using assms by simp
  ultimately show ?thesis by blast
qed

lemma nibbles_join: "word_of_int (push_bit 4 (drop_bit 4 (uint b)) OR take_bit 4 (uint b)) = (b :: 8 word)"
proof -
  have "push_bit 4 (drop_bit 4 a) OR take_bit 4 a = a" for a :: int
    by (rule bit_eqI) (auto simp: bit_simps)
  then show ?thesis by simp
qed

lemma hex_decode_pairs: "hex_decode val8 (concat (map hex_pair bs)) = (True, bs)"
proof (induction bs)
  case (Cons b bs)
  have "0 \<le> drop_bit 4 (uint b)" "drop_bit 4 (uint b) < 16"
    using uint_bounded [of b] uint_nonnegative [of b]
    by (simp_all add: drop_bit_eq_div pos_imp_zdiv_nonneg_iff)
  moreover have "0 \<le> take_bit 4 (uint b)" "take_bit 4 (uint b) < 16"
    by (simp_all add: take_bit_eq_mod)
  ultimately show ?case
    using Cons by (simp add: hex_pair_def hex_char_reads nibbles_join)
qed simp

lemma hex_char_upper:
  assumes "CharToDigit val8 16 c = Some d"
  shows "kHexChars ! nat d = ToUpperASCII_char val8 mk8 c"
proof -
  obtain v where c: "c = mk8 v" and v: "v = val8 c" by (metis char8.mk_val)
  have "v \<in> set ([48..57] @ [97..102] @ [65..70])"
    unfolding set_append set_upto v
    using assms by (auto simp: CharToDigit_def Convert_gt10_def split: if_splits)
  moreover have "\<forall>v \<in> set ([48..57] @ [97..102] @ [65..70]).
    kHexChars ! nat (the (CharToDigit val8 16 (mk8 v))) = ToUpperASCII_char val8 mk8 (mk8 v)" by code_simp
  ultimately have "kHexChars ! nat (the (CharToDigit val8 16 c)) = ToUpperASCII_char val8 mk8 c"
    unfolding c by blast
  then show ?thesis by (simp add: assms)
qed

lemma digits_join:
  assumes "0 \<le> m" "m < 16" "0 \<le> l" "l < (16 :: int)"
  defines "w \<equiv> word_of_int (push_bit 4 m OR l) :: 8 word"
  shows "drop_bit 4 (uint w) = m \<and> take_bit 4 (uint w) = l"
proof -
  have l: "take_bit 4 l = l" and m: "take_bit 4 m = m" using assms by (simp_all add: take_bit_int_eq_self)
  have "take_bit 8 (push_bit 4 (take_bit 4 m) OR take_bit 4 l) = push_bit 4 (take_bit 4 m) OR take_bit 4 l"
    by (rule bit_eqI) (auto simp: bit_simps)
  then have "uint w = push_bit 4 (take_bit 4 m) OR take_bit 4 l"
    by (simp add: w_def uint_word_of_int_eq l m)
  moreover have "drop_bit 4 (push_bit 4 (take_bit 4 m) OR take_bit 4 l) = take_bit 4 m"
    "take_bit 4 (push_bit 4 (take_bit 4 m) OR take_bit 4 l) = take_bit 4 l"
    by (rule bit_eqI; auto simp: bit_simps)+
  ultimately show ?thesis by (simp add: l m)
qed

lemma hex_decode_upper:
  assumes "hex_decode val8 s = (True, bs)" "even (length s)"
  shows "concat (map hex_pair bs) = map (ToUpperASCII_char val8 mk8) s"
  using assms
proof (induction s arbitrary: bs rule: induct_list012)
  case (3 a b s)
  obtain ok cs where d: "hex_decode val8 s = (ok, cs)" by fastforce
  with 3 obtain m l where *: "CharToDigit val8 16 a = Some m" "CharToDigit val8 16 b = Some l"
    "hex_decode val8 s = (True, cs)" "bs = word_of_int (push_bit 4 m OR l) # cs"
    by (auto split: option.splits)
  then have "concat (map hex_pair cs) = map (ToUpperASCII_char val8 mk8) s" using 3 by auto
  moreover have "hex_pair (word_of_int (push_bit 4 m OR l)) = [kHexChars ! nat m, kHexChars ! nat l]"
    using digits_join [of m l] CharToDigit_range [OF *(1)] CharToDigit_range [OF *(2)]
    by (simp add: hex_pair_def)
  ultimately show ?case by (simp add: * hex_char_upper)
qed auto

lemma hex_decode_ok: "even (length s) \<Longrightarrow> fst (hex_decode val s) \<longleftrightarrow> list_all (is_digit_of val 16) s"
  by (induction s rule: induct_list012) (auto simp: is_digit_of_def split: option.splits)

text \<open>
  \<^verbatim>\<open>HexStringToBytes\<close> reads back what \<^verbatim>\<open>HexEncode\<close> writes for every non-empty sequence of bytes,
  although the encoder shifts a signed character; conversely, encoding what was read gives the text
  in upper case; and a text is read completely exactly when it is non-empty, of even length and made
  of hexadecimal digits.
\<close>

theorem hex_bytes_roundtrip:
  "(bs \<noteq> [] \<longrightarrow> HexStringToBytes (HexEncode bs) [] = Inr (True, bs)) \<and>
   (HexStringToBytes s [] = Inr (True, cs) \<longrightarrow> HexEncode cs = ToUpperASCIIImpl val8 mk8 s) \<and>
   ((\<exists>cs. HexStringToBytes s [] = Inr (True, cs)) \<longleftrightarrow>
      s \<noteq> [] \<and> even (length s) \<and> list_all (is_digit_of val8 16) s)"
proof -
  have eq: "HexStringToBytes s [] =
    (if s = [] \<or> odd (length s) then Inr (False, []) else Inr (hex_decode val8 s))" for s
    by (simp add: HexStringToBytes_def HexStringToBytesT_def hex_bytes_loop_eq odd_iff_mod_2_eq_one
        apsnd_def map_prod_def)
  have "HexStringToBytes (HexEncode bs) [] = Inr (True, bs)" if "bs \<noteq> []"
  proof -
    have "length (concat (map hex_pair bs)) = length bs * 2"
      by (simp add: hex_pair_def length_concat comp_def sum_list_triv)
    moreover have "concat (map hex_pair bs) \<noteq> []" using that by (cases bs) (simp_all add: hex_pair_def)
    ultimately show ?thesis by (simp add: eq HexEncode_eq hex_decode_pairs)
  qed
  moreover have "HexEncode cs = ToUpperASCIIImpl val8 mk8 s" if "HexStringToBytes s [] = Inr (True, cs)"
    using that hex_decode_upper [of s cs] by (auto simp: eq HexEncode_eq ToUpperASCIIImpl_map split: if_splits)
  moreover have "(\<exists>cs. HexStringToBytes s [] = Inr (True, cs)) \<longleftrightarrow>
      s \<noteq> [] \<and> even (length s) \<and> list_all (is_digit_of val8 16) s"
    using hex_decode_ok [of s val8] by (cases "hex_decode val8 s") (auto simp: eq)
  ultimately show ?thesis by blast
qed

theorem hex_bytes_roundtrip_witness:
  "HexEncode [0xca, 0x07] = ''CA07'' \<and> HexStringToBytes ''CA07'' [] = Inr (True, [0xca, 0x07])"
proof -
  have "HexEncode [0xca, 0x07] = ''CA07''" by (simp add: HexEncode_eq hex_pair_def kHexChars_def)
  then show ?thesis using hex_bytes_roundtrip [of "[0xca, 0x07]"] by simp
qed

end
