(* ===== verification/Version.thy ===== *)
theory Version
  imports Number_Conversions String_Split
begin

text \<open>
  base/version.cc: dotted version numbers, parsed with the splitter and the number conversions,
  printed, compared with each other and with a wildcard.
\<close>

section \<open>Parsing\<close>

text \<open>
  The loop of \<^verbatim>\<open>ParseVersionNumbers\<close>; \<open>at_begin\<close> is \<^verbatim>\<open>it == numbers.begin()\<close>. The local variable
  \<^verbatim>\<open>num\<close> is read only after a successful conversion, which has set it.
\<close>

fun parse_numbers_loop :: "(char \<Rightarrow> bool) \<Rightarrow> bool \<Rightarrow> string list \<Rightarrow> int list \<Rightarrow> (bool \<times> int list) result" where
  "parse_numbers_loop isspace at_begin [] parsed = Inr (True, parsed)"
| "parse_numbers_loop isspace at_begin (it # its) parsed =
     (if StartsWithT val8 mk8 it ''+'' SENSITIVE then Inr (False, parsed)
      else case StringToUint isspace it 0 of
          (False, _) \<Rightarrow> Inr (False, parsed)
        | (True, num) \<Rightarrow>
            bind_result (if at_begin then bind_result (UintToString num) (\<lambda>s. Inr (s \<noteq> it)) else Inr False)
              (\<lambda>differs. if differs then Inr (False, parsed)
                         else parse_numbers_loop isspace False its (parsed @ [num])))"

definition ParseVersionNumbers :: "(char \<Rightarrow> bool) \<Rightarrow> string \<Rightarrow> (bool \<times> int list) result" where
  "ParseVersionNumbers isspace version_str =
     bind_result (SplitStringPiece version_str ''.'' KEEP_WHITESPACE SPLIT_WANT_ALL)
       (\<lambda>numbers. if numbers = [] then Inr (False, []) else parse_numbers_loop isspace True numbers [])"

record version =
  components :: "int list"

definition Version :: "(char \<Rightarrow> bool) \<Rightarrow> string \<Rightarrow> version result" where
  "Version isspace version_str =
     bind_result (ParseVersionNumbers isspace version_str)
       (\<lambda>(ok, parsed). Inr (if \<not> ok then \<lparr>components = []\<rparr> else \<lparr>components = parsed\<rparr>))"

definition IsValid :: "version \<Rightarrow> bool" where
  "IsValid v \<longleftrightarrow> components v \<noteq> []"

definition IsValidWildcardString :: "(char \<Rightarrow> bool) \<Rightarrow> string \<Rightarrow> bool result" where
  "IsValidWildcardString isspace wildcard_string =
     (let version_string = (if EndsWithT val8 mk8 wildcard_string ''.*'' SENSITIVE
                            then take (length wildcard_string - 2) wildcard_string else wildcard_string)
      in bind_result (Version isspace version_string) (\<lambda>v. Inr (IsValid v)))"

section \<open>Comparing\<close>

text \<open>The loop over the common components, and what the longer side has beyond them.\<close>

fun compare_common :: "int list \<Rightarrow> int list \<Rightarrow> int" where
  "compare_common (x # xs) (y # ys) =
     (if x > y then 1 else if x < y then -1 else compare_common xs ys)"
| "compare_common _ _ = 0"

definition CompareVersionComponents :: "int list \<Rightarrow> int list \<Rightarrow> int" where
  "CompareVersionComponents components1 components2 =
     (let count = min (length components1) (length components2);
          c = compare_common (take count components1) (take count components2)
      in if c \<noteq> 0 then c
         else if length components1 > length components2 then
           (if \<exists>x \<in> set (drop count components1). x > 0 then 1 else 0)
         else if length components1 < length components2 then
           (if \<exists>x \<in> set (drop count components2). x > 0 then -1 else 0)
         else 0)"

definition CompareTo :: "version \<Rightarrow> version \<Rightarrow> int result" where
  "CompareTo v other =
     (if \<not> IsValid v \<or> \<not> IsValid other then Inl Check_Failed
      else Inr (CompareVersionComponents (components v) (components other)))"

definition Equals :: "version \<Rightarrow> version \<Rightarrow> bool result" where
  "Equals v that =
     (if \<not> IsValid v \<or> \<not> IsValid that then Inl Check_Failed
      else bind_result (CompareTo v that) (\<lambda>c. Inr (c = 0)))"

definition IsOlderThan :: "(char \<Rightarrow> bool) \<Rightarrow> version \<Rightarrow> string \<Rightarrow> bool result" where
  "IsOlderThan isspace v version_str =
     bind_result (Version isspace version_str) (\<lambda>proposed_ver.
     if \<not> IsValid proposed_ver then Inr False
     else bind_result (CompareTo v proposed_ver) (\<lambda>c. Inr (c < 0)))"

definition CompareToWildcardString :: "(char \<Rightarrow> bool) \<Rightarrow> version \<Rightarrow> string \<Rightarrow> int result" where
  "CompareToWildcardString isspace v wildcard_string =
     (if \<not> IsValid v then Inl Check_Failed
      else bind_result (IsValidWildcardString isspace wildcard_string) (\<lambda>valid.
      if \<not> valid then Inl Check_Failed
      else if \<not> EndsWithT val8 mk8 wildcard_string ''.*'' SENSITIVE then
        bind_result (Version isspace wildcard_string) (\<lambda>w.
        if \<not> IsValid w then Inl Check_Failed else CompareTo v w)
      else
        bind_result (ParseVersionNumbers isspace
            (substr wildcard_string 0 (length wildcard_string - 2))) (\<lambda>(success, parsed).
        if \<not> success then Inl Check_Failed
        else
          let comparison = CompareVersionComponents (components v) parsed
          in if comparison = -1 \<or> comparison = 0 then Inr comparison
             else if \<not> length parsed > 0 then Inl Check_Failed
             else
               let min_num_comp = min (length (components v)) (length parsed)
               in if \<exists>i \<in> set [0..<min_num_comp]. components v ! i \<noteq> parsed ! i then Inr 1 else Inr 0)))"

section \<open>Printing\<close>

text \<open>The loop over all components but the last, and the last.\<close>

fun version_text :: "int list \<Rightarrow> string \<Rightarrow> string result" where
  "version_text [] version_str = Inl Out_Of_Bounds"
| "version_text [c] version_str = bind_result (UintToString c) (\<lambda>s. Inr (version_str @ s))"
| "version_text (c # cs) version_str =
     bind_result (UintToString c) (\<lambda>s. version_text cs (version_str @ s @ ''.''))"

definition GetString :: "version \<Rightarrow> string result" where
  "GetString v = (if \<not> IsValid v then Inl Check_Failed else version_text (components v) [])"

section \<open>The order of versions\<close>

definition pad_to :: "nat \<Rightarrow> int list \<Rightarrow> int list" where
  "pad_to n xs = xs @ replicate (n - length xs) 0"

lemma pad_to_Cons: "pad_to (Suc n) (x # xs) = x # pad_to n xs"
  by (simp add: pad_to_def)

lemma pad_to_Nil: "pad_to n [] = replicate n 0"
  by (simp add: pad_to_def)

lemma CompareVersionComponents_simps [simp]:
  "CompareVersionComponents (x # xs) (y # ys) =
     (if x > y then 1 else if x < y then -1 else CompareVersionComponents xs ys)"
  "CompareVersionComponents xs [] = (if \<exists>x \<in> set xs. x > 0 then 1 else 0)"
  "CompareVersionComponents [] ys = (if \<exists>y \<in> set ys. y > 0 then -1 else 0)"
  by (simp_all add: CompareVersionComponents_def Let_def)

lemma lex_compare_zeros:
  assumes "\<forall>x \<in> set xs. 0 \<le> x" "length xs \<le> n"
  shows "lex_compare (pad_to n xs) (replicate n 0) = (if \<exists>x \<in> set xs. x > 0 then 1 else 0)"
  using assms
proof (induction xs arbitrary: n)
  case Nil
  then show ?case by (simp add: pad_to_Nil lex_compare_0)
next
  case (Cons x xs)
  then show ?case by (cases n) (auto simp: pad_to_Cons)
qed

text \<open>Missing components count as zeros, and the lexicographic order decides.\<close>

lemma compare_is_lex:
  assumes "\<forall>x \<in> set a. 0 \<le> x" "\<forall>x \<in> set b. 0 \<le> x" "length a \<le> n" "length b \<le> n"
  shows "CompareVersionComponents a b = lex_compare (pad_to n a) (pad_to n b)"
  using assms
proof (induction a arbitrary: b n)
  case Nil
  then show ?case
    using lex_compare_zeros [of b n] lex_compare_swap [of "replicate n 0" "pad_to n b"]
    by (auto simp: pad_to_Nil)
next
  case (Cons x a)
  show ?case
  proof (cases b)
    case Nil
    then show ?thesis using lex_compare_zeros [of "x # a" n] Cons.prems by (simp add: pad_to_Nil)
  next
    case (Cons y ys)
    with Cons.prems Cons.IH show ?thesis by (cases n) (auto simp: pad_to_Cons)
  qed
qed

section \<open>What is a version number\<close>

definition is_component :: "string \<Rightarrow> bool" where
  "is_component f \<longleftrightarrow> f \<noteq> [] \<and> list_all is_digit f \<and> nat_of_dec f < 2 ^ 32"

definition version_fields :: "string \<Rightarrow> string list" where
  "version_fields s = String_Split.fields (\<lambda>c. c = CHR ''.'') s"

definition is_version :: "string \<Rightarrow> bool" where
  "is_version s \<longleftrightarrow> list_all is_component (version_fields s) \<and>
     dec_of_nat (nat_of_dec (hd (version_fields s))) = hd (version_fields s)"

lemma is_digit_val8: "is_digit c \<longleftrightarrow> 48 \<le> val8 c \<and> val8 c \<le> 57"
proof -
  have "int (of_char c) < int 256" using nat_of_char_less_256 [of c] by (simp only: of_nat_less_iff)
  then show ?thesis
    using of_nat_of_char [of c, where 'a = int] by (auto simp: is_digit_def val8_def Let_def)
qed

lemma digit_val_val8: "is_digit c \<Longrightarrow> int (digit_val c) = val8 c - 48"
  using of_nat_of_char [of c, where 'a = int] by (auto simp: is_digit_def digit_val_def val8_def Let_def)

lemma CharToDigit_val8: "CharToDigit val8 10 c = (if is_digit c then Some (int (digit_val c)) else None)"
  by (auto simp: CharToDigit_def Convert_le10_def is_digit_val8 digit_val_val8)

lemma is_digit_of_val8: "is_digit_of val8 10 = is_digit"
  by (simp add: fun_eq_iff is_digit_of_def CharToDigit_val8)

lemma digits_value_dec:
  assumes "list_all is_digit f"
  shows "digits_value 1 10 0 (leading_digits val8 10 f) = int (nat_of_dec f)"
  using assms
proof (induction f rule: rev_induct)
  case (snoc c f)
  then show ?case
    by (simp add: leading_digits_append is_digit_of_val8 digits_value_append CharToDigit_val8 nat_of_dec_def)
qed (simp add: nat_of_dec_def)

text \<open>No locale counts a digit as white space.\<close>

definition digits_not_space :: "(char \<Rightarrow> bool) \<Rightarrow> bool" where
  "digits_not_space isspace \<longleftrightarrow> (\<forall>c. is_digit c \<longrightarrow> \<not> isspace c)"

lemma StringToUint_component:
  assumes ws: "digits_not_space isspace"
  shows "(\<not> StartsWithT val8 mk8 f ''+'' SENSITIVE \<and> StringToUint isspace f out = (True, num)) \<longleftrightarrow>
    is_component f \<and> num = int (nat_of_dec f)"
proof -
  have val8_signs: "val8 c = 43 \<longleftrightarrow> c = CHR ''+''" for c
  proof -
    have "val8 (CHR ''+'') = 43" by (simp add: val8_def of_char_def)
    then show ?thesis using char8.val_inj [of c "CHR ''+''"] by auto
  qed
  have uint: "sizeof uint_t > 0" "\<not> is_signed uint_t" "in_type uint_t x \<longleftrightarrow> 0 \<le> x \<and> x < 2 ^ 32" for x
    by (auto simp: uint_t_def in_type_def traits_min_def traits_max_def bits_of_def)
  note eq = StringToUint_def StringToIntImpl_def IteratorRangeToNumber_eq [OF uint(1)] uint
    number_spec_def number_sign_def skip_hex_prefix_def is_digit_of_val8 is_component_def
  show ?thesis
  proof (cases f)
    case Nil
    then show ?thesis by (simp add: eq)
  next
    case (Cons c cs)
    consider "isspace c" | "\<not> isspace c" "val8 c = 45" | "\<not> isspace c" "c = CHR ''+''"
      | "\<not> isspace c" "val8 c \<noteq> 45" "c \<noteq> CHR ''+''" by blast
    then show ?thesis
    proof cases
      case 1
      then have "fst (StringToUint isspace f out) = False" using Cons by (simp add: eq split: prod.split)
      then show ?thesis using 1 ws Cons by (auto simp: is_component_def digits_not_space_def)
    next
      case 2
      then show ?thesis using Cons by (auto simp: eq is_digit_val8)
    next
      case 3
      have "\<not> is_digit (CHR ''+'')" by (simp add: is_digit_def of_char_def)
      then show ?thesis using 3 Cons by (auto simp: char8.starts_with eq)
    next
      case 4
      then have "StringToUint isspace f out = (list_all is_digit f \<and> in_type uint_t (digits_value 1 10 0 (leading_digits val8 10 f)),
          clamp uint_t (digits_value 1 10 0 (leading_digits val8 10 f)))"
        using Cons by (simp add: eq val8_signs Let_def del: leading_digits_simps)
      then show ?thesis using 4 Cons digits_value_dec [of f]
        by (auto simp: char8.starts_with is_component_def uint clamp_in)
    qed
  qed
qed

lemma UintToString_dec: "0 \<le> n \<Longrightarrow> n < 2 ^ 32 \<Longrightarrow> UintToString n = Inr (dec_of_int n)"
  unfolding UintToString_def dec_of_int_text
  by (rule IntToStringT_correct) (simp_all add: in_type_def traits_min_def traits_max_def uint_t_def bits_of_def)

lemma parse_loop_rest:
  assumes ws: "digits_not_space isspace"
  shows "\<exists>ps. parse_numbers_loop isspace False fs parsed = Inr (list_all is_component fs, parsed @ ps) \<and>
    (list_all is_component fs \<longrightarrow> ps = map (\<lambda>f. int (nat_of_dec f)) fs)"
proof (induction fs arbitrary: parsed)
  case (Cons f fs)
  obtain ok num where c: "StringToUint isspace f 0 = (ok, num)" by fastforce
  note comp = StringToUint_component [OF ws, of f 0]
  show ?case
  proof (cases "is_component f")
    case True
    with comp have "\<not> StartsWithT val8 mk8 f ''+'' SENSITIVE" "StringToUint isspace f 0 = (True, int (nat_of_dec f))"
      by blast+
    with Cons [of "parsed @ [int (nat_of_dec f)]"] True show ?thesis by auto
  next
    case False
    with comp c have "StartsWithT val8 mk8 f ''+'' SENSITIVE \<or> \<not> ok" by auto
    with False c show ?thesis by auto
  qed
qed simp

lemma parse_loop_first:
  assumes ws: "digits_not_space isspace" and fs: "fs \<noteq> []"
  defines "ok \<equiv> list_all is_component fs \<and> dec_of_nat (nat_of_dec (hd fs)) = hd fs"
  shows "\<exists>ps. parse_numbers_loop isspace True fs [] = Inr (ok, ps) \<and>
    (ok \<longrightarrow> ps = map (\<lambda>f. int (nat_of_dec f)) fs)"
proof -
  obtain f fs' where f: "fs = f # fs'" using fs by (cases fs) auto
  obtain b num where c: "StringToUint isspace f 0 = (b, num)" by fastforce
  note comp = StringToUint_component [OF ws, of f 0]
  show ?thesis
  proof (cases "is_component f")
    case True
    then have n: "int (nat_of_dec f) < 2 ^ 32" by (simp add: is_component_def flip: of_nat_less_iff)
    from True comp have "\<not> StartsWithT val8 mk8 f ''+'' SENSITIVE" "StringToUint isspace f 0 = (True, int (nat_of_dec f))"
      by blast+
    then have "parse_numbers_loop isspace True fs [] =
      (if dec_of_nat (nat_of_dec f) \<noteq> f then Inr (False, []) else parse_numbers_loop isspace False fs' [int (nat_of_dec f)])"
      using UintToString_dec [of "int (nat_of_dec f)"] n by (simp add: f dec_of_int_def)
    with parse_loop_rest [OF ws, of fs' "[int (nat_of_dec f)]"] True show ?thesis by (auto simp: ok_def f)
  next
    case False
    with comp c have "StartsWithT val8 mk8 f ''+'' SENSITIVE \<or> \<not> b" by auto
    with False c show ?thesis by (auto simp: f ok_def)
  qed
qed

lemma ParseVersionNumbers_eq:
  assumes "digits_not_space isspace" "length s < npos"
  shows "\<exists>ps. ParseVersionNumbers isspace s = Inr (is_version s, ps) \<and>
    (is_version s \<longrightarrow> ps = map (\<lambda>f. int (nat_of_dec f)) (version_fields s))"
proof (cases "s = []")
  case True
  have "version_fields [] = [[]]" by (simp add: version_fields_def fields_none)
  then show ?thesis using True assms(2)
    by (simp add: ParseVersionNumbers_def SplitStringPiece_eq SplitString_fields is_version_def is_component_def)
next
  case False
  have "SplitString s ''.'' KEEP_WHITESPACE SPLIT_WANT_ALL = Inr (version_fields s)"
    using False assms(2) by (simp add: SplitString_fields want_def version_fields_def)
  moreover have "version_fields s \<noteq> []" by (simp add: version_fields_def)
  ultimately show ?thesis
    using parse_loop_first [OF assms(1), of "version_fields s"]
    by (simp add: ParseVersionNumbers_def SplitStringPiece_eq is_version_def)
qed

lemma Version_eq:
  assumes "digits_not_space isspace" "length s < npos"
  shows "Version isspace s = Inr \<lparr>components =
    (if is_version s then map (\<lambda>f. int (nat_of_dec f)) (version_fields s) else [])\<rparr>"
  using ParseVersionNumbers_eq [OF assms] by (auto simp: Version_def)

lemma version_text_join:
  assumes "cs \<noteq> []" "\<forall>c \<in> set cs. 0 \<le> c \<and> c < 2 ^ 32"
  shows "version_text cs acc = Inr (acc @ JoinStringT (map dec_of_int cs) ''.'')"
  using assms by (induction cs acc rule: version_text.induct) (auto simp: UintToString_dec)

lemma dec_of_int_component:
  assumes "0 \<le> c" "c < 2 ^ 32"
  shows "is_component (dec_of_int c)" "int (nat_of_dec (dec_of_int c)) = c" "CHR ''.'' \<notin> set (dec_of_int c)"
    "dec_of_nat (nat_of_dec (dec_of_int c)) = dec_of_int c"
proof -
  have dot: "\<not> is_digit (CHR ''.'')" by (simp add: is_digit_def of_char_def)
  show "is_component (dec_of_int c)" "int (nat_of_dec (dec_of_int c)) = c" "CHR ''.'' \<notin> set (dec_of_int c)"
    "dec_of_nat (nat_of_dec (dec_of_int c)) = dec_of_int c"
    using assms dec_of_nat_digits [of _ "nat c"] dot
    by (auto simp: is_component_def dec_of_int_def list_all_iff)
qed

lemma fields_of_text:
  assumes "cs \<noteq> []" "\<forall>c \<in> set cs. 0 \<le> c \<and> c < 2 ^ 32"
  shows "version_fields (JoinStringT (map dec_of_int cs) ''.'') = map dec_of_int cs"
  unfolding version_fields_def using assms by (intro fields_join) (auto simp: dec_of_int_component(3))

lemma text_is_version:
  assumes "cs \<noteq> []" "\<forall>c \<in> set cs. 0 \<le> c \<and> c < 2 ^ 32"
  shows "is_version (JoinStringT (map dec_of_int cs) ''.'')"
  using assms by (simp add: is_version_def fields_of_text list_all_iff dec_of_int_component hd_map)

lemma compare_prefix: "CompareVersionComponents a (a @ xs) \<le> 0"
  by (induction a) simp_all

lemma agree_is_prefix:
  assumes "CompareVersionComponents a p = 1"
  shows "(\<exists>i \<in> set [0..<min (length a) (length p)]. a ! i \<noteq> p ! i) \<longleftrightarrow> \<not> prefix p a"
proof -
  have "prefix p a" if agree: "\<forall>i < min (length a) (length p). a ! i = p ! i"
  proof (cases "length p \<le> length a")
    case True
    with agree have "take (length p) a = p" by (auto intro: nth_equalityI)
    with True show ?thesis by (simp add: prefix_take)
  next
    case False
    with agree have "take (length a) p = a" by (auto intro: nth_equalityI)
    then have "p = a @ drop (length a) p" by (metis append_take_drop_id)
    then show ?thesis using compare_prefix [of a "drop (length a) p"] assms by simp
  qed
  moreover have "a ! i = p ! i" if "prefix p a" "i < length p" for i
    using that by (auto simp: prefix_def nth_append)
  ultimately have "prefix p a \<longleftrightarrow> (\<forall>i < min (length a) (length p). a ! i = p ! i)" by auto
  then show ?thesis by (simp add: Bex_def)
qed

lemma CompareVersionComponents_range: "CompareVersionComponents a b \<in> {-1, 0, 1}"
  by (induction a b rule: compare_common.induct) auto

text \<open>
  C26. A string is taken for a version number exactly when its dot-separated fields are decimal
  numbers below two to the 32 and the first has no leading zero; the components are then the values
  of the fields. What \<^verbatim>\<open>GetString\<close> prints for any list of 32-bit components is read back as that list.
\<close>

theorem version_roundtrip:
  assumes "digits_not_space isspace" "length s < npos"
    and "cs \<noteq> []" "\<forall>c \<in> set cs. 0 \<le> c \<and> c < 2 ^ 32" "length (JoinStringT (map dec_of_int cs) ''.'') < npos"
  shows "Version isspace s = Inr \<lparr>components =
      (if is_version s then map (\<lambda>f. int (nat_of_dec f)) (version_fields s) else [])\<rparr> \<and>
    bind_result (GetString \<lparr>components = cs\<rparr>) (Version isspace) = Inr \<lparr>components = cs\<rparr>"
proof -
  have "GetString \<lparr>components = cs\<rparr> = Inr (JoinStringT (map dec_of_int cs) ''.'')"
    using version_text_join [OF assms(3,4), of "[]"] assms(3) by (simp add: GetString_def IsValid_def)
  moreover have "map (\<lambda>f. int (nat_of_dec f)) (map dec_of_int cs) = cs"
    using assms(4) by (simp add: comp_def map_idI dec_of_int_component(2))
  ultimately show ?thesis
    using Version_eq [OF assms(1,2)] Version_eq [OF assms(1,5)] text_is_version [OF assms(3,4)]
    by (simp add: fields_of_text [OF assms(3,4)])
qed

lemma isspace_C_sane: "digits_not_space isspace_C"
  by (auto simp: digits_not_space_def isspace_C_def is_digit_val8)

lemmas component_eval = is_component_def is_digit_def of_char_def nat_of_dec_def digit_val_def
  dec_of_nat.simps digit_char_def char_of_def bit_numeral_rec bit_0

theorem version_roundtrip_witness:
  "Version isspace_C ''1.02'' = Inr \<lparr>components = [1, 2]\<rparr> \<and>
   bind_result (GetString \<lparr>components = [1, 20]\<rparr>) (Version isspace_C) = Inr \<lparr>components = [1, 20]\<rparr>"
proof -
  have "JoinStringT (map dec_of_int [1, 20]) ''.'' = ''1.20''" by code_simp
  then have "length (JoinStringT (map dec_of_int [1, 20]) ''.'') < npos" "length ''1.02'' < npos"
    by (simp_all add: npos_def)
  moreover have "version_fields ''1.02'' = [''1'', ''02'']" by code_simp
  ultimately show ?thesis
    using version_roundtrip [OF isspace_C_sane, of "''1.02''" "[1, 20]"]
    by (simp add: is_version_def component_eval)
qed

text \<open>
  The order of versions is the lexicographic order of the components, missing ones counting as
  zero, whatever the lengths; so it is antisymmetric and transitive, and \<^verbatim>\<open>1.2\<close> equals \<^verbatim>\<open>1.2.0\<close>. A
  version compares with the wildcard \<open>w.*\<close> as with \<open>w\<close>, except that a greater version of which \<open>w\<close> is
  the beginning is equal to it.
\<close>

theorem version_order:
  assumes "\<forall>x \<in> set a \<union> set b \<union> set c. 0 \<le> x" "digits_not_space isspace"
    and "is_version w" "length w + 2 < npos" "a \<noteq> []"
  defines "p \<equiv> map (\<lambda>f. int (nat_of_dec f)) (version_fields w)"
  shows "CompareVersionComponents a b =
      lex_compare (pad_to (max (length a) (length b)) a) (pad_to (max (length a) (length b)) b) \<and>
    CompareVersionComponents b a = - CompareVersionComponents a b \<and>
    (CompareVersionComponents a b \<le> 0 \<longrightarrow> CompareVersionComponents b c \<le> 0 \<longrightarrow>
      CompareVersionComponents a c \<le> 0) \<and>
    CompareToWildcardString isspace \<lparr>components = a\<rparr> (w @ ''.*'') =
      Inr (if CompareVersionComponents a p = 1 \<and> prefix p a then 0 else CompareVersionComponents a p)"
proof (intro conjI impI)
  obtain n where n: "length a \<le> n" "length b \<le> n" "length c \<le> n" by (meson le_max_iff_disj order.refl)
  have ab: "CompareVersionComponents a b = lex_compare (pad_to n a) (pad_to n b)"
    and ba: "CompareVersionComponents b a = lex_compare (pad_to n b) (pad_to n a)"
    and bc: "CompareVersionComponents b c = lex_compare (pad_to n b) (pad_to n c)"
    and ac: "CompareVersionComponents a c = lex_compare (pad_to n a) (pad_to n c)"
    using assms(1) n by (auto intro!: compare_is_lex)
  show "CompareVersionComponents a b =
      lex_compare (pad_to (max (length a) (length b)) a) (pad_to (max (length a) (length b)) b)"
    using assms(1) by (intro compare_is_lex) auto
  show "CompareVersionComponents b a = - CompareVersionComponents a b"
    unfolding ab ba by (rule lex_compare_swap)
  show "CompareVersionComponents a b \<le> 0 \<Longrightarrow> CompareVersionComponents b c \<le> 0 \<Longrightarrow>
      CompareVersionComponents a c \<le> 0"
    unfolding ab bc ac by (rule lex_compare_trans)
  have w: "ParseVersionNumbers isspace w = Inr (True, p)" "Version isspace w = Inr \<lparr>components = p\<rparr>"
    using ParseVersionNumbers_eq [OF assms(2), of w] Version_eq [OF assms(2), of w] assms(3,4)
    by (auto simp: p_def)
  have "p \<noteq> []" by (simp add: p_def version_fields_def)
  moreover have "substr (w @ ''.*'') 0 (length w) = w" by (simp add: substr_def)
  moreover have "EndsWithT val8 mk8 (w @ ''.*'') ''.*'' SENSITIVE" by (simp add: char8.ends_with suffix_def)
  ultimately show "CompareToWildcardString isspace \<lparr>components = a\<rparr> (w @ ''.*'') =
      Inr (if CompareVersionComponents a p = 1 \<and> prefix p a then 0 else CompareVersionComponents a p)"
    using w assms(5) agree_is_prefix [of a p] CompareVersionComponents_range [of a p]
    by (auto simp: CompareToWildcardString_def IsValidWildcardString_def IsValid_def Let_def)
qed

theorem version_order_witness:
  "CompareVersionComponents [1, 2] [1, 2, 0] = 0 \<and>
   CompareToWildcardString isspace_C \<lparr>components = [1, 2, 3]\<rparr> ''1.2.*'' = Inr 0"
proof -
  have f: "version_fields ''1.2'' = [''1'', ''2'']" by code_simp
  then have "is_version ''1.2''" by (simp add: is_version_def component_eval)
  then show ?thesis
    using version_order [OF _ isspace_C_sane, of "[1, 2, 3]" "[1, 2, 0]" "[]" "''1.2''"]
    by (simp add: npos_def f nat_of_dec_def digit_val_def of_char_def)
qed

end
