(* ===== verification/Block_Hash.thy ===== *)
theory Block_Hash
  imports Prelude
begin

unbundle bit_operations_syntax

text \<open>
  What the two message digests of the base library, base/md5.cc and base/sha1_portable.cc, have in
  common: memory as bytes, words in both byte orders, and the contract of a hash that takes its
  message in pieces. The contract is the locale \<open>stream_hash\<close>; its theorem says that the digest of a
  message does not depend on the pieces and is the compression of the padded message, block by
  block. The theories \<open>Md5\<close> and \<open>Sha1\<close> interpret it.
\<close>

type_synonym byte = "8 word"

section \<open>Bytes and words\<close>

definition store32 :: "32 word \<Rightarrow> byte list" where
  "store32 w = [ucast w, ucast (drop_bit 8 w), ucast (drop_bit 16 w), ucast (drop_bit 24 w)]"

definition load32 :: "byte \<Rightarrow> byte \<Rightarrow> byte \<Rightarrow> byte \<Rightarrow> 32 word" where
  "load32 b0 b1 b2 b3 =
     ucast b0 OR push_bit 8 (ucast b1) OR push_bit 16 (ucast b2) OR push_bit 24 (ucast b3)"

text \<open>A byte array read as an array of 32-bit words by a cast, on a little-endian machine.\<close>

fun words_of :: "byte list \<Rightarrow> 32 word list" where
  "words_of (b0 # b1 # b2 # b3 # bs) = load32 b0 b1 b2 b3 # words_of bs"
| "words_of _ = []"

lemma byte_high: "8 \<le> n \<Longrightarrow> \<not> bit (b :: byte) n" and word32_high: "32 \<le> n \<Longrightarrow> \<not> bit (w :: 32 word) n"
  using bit_imp_le_length [of b n] bit_imp_le_length [of w n] by auto

lemma unat_less_32: "unat (w :: 32 word) < 2 ^ 32"
  using unsigned_less [of w] by simp

lemma bit32_cases:
  assumes "n < LENGTH(32)"
  obtains "n < 8" | k where "n = 8 + k" "k < 8" | k where "n = 16 + k" "k < 8" | k where "n = 24 + k" "k < 8"
  using assms less_imp_add_positive nat_le_iff_add
  by (cases "n < 8"; cases "n < 16"; cases "n < 24") (force simp: not_less)+

lemma store32_load32 [simp]: "store32 (load32 b0 b1 b2 b3) = [b0, b1, b2, b3]"
  unfolding store32_def load32_def
  by (auto intro!: bit_word_eqI simp: bit_simps byte_high)

lemma length_store32 [simp]: "length (store32 w) = 4"
  by (simp add: store32_def)

lemma load32_store32: "store32 w = [b0, b1, b2, b3] \<Longrightarrow> load32 b0 b1 b2 b3 = w"
proof -
  assume "store32 w = [b0, b1, b2, b3]"
  then have b: "b0 = ucast w" "b1 = ucast (drop_bit 8 w)" "b2 = ucast (drop_bit 16 w)" "b3 = ucast (drop_bit 24 w)"
    by (simp_all add: store32_def)
  show ?thesis
  proof (rule bit_word_eqI)
    fix n assume "n < LENGTH(32)"
    then consider "n < 8" | k where "n = 8 + k" "k < 8" | k where "n = 16 + k" "k < 8"
      | k where "n = 24 + k" "k < 8" by (rule bit32_cases)
    then show "bit (load32 b0 b1 b2 b3) n = bit w n" unfolding b load32_def
      by cases (simp_all add: bit_simps)
  qed
qed

lemma words_of_concat [simp]: "words_of (concat (map store32 ws)) = ws"
proof (induction ws)
  case (Cons w ws)
  obtain b0 b1 b2 b3 where s: "store32 w = [b0, b1, b2, b3]" by (simp add: store32_def)
  with Cons show ?case by (simp add: load32_store32)
qed simp

lemma four_dvd [simp]:
  "4 dvd Suc (Suc (Suc (Suc k))) \<longleftrightarrow> 4 dvd (k :: nat)" "\<not> 4 dvd Suc (Suc (Suc 0))" "\<not> 4 dvd Suc (Suc 0)"
  by presburger+

lemma concat_store32_words: "4 dvd length bs \<Longrightarrow> concat (map store32 (words_of bs)) = bs"
  by (induction bs rule: words_of.induct) auto

lemma length_words_of: "length (words_of bs) = length bs div 4"
  by (induction bs rule: words_of.induct) auto

lemma words_of_append: "4 dvd length xs \<Longrightarrow> words_of (xs @ ys) = words_of xs @ words_of ys"
  by (induction xs rule: words_of.induct) auto

text \<open>\<^verbatim>\<open>memcpy\<close> of \<open>src\<close> to offset \<open>p\<close> of an array.\<close>

definition memcpy_at :: "byte list \<Rightarrow> nat \<Rightarrow> byte list \<Rightarrow> byte list result" where
  "memcpy_at dst p src =
     (if p + length src \<le> length dst then Inr (take p dst @ src @ drop (p + length src) dst)
      else Inl Out_Of_Bounds)"

section \<open>Rotation\<close>

definition rotl32 :: "nat \<Rightarrow> 32 word \<Rightarrow> 32 word" where
  "rotl32 s w = (push_bit s w OR drop_bit (32 - s) w)"

lemma rotl32_eq:
  assumes "s < 32"
  shows "rotl32 s w = word_rotl s w"
proof (rule bit_word_eqI)
  fix n assume n: "n < LENGTH(32)"
  have l: "bit (rotl32 s w) n \<longleftrightarrow> s \<le> n \<and> bit w (n - s) \<or> bit w (32 - s + n)"
    using n by (simp add: rotl32_def bit_simps)
  have r: "bit (word_rotl s w) n \<longleftrightarrow> bit w ((n + (32 - s)) mod 32)"
    using n assms by (simp add: bit_word_rotl_iff)
  show "bit (rotl32 s w) n = bit (word_rotl s w) n"
  proof (cases "s \<le> n")
    case True
    then have "(n + (32 - s)) mod 32 = n - s" using n assms by (simp add: mod_if)
    with True show ?thesis unfolding l r by (simp add: word32_high)
  next
    case False
    then have "(n + (32 - s)) mod 32 = 32 - s + n" using n by simp
    with False show ?thesis unfolding l r by simp
  qed
qed

section \<open>Absorbing a message block by block\<close>

function absorb :: "('s \<Rightarrow> byte list \<Rightarrow> 's) \<Rightarrow> 's \<Rightarrow> byte list \<Rightarrow> 's \<times> byte list" where
  "absorb compress h xs =
     (if length xs < 64 then (h, xs) else absorb compress (compress h (take 64 xs)) (drop 64 xs))"
  by pat_completeness auto

termination
  by (relation "measure (\<lambda>(compress, h, xs). length xs)") auto

declare absorb.simps [simp del]

lemma absorb_short: "length xs < 64 \<Longrightarrow> absorb compress h xs = (h, xs)"
  by (simp add: absorb.simps)

lemma absorb_block: "length b = 64 \<Longrightarrow> absorb compress h (b @ xs) = absorb compress (compress h b) xs"
  by (subst absorb.simps) simp

lemma absorb_append:
  "absorb compress h (xs @ ys) =
     (case absorb compress h xs of (h', r) \<Rightarrow> absorb compress h' (r @ ys))"
proof (induction compress h xs rule: absorb.induct)
  case (1 compress h xs)
  show ?case
  proof (cases "length xs < 64")
    case False
    with 1 show ?thesis by (simp add: absorb.simps [of compress h])
  qed (simp add: absorb_short)
qed

lemma absorb_rest: "length (snd (absorb compress h xs)) = length xs mod 64"
proof (induction compress h xs rule: absorb.induct)
  case (1 compress h xs)
  then show ?case
    by (cases "length xs < 64") (simp_all add: absorb.simps [of compress h xs] le_mod_geq)
qed

text \<open>
  The padding of a message of \<open>n\<close> bytes: one bit, zeros up to eight bytes before the end of a block,
  and the number of bits in the byte order of the hash.
\<close>

definition padding :: "nat \<Rightarrow> byte list \<Rightarrow> byte list" where
  "padding n len_field = 0x80 # replicate ((119 - n mod 64) mod 64) 0 @ len_field"

definition hash_of :: "('s \<Rightarrow> byte list \<Rightarrow> 's) \<Rightarrow> 's \<Rightarrow> (64 word \<Rightarrow> byte list) \<Rightarrow> byte list \<Rightarrow> 's" where
  "hash_of compress iv len_bytes msg =
     fst (absorb compress iv (msg @ padding (length msg) (len_bytes (of_nat (8 * length msg)))))"

lemma padding_mod [simp]: "padding (n mod 64) f = padding n f"
  by (simp add: padding_def)

section \<open>The contract of a streaming hash\<close>

text \<open>A message handed over in pieces.\<close>

fun updates :: "('c \<Rightarrow> byte list \<Rightarrow> 'c result) \<Rightarrow> 'c \<Rightarrow> byte list list \<Rightarrow> 'c result" where
  "updates Update c [] = Inr c"
| "updates Update c (d # ds) = bind_result (Update c d) (\<lambda>c. updates Update c ds)"

text \<open>
  \<open>chain\<close>, \<open>pending\<close> and \<open>bit_count\<close> read off the chaining value, the bytes of the incomplete block and
  the length counter of a context that satisfies \<open>ok\<close>. An update fails by no fault, absorbs its
  bytes and counts them; the end absorbs the padding that the counter asks for.
\<close>

locale stream_hash =
  fixes Update :: "'c \<Rightarrow> byte list \<Rightarrow> 'c result"
    and Final :: "'c \<Rightarrow> 'd result"
    and ok :: "'c \<Rightarrow> bool"
    and chain :: "'c \<Rightarrow> 's"
    and pending :: "'c \<Rightarrow> byte list"
    and bit_count :: "'c \<Rightarrow> 64 word"
    and compress :: "'s \<Rightarrow> byte list \<Rightarrow> 's"
    and len_bytes :: "64 word \<Rightarrow> byte list"
    and digest_of :: "'s \<Rightarrow> 'd"
  assumes Update_law: "ok c \<Longrightarrow>
      \<exists>c'. Update c data = Inr c' \<and> ok c' \<and>
        (chain c', pending c') = absorb compress (chain c) (pending c @ data) \<and>
        bit_count c' = bit_count c + of_nat (8 * length data)"
    and Final_law: "ok c \<Longrightarrow>
      Final c = Inr (digest_of (fst (absorb compress (chain c)
        (pending c @ padding (length (pending c)) (len_bytes (bit_count c))))))"
begin

lemma updates_absorb:
  assumes "ok c" "length (pending c) < 64"
  shows "\<exists>c'. updates Update c ds = Inr c' \<and> ok c' \<and>
    (chain c', pending c') = absorb compress (chain c) (pending c @ concat ds) \<and>
    bit_count c' = bit_count c + of_nat (8 * length (concat ds))"
  using assms
proof (induction ds arbitrary: c)
  case Nil
  then show ?case by (simp add: absorb_short)
next
  case (Cons d ds)
  from Update_law [OF Cons.prems(1), of d]
  obtain c1 where c1: "Update c d = Inr c1" "ok c1"
    "absorb compress (chain c) (pending c @ d) = (chain c1, pending c1)"
    "bit_count c1 = bit_count c + of_nat (8 * length d)" by auto
  have "length (pending c1) < 64"
    using absorb_rest [of compress "chain c" "pending c @ d"] c1(3) by simp
  from Cons.IH [OF c1(2) this]
  obtain c2 where c2: "updates Update c1 ds = Inr c2" "ok c2"
    "(chain c2, pending c2) = absorb compress (chain c1) (pending c1 @ concat ds)"
    "bit_count c2 = bit_count c1 + of_nat (8 * length (concat ds))" by auto
  have "absorb compress (chain c) (pending c @ concat (d # ds)) = (chain c2, pending c2)"
    using absorb_append [of compress "chain c" "pending c @ d" "concat ds"] c1(3) c2(3) by simp
  with c1 c2 show ?case by (simp add: algebra_simps)
qed

theorem streaming:
  assumes "ok c" "pending c = []" "bit_count c = 0"
  shows "bind_result (updates Update c ds) Final =
    Inr (digest_of (hash_of compress (chain c) len_bytes (concat ds)))"
proof -
  have "length (pending c) < 64" by (simp add: assms(2))
  from updates_absorb [OF assms(1) this, of ds, unfolded assms(2,3) append_Nil add_0]
  obtain c' where c': "updates Update c ds = Inr c'" "ok c'"
    "absorb compress (chain c) (concat ds) = (chain c', pending c')"
    "bit_count c' = of_nat (8 * length (concat ds))" by auto
  have len: "length (pending c') = length (concat ds) mod 64"
    using absorb_rest [of compress "chain c" "concat ds"] unfolding c'(3) by simp
  have "hash_of compress (chain c) len_bytes (concat ds) = fst (absorb compress (chain c')
      (pending c' @ padding (length (pending c')) (len_bytes (bit_count c'))))"
    unfolding hash_of_def absorb_append [of compress "chain c" "concat ds"] c'(3,4) len padding_mod
    by (simp only: prod.case)
  then show ?thesis unfolding c'(1) bind_result_simps Final_law [OF c'(2)] by (simp only:)
qed

end

end
