(* ===== verification/Md5.thy ===== *)
theory Md5
  imports Block_Hash
begin

unbundle bit_operations_syntax

text \<open>
  base/md5.cc. The context is the structure \<^verbatim>\<open>Context\<close>; a write outside its arrays is the fault
  \<^const>\<open>Out_Of_Bounds\<close>. The machine is little-endian, as the target of the build is. The contract of
  \<open>Block_Hash\<close> is interpreted for the context, and the unrolled transformation is shown equal to the
  loop by which RFC 1321 defines the compression.
\<close>

section \<open>The transformation\<close>

text \<open>
  The macros \<^verbatim>\<open>F1\<close> to \<^verbatim>\<open>F4\<close>, the four local variables, and one entry per line of the body of
  \<^verbatim>\<open>MD5Transform\<close>: \<^verbatim>\<open>MD5STEP(f, w, x, y, z, in[i] + k, s)\<close> is the tuple \<open>(f, w, x, y, z, i, k, s)\<close>.
\<close>

datatype md5_macro = F1 | F2 | F3 | F4

datatype md5_reg = RA | RB | RC | RD

definition F1_word :: "32 word \<Rightarrow> 32 word \<Rightarrow> 32 word \<Rightarrow> 32 word" where
  "F1_word x y z = z XOR (x AND (y XOR z))"

definition F2_word :: "32 word \<Rightarrow> 32 word \<Rightarrow> 32 word \<Rightarrow> 32 word" where
  "F2_word x y z = F1_word z x y"

definition F3_word :: "32 word \<Rightarrow> 32 word \<Rightarrow> 32 word \<Rightarrow> 32 word" where
  "F3_word x y z = x XOR y XOR z"

definition F4_word :: "32 word \<Rightarrow> 32 word \<Rightarrow> 32 word \<Rightarrow> 32 word" where
  "F4_word x y z = y XOR (x OR NOT z)"

fun md5_apply :: "md5_macro \<Rightarrow> 32 word \<Rightarrow> 32 word \<Rightarrow> 32 word \<Rightarrow> 32 word" where
  "md5_apply F1 = F1_word"
| "md5_apply F2 = F2_word"
| "md5_apply F3 = F3_word"
| "md5_apply F4 = F4_word"

type_synonym md5_line = "md5_macro \<times> md5_reg \<times> md5_reg \<times> md5_reg \<times> md5_reg \<times> nat \<times> 32 word \<times> nat"

definition MD5STEP :: "32 word list \<Rightarrow> md5_line \<Rightarrow> (md5_reg \<Rightarrow> 32 word) \<Rightarrow> (md5_reg \<Rightarrow> 32 word)" where
  "MD5STEP inp = (\<lambda>(f, w, x, y, z, i, k, s) r.
     let v = r w + (md5_apply f (r x) (r y) (r z) + (inp ! i + k));
         v = push_bit s v OR drop_bit (32 - s) v
     in r(w := v + r x))"

definition md5_round1 :: "md5_line list" where
  "md5_round1 = [
    (F1, RA, RB, RC, RD, 0, 0xd76aa478, 7),
    (F1, RD, RA, RB, RC, 1, 0xe8c7b756, 12),
    (F1, RC, RD, RA, RB, 2, 0x242070db, 17),
    (F1, RB, RC, RD, RA, 3, 0xc1bdceee, 22),
    (F1, RA, RB, RC, RD, 4, 0xf57c0faf, 7),
    (F1, RD, RA, RB, RC, 5, 0x4787c62a, 12),
    (F1, RC, RD, RA, RB, 6, 0xa8304613, 17),
    (F1, RB, RC, RD, RA, 7, 0xfd469501, 22),
    (F1, RA, RB, RC, RD, 8, 0x698098d8, 7),
    (F1, RD, RA, RB, RC, 9, 0x8b44f7af, 12),
    (F1, RC, RD, RA, RB, 10, 0xffff5bb1, 17),
    (F1, RB, RC, RD, RA, 11, 0x895cd7be, 22),
    (F1, RA, RB, RC, RD, 12, 0x6b901122, 7),
    (F1, RD, RA, RB, RC, 13, 0xfd987193, 12),
    (F1, RC, RD, RA, RB, 14, 0xa679438e, 17),
    (F1, RB, RC, RD, RA, 15, 0x49b40821, 22)]"

definition md5_round2 :: "md5_line list" where
  "md5_round2 = [
    (F2, RA, RB, RC, RD, 1, 0xf61e2562, 5),
    (F2, RD, RA, RB, RC, 6, 0xc040b340, 9),
    (F2, RC, RD, RA, RB, 11, 0x265e5a51, 14),
    (F2, RB, RC, RD, RA, 0, 0xe9b6c7aa, 20),
    (F2, RA, RB, RC, RD, 5, 0xd62f105d, 5),
    (F2, RD, RA, RB, RC, 10, 0x02441453, 9),
    (F2, RC, RD, RA, RB, 15, 0xd8a1e681, 14),
    (F2, RB, RC, RD, RA, 4, 0xe7d3fbc8, 20),
    (F2, RA, RB, RC, RD, 9, 0x21e1cde6, 5),
    (F2, RD, RA, RB, RC, 14, 0xc33707d6, 9),
    (F2, RC, RD, RA, RB, 3, 0xf4d50d87, 14),
    (F2, RB, RC, RD, RA, 8, 0x455a14ed, 20),
    (F2, RA, RB, RC, RD, 13, 0xa9e3e905, 5),
    (F2, RD, RA, RB, RC, 2, 0xfcefa3f8, 9),
    (F2, RC, RD, RA, RB, 7, 0x676f02d9, 14),
    (F2, RB, RC, RD, RA, 12, 0x8d2a4c8a, 20)]"

definition md5_round3 :: "md5_line list" where
  "md5_round3 = [
    (F3, RA, RB, RC, RD, 5, 0xfffa3942, 4),
    (F3, RD, RA, RB, RC, 8, 0x8771f681, 11),
    (F3, RC, RD, RA, RB, 11, 0x6d9d6122, 16),
    (F3, RB, RC, RD, RA, 14, 0xfde5380c, 23),
    (F3, RA, RB, RC, RD, 1, 0xa4beea44, 4),
    (F3, RD, RA, RB, RC, 4, 0x4bdecfa9, 11),
    (F3, RC, RD, RA, RB, 7, 0xf6bb4b60, 16),
    (F3, RB, RC, RD, RA, 10, 0xbebfbc70, 23),
    (F3, RA, RB, RC, RD, 13, 0x289b7ec6, 4),
    (F3, RD, RA, RB, RC, 0, 0xeaa127fa, 11),
    (F3, RC, RD, RA, RB, 3, 0xd4ef3085, 16),
    (F3, RB, RC, RD, RA, 6, 0x04881d05, 23),
    (F3, RA, RB, RC, RD, 9, 0xd9d4d039, 4),
    (F3, RD, RA, RB, RC, 12, 0xe6db99e5, 11),
    (F3, RC, RD, RA, RB, 15, 0x1fa27cf8, 16),
    (F3, RB, RC, RD, RA, 2, 0xc4ac5665, 23)]"

definition md5_round4 :: "md5_line list" where
  "md5_round4 = [
    (F4, RA, RB, RC, RD, 0, 0xf4292244, 6),
    (F4, RD, RA, RB, RC, 7, 0x432aff97, 10),
    (F4, RC, RD, RA, RB, 14, 0xab9423a7, 15),
    (F4, RB, RC, RD, RA, 5, 0xfc93a039, 21),
    (F4, RA, RB, RC, RD, 12, 0x655b59c3, 6),
    (F4, RD, RA, RB, RC, 3, 0x8f0ccc92, 10),
    (F4, RC, RD, RA, RB, 10, 0xffeff47d, 15),
    (F4, RB, RC, RD, RA, 1, 0x85845dd1, 21),
    (F4, RA, RB, RC, RD, 8, 0x6fa87e4f, 6),
    (F4, RD, RA, RB, RC, 15, 0xfe2ce6e0, 10),
    (F4, RC, RD, RA, RB, 6, 0xa3014314, 15),
    (F4, RB, RC, RD, RA, 13, 0x4e0811a1, 21),
    (F4, RA, RB, RC, RD, 4, 0xf7537e82, 6),
    (F4, RD, RA, RB, RC, 11, 0xbd3af235, 10),
    (F4, RC, RD, RA, RB, 2, 0x2ad7d2bb, 15),
    (F4, RB, RC, RD, RA, 9, 0xeb86d391, 21)]"

definition MD5Transform :: "32 word list \<Rightarrow> 32 word list \<Rightarrow> 32 word list" where
  "MD5Transform buf inp =
     (let r = (\<lambda>_. 0)(RA := buf ! 0, RB := buf ! 1, RC := buf ! 2, RD := buf ! 3);
          r = fold (MD5STEP inp) md5_round1 r;
          r = fold (MD5STEP inp) md5_round2 r;
          r = fold (MD5STEP inp) md5_round3 r;
          r = fold (MD5STEP inp) md5_round4 r
      in [buf ! 0 + r RA, buf ! 1 + r RB, buf ! 2 + r RC, buf ! 3 + r RD])"

section \<open>The context\<close>

record md5_context =
  buf :: "32 word list"
  bits :: "32 word list"
  inp :: "byte list"

text \<open>
  \<^verbatim>\<open>byteReverse\<close> reads each group of four bytes as a little-endian number and stores it in the order
  of the machine. The loop tests its counter at the end, so a count of zero would run off the array.
\<close>

fun byteReverse :: "byte list \<Rightarrow> nat \<Rightarrow> byte list result" where
  "byteReverse (b0 # b1 # b2 # b3 # bs) (Suc longs) =
     (let temp = push_bit 16 (push_bit 8 (ucast b3) OR ucast b2) OR (push_bit 8 (ucast b1) OR ucast b0) :: 32 word
      in if longs = 0 then Inr (store32 temp @ bs)
         else bind_result (byteReverse bs longs) (\<lambda>bs. Inr (store32 temp @ bs)))"
| "byteReverse _ _ = Inl Out_Of_Bounds"

text \<open>The three statements that compress the input array.\<close>

definition md5_process :: "md5_context \<Rightarrow> md5_context result" where
  "md5_process ctx =
     bind_result (byteReverse (inp ctx) 16) (\<lambda>b.
     Inr (ctx\<lparr>buf := MD5Transform (buf ctx) (words_of b), inp := b\<rparr>))"

definition MD5Init :: "md5_context \<Rightarrow> md5_context" where
  "MD5Init ctx = ctx\<lparr>buf := [0x67452301, 0xefcdab89, 0x98badcfe, 0x10325476], bits := [0, 0]\<rparr>"

text \<open>The update of the bit count: \<^verbatim>\<open>len\<close> is a 64-bit size, the counters have 32 bits each.\<close>

definition md5_count :: "32 word list \<Rightarrow> nat \<Rightarrow> 32 word list" where
  "md5_count bts len =
     (let t = bts ! 0;
          lo = t + push_bit 3 (of_nat len);
          hi = (if lo < t then bts ! 1 + 1 else bts ! 1)
      in [lo, hi + of_nat (len div 2 ^ 29)])"

text \<open>The loop over whole blocks and the copy of the remaining bytes.\<close>

function md5_blocks :: "md5_context \<Rightarrow> byte list \<Rightarrow> md5_context result" where
  "md5_blocks ctx data =
     (if length data \<ge> 64 then
        bind_result (memcpy_at (inp ctx) 0 (take 64 data)) (\<lambda>b.
        bind_result (md5_process (ctx\<lparr>inp := b\<rparr>)) (\<lambda>ctx.
        md5_blocks ctx (drop 64 data)))
      else bind_result (memcpy_at (inp ctx) 0 data) (\<lambda>b. Inr (ctx\<lparr>inp := b\<rparr>)))"
  by pat_completeness auto

termination
  by (relation "measure (\<lambda>(ctx, data). length data)") auto

declare md5_blocks.simps [simp del]

definition MD5Update :: "md5_context \<Rightarrow> byte list \<Rightarrow> md5_context result" where
  "MD5Update ctx data =
     (let t0 = bits ctx ! 0;
          ctx = ctx\<lparr>bits := md5_count (bits ctx) (length data)\<rparr>;
          p = unat (drop_bit 3 t0 AND 0x3f)
      in if p \<noteq> 0 then
           let t = 64 - p
           in if length data < t
              then bind_result (memcpy_at (inp ctx) p data) (\<lambda>b. Inr (ctx\<lparr>inp := b\<rparr>))
              else bind_result (memcpy_at (inp ctx) p (take t data)) (\<lambda>b.
                   bind_result (md5_process (ctx\<lparr>inp := b\<rparr>)) (\<lambda>ctx.
                   md5_blocks ctx (drop t data)))
         else md5_blocks ctx data)"

text \<open>
  \<^verbatim>\<open>MD5Final\<close>. The bytes of the two counters are copied in the order of the machine. The last
  statement clears the context, so the result is the digest and the cleared context.
\<close>

definition cleared :: md5_context where
  "cleared = \<lparr>buf = replicate 4 0, bits = replicate 2 0, inp = replicate 64 0\<rparr>"

definition md5_pad :: "md5_context \<Rightarrow> md5_context result" where
  "md5_pad ctx =
     (let count = unat (drop_bit 3 (bits ctx ! 0) AND 0x3f)
      in bind_result (memcpy_at (inp ctx) count [0x80]) (\<lambda>b.
         let p = count + 1; count = 64 - 1 - count
         in if count < 8
            then bind_result (memcpy_at b p (replicate count 0)) (\<lambda>b.
                 bind_result (md5_process (ctx\<lparr>inp := b\<rparr>)) (\<lambda>ctx.
                 bind_result (memcpy_at (inp ctx) 0 (replicate 56 0)) (\<lambda>b. Inr (ctx\<lparr>inp := b\<rparr>))))
            else bind_result (memcpy_at b p (replicate (count - 8) 0)) (\<lambda>b. Inr (ctx\<lparr>inp := b\<rparr>))))"

definition MD5Final :: "md5_context \<Rightarrow> (byte list \<times> md5_context) result" where
  "MD5Final ctx =
     bind_result (md5_pad ctx) (\<lambda>ctx.
     bind_result (byteReverse (inp ctx) 14) (\<lambda>b.
     bind_result (memcpy_at b (14 * 4) (store32 (bits ctx ! 0))) (\<lambda>b.
     bind_result (memcpy_at b (15 * 4) (store32 (bits ctx ! 1))) (\<lambda>b.
     let h = MD5Transform (buf ctx) (words_of b)
     in bind_result (byteReverse (concat (map store32 h)) 4) (\<lambda>d. Inr (take 16 d, cleared))))))"

definition MD5IntermediateFinal :: "md5_context \<Rightarrow> byte list result" where
  "MD5IntermediateFinal ctx = bind_result (MD5Final ctx) (\<lambda>(digest, context_copy). Inr digest)"

definition zEncode :: string where
  "zEncode = ''0123456789abcdef''"

definition MD5DigestToBase16 :: "byte list \<Rightarrow> string" where
  "MD5DigestToBase16 digest =
     fold (\<lambda>i ret. let a = digest ! i;
                       ret = ret[i * 2 := zEncode ! unat (drop_bit 4 a AND 0xf)]
                   in ret[i * 2 + 1 := zEncode ! unat (a AND 0xf)])
       [0..<16] (replicate 32 (CHR 0x00))"

text \<open>The context of \<^verbatim>\<open>MD5Sum\<close> is a local variable that nothing has initialised.\<close>

definition MD5Sum :: "md5_context \<Rightarrow> byte list \<Rightarrow> byte list result" where
  "MD5Sum ctx data =
     bind_result (MD5Update (MD5Init ctx) data) (\<lambda>ctx.
     bind_result (MD5Final ctx) (\<lambda>(digest, ctx). Inr digest))"

definition MD5String :: "md5_context \<Rightarrow> byte list \<Rightarrow> string result" where
  "MD5String ctx str = bind_result (MD5Sum ctx str) (\<lambda>digest. Inr (MD5DigestToBase16 digest))"

section \<open>The transformation is that of RFC 1321\<close>

text \<open>
  The RFC's own terms: the auxiliary functions, the table of constants, the order in which a round
  takes the words of the block and the amounts of rotation, and one loop over the 64 operations that
  moves the four variables round.
\<close>

definition rfc_F :: "nat \<Rightarrow> 32 word \<Rightarrow> 32 word \<Rightarrow> 32 word \<Rightarrow> 32 word" where
  "rfc_F i x y z =
     (if i < 16 then (x AND y) OR (NOT x AND z)
      else if i < 32 then (x AND z) OR (y AND NOT z)
      else if i < 48 then x XOR y XOR z
      else y XOR (x OR NOT z))"

definition rfc_index :: "nat \<Rightarrow> nat" where
  "rfc_index i =
     (if i < 16 then i else if i < 32 then (5 * i + 1) mod 16 else if i < 48 then (3 * i + 5) mod 16
      else 7 * i mod 16)"

definition rfc_shift :: "nat \<Rightarrow> nat" where
  "rfc_shift i =
     (if i < 16 then [7, 12, 17, 22] else if i < 32 then [5, 9, 14, 20]
      else if i < 48 then [4, 11, 16, 23] else [6, 10, 15, 21]) ! (i mod 4)"

definition rfc_T :: "32 word list" where
  "rfc_T = [
    0xd76aa478, 0xe8c7b756, 0x242070db, 0xc1bdceee, 0xf57c0faf, 0x4787c62a,
    0xa8304613, 0xfd469501, 0x698098d8, 0x8b44f7af, 0xffff5bb1, 0x895cd7be,
    0x6b901122, 0xfd987193, 0xa679438e, 0x49b40821, 0xf61e2562, 0xc040b340,
    0x265e5a51, 0xe9b6c7aa, 0xd62f105d, 0x02441453, 0xd8a1e681, 0xe7d3fbc8,
    0x21e1cde6, 0xc33707d6, 0xf4d50d87, 0x455a14ed, 0xa9e3e905, 0xfcefa3f8,
    0x676f02d9, 0x8d2a4c8a, 0xfffa3942, 0x8771f681, 0x6d9d6122, 0xfde5380c,
    0xa4beea44, 0x4bdecfa9, 0xf6bb4b60, 0xbebfbc70, 0x289b7ec6, 0xeaa127fa,
    0xd4ef3085, 0x04881d05, 0xd9d4d039, 0xe6db99e5, 0x1fa27cf8, 0xc4ac5665,
    0xf4292244, 0x432aff97, 0xab9423a7, 0xfc93a039, 0x655b59c3, 0x8f0ccc92,
    0xffeff47d, 0x85845dd1, 0x6fa87e4f, 0xfe2ce6e0, 0xa3014314, 0x4e0811a1,
    0xf7537e82, 0xbd3af235, 0x2ad7d2bb, 0xeb86d391]"

definition rfc_operation ::
  "32 word list \<Rightarrow> nat \<Rightarrow> 32 word \<times> 32 word \<times> 32 word \<times> 32 word \<Rightarrow> 32 word \<times> 32 word \<times> 32 word \<times> 32 word" where
  "rfc_operation X i = (\<lambda>(a, b, c, d).
     (d, b + word_rotl (rfc_shift i) (a + rfc_F i b c d + X ! rfc_index i + rfc_T ! i), b, c))"

definition md5_compress :: "32 word list \<Rightarrow> byte list \<Rightarrow> 32 word list" where
  "md5_compress h block =
     (case fold (rfc_operation (words_of block)) [0..<64] (h ! 0, h ! 1, h ! 2, h ! 3) of
        (a, b, c, d) \<Rightarrow> [h ! 0 + a, h ! 1 + b, h ! 2 + c, h ! 3 + d])"

text \<open>The optimised macros and the lines of the code, against the RFC's.\<close>

definition macro_of :: "nat \<Rightarrow> md5_macro" where
  "macro_of i = [F1, F2, F3, F4] ! (i div 16)"

definition role :: "nat \<Rightarrow> md5_reg" where
  "role k = [RA, RD, RC, RB] ! (k mod 4)"

lemma md5_apply_rfc: "i < 64 \<Longrightarrow> md5_apply (macro_of i) x y z = rfc_F i x y z"
proof -
  assume "i < 64"
  then consider "i < 16" "i div 16 = 0" | "\<not> i < 16" "i < 32" "i div 16 = 1"
    | "\<not> i < 16" "\<not> i < 32" "i < 48" "i div 16 = 2" | "\<not> i < 16" "\<not> i < 32" "\<not> i < 48" "i div 16 = 3"
    by (cases "i < 16"; cases "i < 32"; cases "i < 48") auto
  then show ?thesis
    by cases (auto simp: macro_of_def rfc_F_def F1_word_def F2_word_def F3_word_def F4_word_def bit_simps
        intro!: bit_word_eqI)
qed

lemma md5_lines:
  "md5_round1 @ md5_round2 @ md5_round3 @ md5_round4 =
   map (\<lambda>i. (macro_of i, role i, role (i + 3), role (i + 2), role (i + 1), rfc_index i, rfc_T ! i, rfc_shift i)) [0..<64]"
  by code_simp

lemma role_simps:
  "role (i + 4) = role i" "role (Suc i) \<noteq> role i" "role (i + 2) \<noteq> role i" "role (i + 3) \<noteq> role i"
proof -
  have m: "Suc i mod 4 = (i mod 4 + 1) mod 4" "(i + 2) mod 4 = (i mod 4 + 2) mod 4"
    "(i + 3) mod 4 = (i mod 4 + 3) mod 4"
    by presburger+
  have "i mod 4 < 4" by simp
  then have "i mod 4 = 0 \<or> i mod 4 = 1 \<or> i mod 4 = 2 \<or> i mod 4 = 3" by linarith
  then show "role (Suc i) \<noteq> role i" "role (i + 2) \<noteq> role i" "role (i + 3) \<noteq> role i"
    unfolding role_def m by (elim disjE; simp)+
  show "role (i + 4) = role i" by (simp add: role_def)
qed

definition line_of :: "nat \<Rightarrow> md5_line" where
  "line_of i = (macro_of i, role i, role (i + 3), role (i + 2), role (i + 1), rfc_index i, rfc_T ! i, rfc_shift i)"

definition roles :: "(md5_reg \<Rightarrow> 32 word) \<Rightarrow> nat \<Rightarrow> 32 word \<times> 32 word \<times> 32 word \<times> 32 word" where
  "roles r i = (r (role i), r (role (i + 3)), r (role (i + 2)), r (role (i + 1)))"

lemma rfc_shift_less: "rfc_shift i < 32"
proof -
  have "i mod 4 < 4" by simp
  then have "i mod 4 = 0 \<or> i mod 4 = 1 \<or> i mod 4 = 2 \<or> i mod 4 = 3" by linarith
  then show ?thesis by (auto simp: rfc_shift_def)
qed

lemma MD5STEP_rfc:
  assumes "i < 64"
  shows "roles (MD5STEP X (line_of i) r) (Suc i) = rfc_operation X i (roles r i)"
proof -
  have n: "Suc i + 3 = i + 4" "Suc i + 2 = i + 3" "Suc i + 1 = i + 2" "i + 1 = Suc i" by simp_all
  show ?thesis
    unfolding roles_def line_of_def n
    by (simp add: MD5STEP_def rfc_operation_def role_simps role_simps(3) [simplified] Let_def md5_apply_rfc [OF assms]
        rotl32_eq [OF rfc_shift_less, unfolded rotl32_def] algebra_simps)
qed

lemma md5_lines_run:
  "n \<le> 64 \<Longrightarrow> roles (fold (MD5STEP X) (map line_of [0..<n]) r) n = fold (rfc_operation X) [0..<n] (roles r 0)"
  by (induction n) (simp_all add: MD5STEP_rfc)

lemma MD5Transform_rfc: "MD5Transform h (words_of block) = md5_compress h block"
proof -
  let ?X = "words_of block" and ?r = "(\<lambda>_. 0)(RA := h ! 0, RB := h ! 1, RC := h ! 2, RD := h ! 3)"
  let ?e = "fold (MD5STEP ?X) (map line_of [0..<64]) ?r"
  have "md5_round1 @ md5_round2 @ md5_round3 @ md5_round4 = map line_of [0..<64]"
    unfolding md5_lines by (simp add: line_of_def)
  then have "fold (MD5STEP ?X) (md5_round1 @ md5_round2 @ md5_round3 @ md5_round4) ?r = ?e" by simp
  then have "MD5Transform h ?X = [h ! 0 + ?e RA, h ! 1 + ?e RB, h ! 2 + ?e RC, h ! 3 + ?e RD]"
    unfolding MD5Transform_def Let_def fold_append comp_def by (simp only:)
  moreover have "fold (rfc_operation ?X) [0..<64] (h ! 0, h ! 1, h ! 2, h ! 3) = (?e RA, ?e RB, ?e RC, ?e RD)"
    using md5_lines_run [of 64 ?X ?r] by (simp add: roles_def role_def)
  ultimately show ?thesis unfolding md5_compress_def by (simp only: prod.case)
qed

section \<open>The context keeps the contract of a streaming hash\<close>

definition md5_pos :: "md5_context \<Rightarrow> nat" where
  "md5_pos ctx = unat (drop_bit 3 (bits ctx ! 0) AND 0x3f)"

definition md5_ok :: "md5_context \<Rightarrow> bool" where
  "md5_ok ctx \<longleftrightarrow> length (inp ctx) = 64 \<and> length (bits ctx) = 2"

definition md5_pending :: "md5_context \<Rightarrow> byte list" where
  "md5_pending ctx = take (md5_pos ctx) (inp ctx)"

definition md5_bit_count :: "md5_context \<Rightarrow> 64 word" where
  "md5_bit_count ctx = of_nat (unat (bits ctx ! 0) + unat (bits ctx ! 1) * 2 ^ 32)"

definition md5_len_bytes :: "64 word \<Rightarrow> byte list" where
  "md5_len_bytes w = store32 (ucast w) @ store32 (ucast (drop_bit 32 w))"

lemma byteReverse_id: "4 * n \<le> length bs \<Longrightarrow> 0 < n \<Longrightarrow> byteReverse bs n = Inr bs"
proof (induction bs n rule: byteReverse.induct)
  case (1 b0 b1 b2 b3 bs longs)
  have "push_bit 16 (push_bit 8 (ucast b3) OR ucast b2) OR (push_bit 8 (ucast b1) OR ucast b0) = load32 b0 b1 b2 b3"
    by (simp add: load32_def push_bit_or or.assoc or.commute or.left_commute)
  with 1 show ?case by (cases "longs = 0") (simp_all add: Let_def)
qed auto

lemma md5_pos_eq: "md5_pos ctx = unat (bits ctx ! 0) div 8 mod 64"
proof -
  have "unat (drop_bit 3 w AND 0x3f) = unat w div 8 mod 64" for w :: "32 word"
  proof -
    have "drop_bit 3 w AND 0x3f = take_bit 6 (drop_bit 3 w)"
      by (simp add: take_bit_eq_mask mask_eq_exp_minus_1)
    then have "unat (drop_bit 3 w AND 0x3f) = take_bit 6 (drop_bit 3 (unat w))"
      using take_bit_nat_eq_self [OF unat_less_32 [of w]]
      by (simp only: unsigned_take_bit_eq unsigned_drop_bit_eq) simp
    then show ?thesis by (simp only: take_bit_eq_mod drop_bit_eq_div) simp
  qed
  then show ?thesis by (simp add: md5_pos_def)
qed

lemma md5_pos_less: "md5_pos ctx < 64"
  by (simp add: md5_pos_eq)

lemma md5_process_eq:
  "length (inp ctx) = 64 \<Longrightarrow> md5_process ctx = Inr (ctx\<lparr>buf := md5_compress (buf ctx) (inp ctx)\<rparr>)"
  by (simp add: md5_process_def byteReverse_id MD5Transform_rfc)

text \<open>The two 32-bit counters with their carry are one counter of 64 bits.\<close>

lemma unat_bits_added: "unat (push_bit 3 (of_nat n) :: 32 word) = 8 * n mod 2 ^ 32"
proof -
  have "push_bit 3 (of_nat n) = (of_nat (8 * n) :: 32 word)" by (simp add: push_bit_eq_mult)
  then show ?thesis by (simp only: unat_of_nat) simp
qed

lemma unat_add_32: "unat (a + b :: 32 word) = (unat a + unat b) mod 2 ^ 32"
  by (simp add: unat_word_ariths)

lemma md5_count_low: "unat (md5_count bts n ! 0) = (unat (bts ! 0) + 8 * n) mod 2 ^ 32"
  by (simp add: md5_count_def Let_def unat_add_32 unat_bits_added mod_add_right_eq)

lemma md5_count_pos:
  "unat (md5_count bts n ! 0) div 8 mod 64 = (unat (bts ! 0) div 8 mod 64 + n) mod 64"
proof -
  have "x mod 4294967296 div 8 mod 64 = x div 8 mod 64" for x :: nat
    using mod_mult2_eq [of x 8 536870912] mod_mod_cancel [of 64 536870912 "x div 8"] by simp
  then show ?thesis by (simp add: md5_count_low mod_add_left_eq mod_add_right_eq add.commute)
qed

lemma md5_count_64:
  "of_nat (unat (md5_count bts n ! 0) + unat (md5_count bts n ! 1) * 2 ^ 32) =
    (of_nat (unat (bts ! 0) + unat (bts ! 1) * 2 ^ 32) + of_nat (8 * n) :: 64 word)"
proof -
  let ?N = "4294967296 :: nat" and ?t = "bts ! 0" and ?h = "bts ! 1" and ?c = "md5_count bts n"
  define e where "e = 8 * n mod ?N"
  define c where "c = (unat ?t + e) div ?N"
  define d where "d = (unat ?h + c + n div 2 ^ 29) div ?N"
  have "8 * n mod ?N = 8 * (n mod 536870912)" using mult_mod_right [of 8 n 536870912] by simp
  then have n: "8 * n = e + ?N * (n div 2 ^ 29)"
    using div_mult_mod_eq [of n 536870912] unfolding e_def by (simp, linarith)
  have e: "e < ?N" by (simp add: e_def)
  have t: "unat ?t < ?N" using unat_less_32 [of ?t] by simp
  have lo: "unat (?c ! 0) = (unat ?t + e) mod ?N"
    by (simp add: md5_count_low e_def mod_add_right_eq)
  have c: "c = (if ?c ! 0 < ?t then 1 else 0)"
  proof (cases "unat ?t + e < ?N")
    case True
    then show ?thesis using lo by (simp add: c_def word_less_nat_alt)
  next
    case False
    then have "(unat ?t + e) mod ?N = unat ?t + e - ?N" "(unat ?t + e) div ?N = 1"
      using t e by (simp_all add: mod_if div_if)
    then show ?thesis using lo e t False by (simp add: c_def word_less_nat_alt)
  qed
  have "?c ! 1 = ?h + of_nat (c + n div 2 ^ 29)"
    using c by (simp add: md5_count_def Let_def)
  then have "unat (?c ! 1) = (unat ?h + (c + n div 2 ^ 29) mod 2 ^ LENGTH(32)) mod 2 ^ 32"
    by (simp only: unat_add_32 unat_of_nat)
  then have "unat (?c ! 1) = (unat ?h + (c + n div 2 ^ 29)) mod ?N" by (simp add: mod_add_right_eq)
  then have hi: "unat (?c ! 1) + d * ?N = unat ?h + c + n div 2 ^ 29" by (simp add: d_def add.assoc)
  have lo': "unat (?c ! 0) + c * ?N = unat ?t + e" by (simp add: lo c_def)
  have sum: "unat (?c ! 0) + unat (?c ! 1) * 2 ^ 32 + d * 2 ^ 64 = unat ?t + unat ?h * 2 ^ 32 + 8 * n"
    using lo' hi n by simp
  have z: "(18446744073709551616 :: 64 word) = 0" by code_simp
  from arg_cong [OF sum, of "of_nat :: nat \<Rightarrow> 64 word"] show ?thesis by (simp add: z)
qed

lemma md5_len_bytes_eq:
  "md5_len_bytes (of_nat (unat lo + unat hi * 2 ^ 32)) = store32 lo @ store32 hi"
  for lo hi :: "32 word"
proof -
  let ?n = "unat lo + unat hi * 2 ^ 32"
  have l: "unat lo < 2 ^ 32" "unat hi < 2 ^ 32" by (rule unat_less_32)+
  then have "?n < 2 ^ 64" by simp
  then have "?n mod 2 ^ LENGTH(64) = ?n" by simp
  then have u: "unat (of_nat ?n :: 64 word) = ?n" unfolding unat_of_nat .
  have "unat (ucast (of_nat ?n :: 64 word) :: 32 word) = ?n mod 2 ^ 32"
    unfolding unsigned_ucast_eq u by (simp add: take_bit_eq_mod)
  then have a: "ucast (of_nat ?n :: 64 word) = lo" using l by (intro word_unat_eq_iff [THEN iffD2]) simp
  have "unat (drop_bit 32 (of_nat ?n :: 64 word)) = unat hi"
    unfolding unsigned_drop_bit_eq u using l by (simp add: drop_bit_eq_div take_bit_eq_mod)
  then have "unat (ucast (drop_bit 32 (of_nat ?n :: 64 word)) :: 32 word) = unat hi"
    unfolding unsigned_ucast_eq using l by (simp add: take_bit_eq_mod)
  then have "ucast (drop_bit 32 (of_nat ?n :: 64 word)) = hi" by (rule word_unat_eq_iff [THEN iffD2])
  with a show ?thesis by (simp add: md5_len_bytes_def)
qed

lemma memcpy_ok:
  "p + length src \<le> length dst \<Longrightarrow>
   memcpy_at dst p src = Inr (take p dst @ src @ drop (p + length src) dst)"
  by (simp add: memcpy_at_def)

text \<open>The context after absorbing \<open>a\<close>, a chaining value and the bytes of an incomplete block.\<close>

definition holds_absorbed :: "32 word list \<Rightarrow> 32 word list \<times> byte list \<Rightarrow> md5_context \<Rightarrow> bool" where
  "holds_absorbed bts a c \<longleftrightarrow>
     bits c = bts \<and> buf c = fst a \<and> length (inp c) = 64 \<and> take (length (snd a)) (inp c) = snd a"

lemma md5_blocks_eq:
  assumes "length (inp ctx) = 64"
  shows "\<exists>c. md5_blocks ctx data = Inr c \<and>
    holds_absorbed (bits ctx) (absorb md5_compress (buf ctx) data) c"
  using assms
proof (induction "length data" arbitrary: ctx data rule: less_induct)
  case less
  show ?case
  proof (cases "length data \<ge> 64")
    case True
    let ?c = "ctx\<lparr>inp := take 64 data, buf := md5_compress (buf ctx) (take 64 data)\<rparr>"
    have "md5_blocks ctx data = md5_blocks ?c (drop 64 data)"
      using True less(2) by (simp add: md5_blocks.simps [of ctx data] memcpy_ok md5_process_eq)
    moreover have "absorb md5_compress (buf ctx) data = absorb md5_compress (buf ?c) (drop 64 data)"
      using True by (simp add: absorb.simps [of md5_compress "buf ctx" data])
    ultimately show ?thesis using less(1) [of "drop 64 data" ?c] True by simp
  next
    case False
    with less(2) show ?thesis
      by (simp add: md5_blocks.simps [of ctx data] memcpy_ok absorb_short holds_absorbed_def)
  qed
qed

lemma MD5Update_law:
  assumes ok: "md5_ok ctx"
  shows "\<exists>c'. MD5Update ctx data = Inr c' \<and> md5_ok c' \<and>
    (buf c', md5_pending c') = absorb md5_compress (buf ctx) (md5_pending ctx @ data) \<and>
    md5_bit_count c' = md5_bit_count ctx + of_nat (8 * length data)"
proof -
  let ?p = "md5_pos ctx" and ?bits = "md5_count (bits ctx) (length data)"
  let ?a = "absorb md5_compress (buf ctx) (md5_pending ctx @ data)"
  have len: "length (inp ctx) = 64" and p: "?p < 64" using ok by (simp_all add: md5_ok_def md5_pos_less)
  have "\<exists>c. MD5Update ctx data = Inr c \<and> holds_absorbed ?bits ?a c"
  proof (cases "?p = 0")
    case True
    with md5_blocks_eq [of "ctx\<lparr>bits := ?bits\<rparr>" data] len show ?thesis
      by (simp add: MD5Update_def md5_pos_def md5_pending_def Let_def)
  next
    case False
    show ?thesis
    proof (cases "length data < 64 - ?p")
      case True
      with False len p show ?thesis
        by (simp add: MD5Update_def md5_pos_def [symmetric] md5_pending_def Let_def memcpy_ok absorb_short
            holds_absorbed_def)
    next
      case long: False
      let ?b = "take ?p (inp ctx) @ take (64 - ?p) data"
      let ?c = "ctx\<lparr>bits := ?bits, inp := ?b, buf := md5_compress (buf ctx) ?b\<rparr>"
      have b: "length ?b = 64" using long p len by simp
      have "MD5Update ctx data = md5_blocks ?c (drop (64 - ?p) data)"
        using False long len p b
        by (simp add: MD5Update_def md5_pos_def [symmetric] Let_def memcpy_ok md5_process_eq)
      moreover have "?a = absorb md5_compress (buf ?c) (drop (64 - ?p) data)"
        using absorb_block [OF b, of md5_compress "buf ctx" "drop (64 - ?p) data"]
        by (simp add: md5_pending_def)
      ultimately show ?thesis using md5_blocks_eq [of ?c "drop (64 - ?p) data"] b by simp
    qed
  qed
  then obtain c where c: "MD5Update ctx data = Inr c" "holds_absorbed ?bits ?a c" by blast
  have "md5_pos c = length (snd ?a)"
    using md5_count_pos [of "bits ctx" "length data"] c(2) p len
    by (simp add: md5_pos_eq holds_absorbed_def absorb_rest md5_pending_def)
  with c md5_count_64 [of "bits ctx" "length data"] show ?thesis
    by (simp add: md5_ok_def md5_pending_def md5_bit_count_def holds_absorbed_def md5_count_def Let_def)
qed

lemma MD5Final_law:
  assumes ok: "md5_ok ctx"
  shows "MD5Final ctx = Inr (concat (map store32 (fst (absorb md5_compress (buf ctx)
    (md5_pending ctx @ padding (length (md5_pending ctx)) (md5_len_bytes (md5_bit_count ctx)))))), cleared)"
proof -
  let ?p = "md5_pos ctx" and ?q = "md5_pending ctx"
  let ?lb = "store32 (bits ctx ! 0) @ store32 (bits ctx ! 1)"
  have len: "length (inp ctx) = 64" and p: "?p < 64" and q: "length ?q = ?p"
    using ok by (simp_all add: md5_ok_def md5_pos_less md5_pending_def)
  have lb: "md5_len_bytes (md5_bit_count ctx) = ?lb" by (simp only: md5_bit_count_def md5_len_bytes_eq)
  have out: "byteReverse (concat (map store32 (md5_compress h b))) 4 = Inr (concat (map store32 (md5_compress h b)))"
    "take 16 (concat (map store32 (md5_compress h b))) = concat (map store32 (md5_compress h b))" for h b
    by (simp_all add: md5_compress_def byteReverse_id split: prod.split)
  have finish: "MD5Final ctx = Inr (concat (map store32 (md5_compress (buf c) (z @ ?lb))), cleared)"
    if "md5_pad ctx = Inr c" "inp c = z @ w" "length z = 56" "length w = 8" "bits c = bits ctx" for c z w
    using that by (simp add: MD5Final_def byteReverse_id memcpy_ok MD5Transform_rfc out Let_def)
  show ?thesis
  proof (cases "?p \<le> 55")
    case True
    let ?z = "?q @ 0x80 # replicate (55 - ?p) 0"
    have "\<not> 63 - ?p < 8" "56 - ?p = Suc (55 - ?p)" "55 - ?p + Suc ?p = 56" using True by simp_all
    then have "md5_pad ctx = Inr (ctx\<lparr>inp := ?z @ drop 56 (inp ctx)\<rparr>)"
      using True len by (simp add: md5_pad_def md5_pos_def [symmetric] Let_def memcpy_ok md5_pending_def)
    then have "MD5Final ctx = Inr (concat (map store32 (md5_compress (buf ctx) (?z @ ?lb))), cleared)"
      using finish [of "ctx\<lparr>inp := ?z @ drop 56 (inp ctx)\<rparr>" ?z "drop 56 (inp ctx)"] True len q by simp
    moreover have "(119 - ?p) mod 64 = 55 - ?p" using True by (simp add: mod_if)
    then have "?q @ padding ?p ?lb = (?z @ ?lb) @ []" "length (?z @ ?lb) = 64"
      using True q p by (simp_all add: padding_def)
    ultimately show ?thesis
      unfolding lb q by (simp only: absorb_block absorb_short) (simp add: absorb_short)
  next
    case False
    let ?b = "?q @ 0x80 # replicate (63 - ?p) 0" and ?z = "replicate 56 0"
    let ?c = "ctx\<lparr>inp := ?z @ drop 56 ?b, buf := md5_compress (buf ctx) ?b\<rparr>"
    have b: "length ?b = 64" using p q by simp
    have "md5_pad ctx = Inr ?c"
      using False len p b by (simp add: md5_pad_def md5_pos_def [symmetric] Let_def memcpy_ok md5_pending_def md5_process_eq)
    then have "MD5Final ctx = Inr (concat (map store32 (md5_compress (buf ?c) (?z @ ?lb))), cleared)"
      using finish [of ?c ?z "drop 56 ?b"] b by simp
    moreover have "?q @ padding ?p ?lb = ?b @ (?z @ ?lb) @ []" "length (?z @ ?lb) = 64"
      using False p by (simp_all add: padding_def replicate_add [symmetric])
    ultimately show ?thesis
      unfolding lb q using b by (simp only: absorb_block) (simp add: absorb_short)
  qed
qed

interpretation md5: stream_hash MD5Update MD5Final md5_ok buf md5_pending md5_bit_count md5_compress
  md5_len_bytes "\<lambda>h. (concat (map store32 h), cleared)"
  by unfold_locales (use MD5Update_law MD5Final_law in blast)+

text \<open>The constants of \<^verbatim>\<open>MD5Init\<close>, and the digest as sixteen bytes.\<close>

definition md5_iv :: "32 word list" where
  "md5_iv = [0x67452301, 0xefcdab89, 0x98badcfe, 0x10325476]"

definition rfc_md5 :: "byte list \<Rightarrow> byte list" where
  "rfc_md5 msg = concat (map store32 (hash_of md5_compress md5_iv md5_len_bytes msg))"

lemma MD5_stream:
  assumes "length (inp ctx) = 64"
  shows "bind_result (updates MD5Update (MD5Init ctx) ds) MD5Final = Inr (rfc_md5 (concat ds), cleared)"
proof -
  have "md5_ok (MD5Init ctx)" "md5_pending (MD5Init ctx) = []" "md5_bit_count (MD5Init ctx) = 0"
    "buf (MD5Init ctx) = md5_iv"
    using assms by (simp_all add: MD5Init_def md5_ok_def md5_pending_def md5_pos_eq md5_bit_count_def md5_iv_def)
  then show ?thesis using md5.streaming [of "MD5Init ctx" ds] by (simp add: rfc_md5_def)
qed

text \<open>
  C27. MD5. However a message is cut into pieces, empty ones included, and whatever the context held
  before, the updates and the end stay inside the arrays of the context and give the digest that
  RFC 1321 defines for the whole message: the chaining values of the loop of 64 operations over the
  blocks of the padded message, with the length counted modulo two to the 64. The one-shot function
  and the intermediate digest agree with it, and the context is left cleared.
\<close>

theorem MD5_correct:
  assumes "length (inp ctx) = 64"
  shows "bind_result (updates MD5Update (MD5Init ctx) ds) MD5Final = Inr (rfc_md5 (concat ds), cleared) \<and>
    bind_result (updates MD5Update (MD5Init ctx) ds) MD5IntermediateFinal = Inr (rfc_md5 (concat ds)) \<and>
    MD5Sum ctx (concat ds) = Inr (rfc_md5 (concat ds)) \<and>
    MD5String ctx (concat ds) = Inr (MD5DigestToBase16 (rfc_md5 (concat ds)))"
proof -
  have one: "MD5Sum ctx msg = Inr (rfc_md5 msg)" for msg
    using MD5_stream [OF assms, of "[msg]"]
    by (auto simp: MD5Sum_def bind_result_def split: sum.splits)
  have "bind_result (updates MD5Update (MD5Init ctx) ds) MD5IntermediateFinal = Inr (rfc_md5 (concat ds))"
    using MD5_stream [OF assms, of ds]
    by (auto simp: MD5IntermediateFinal_def bind_result_def split: sum.splits)
  with one MD5_stream [OF assms, of ds] show ?thesis by (simp add: MD5String_def)
qed

theorem MD5_correct_witness:
  "MD5String cleared [] = Inr ''d41d8cd98f00b204e9800998ecf8427e'' \<and>
   MD5String cleared [0x61, 0x62, 0x63] = Inr ''900150983cd24fb0d6963f7d28e17f72''"
proof -
  have "MD5DigestToBase16 (rfc_md5 (concat [])) = ''d41d8cd98f00b204e9800998ecf8427e''" by code_simp
  moreover have "MD5DigestToBase16 (rfc_md5 (concat [[0x61], [], [0x62, 0x63]])) = ''900150983cd24fb0d6963f7d28e17f72''"
    by code_simp
  ultimately show ?thesis
    using MD5_correct [of cleared "[]"] MD5_correct [of cleared "[[0x61], [], [0x62, 0x63]]"]
    by (simp add: cleared_def)
qed

end
