(* ===== verification/Sha1.thy ===== *)
theory Sha1
  imports Block_Hash
begin

unbundle bit_operations_syntax

text \<open>
  base/sha1_portable.cc. The object is the class \<^verbatim>\<open>SecureHashAlgorithm\<close>, whose union of 64 bytes \<^verbatim>\<open>M\<close>
  and 80 words \<^verbatim>\<open>W\<close> is kept as the words; writing a byte changes a part of a word, in the order of
  the little-endian machine, and writing past \<^verbatim>\<open>M\<close> is the fault \<^const>\<open>Out_Of_Bounds\<close>. The contract of
  \<open>Block_Hash\<close> is interpreted for the object, and the processing of a block, which works in place, is
  shown equal to the definition of FIPS 180.
\<close>

section \<open>The object\<close>

record sha1 =
  rA :: "32 word"
  rB :: "32 word"
  rC :: "32 word"
  rD :: "32 word"
  rE :: "32 word"
  H :: "32 word list"
  W :: "32 word list"
  cursor :: nat
  len :: "64 word"

definition sha1_f :: "nat \<Rightarrow> 32 word \<Rightarrow> 32 word \<Rightarrow> 32 word \<Rightarrow> 32 word" where
  "sha1_f t b c d =
     (if t < 20 then (b AND c) OR (NOT b AND d)
      else if t < 40 then b XOR c XOR d
      else if t < 60 then (b AND c) OR (b AND d) OR (c AND d)
      else b XOR c XOR d)"

definition sha1_S :: "nat \<Rightarrow> 32 word \<Rightarrow> 32 word" where
  "sha1_S n x = (push_bit n x OR drop_bit (32 - n) x)"

definition sha1_K :: "nat \<Rightarrow> 32 word" where
  "sha1_K t =
     (if t < 20 then 0x5a827999
      else if t < 40 then 0x6ed9eba1
      else if t < 60 then 0x8f1bbcdc
      else 0xca62c1d6)"

definition swapends :: "32 word \<Rightarrow> 32 word" where
  "swapends t = (drop_bit 24 t OR (drop_bit 8 t AND 0xff00) OR push_bit 8 (t AND 0xff00) OR push_bit 24 t)"

definition kDigestSizeBytes :: nat where
  "kDigestSizeBytes = 20"

definition sha1_Init :: "sha1 \<Rightarrow> sha1" where
  "sha1_Init s = s\<lparr>rA := 0, rB := 0, rC := 0, rD := 0, rE := 0, cursor := 0, len := 0,
     H := [0x67452301, 0xefcdab89, 0x98badcfe, 0x10325476, 0xc3d2e1f0]\<rparr>"

text \<open>The assignment \<^verbatim>\<open>M[cursor++] = b\<close>.\<close>

definition put_byte :: "32 word \<Rightarrow> nat \<Rightarrow> byte \<Rightarrow> 32 word" where
  "put_byte w k b = (w AND NOT (push_bit (8 * k) 0xff)) OR push_bit (8 * k) (ucast b)"

definition put_M :: "byte \<Rightarrow> sha1 \<Rightarrow> sha1 result" where
  "put_M b s =
     (if cursor s < 64
      then Inr (s\<lparr>W := (W s)[cursor s div 4 := put_byte (W s ! (cursor s div 4)) (cursor s mod 4) b],
                  cursor := cursor s + 1\<rparr>)
      else Inl Out_Of_Bounds)"

section \<open>Processing a block\<close>

definition swap_W :: "32 word list \<Rightarrow> 32 word list" where
  "swap_W w = fold (\<lambda>t w. w[t := swapends (w ! t)]) [0..<16] w"

definition expand_W :: "32 word list \<Rightarrow> 32 word list" where
  "expand_W w =
     fold (\<lambda>t w. w[t := sha1_S 1 (w ! (t - 3) XOR w ! (t - 8) XOR w ! (t - 14) XOR w ! (t - 16))]) [16..<80] w"

definition sha1_step :: "nat \<Rightarrow> sha1 \<Rightarrow> sha1" where
  "sha1_step t s =
     (let TEMP = sha1_S 5 (rA s) + sha1_f t (rB s) (rC s) (rD s) + rE s + W s ! t + sha1_K t
      in s\<lparr>rE := rD s, rD := rC s, rC := sha1_S 30 (rB s), rB := rA s, rA := TEMP\<rparr>)"

definition Process :: "sha1 \<Rightarrow> sha1" where
  "Process s =
     (let s = s\<lparr>W := swap_W (W s)\<rparr>;
          s = s\<lparr>W := expand_W (W s)\<rparr>;
          s = s\<lparr>rA := H s ! 0, rB := H s ! 1, rC := H s ! 2, rD := H s ! 3, rE := H s ! 4\<rparr>;
          s = fold sha1_step [0..<80] s
      in s\<lparr>H := [H s ! 0 + rA s, H s ! 1 + rB s, H s ! 2 + rC s, H s ! 3 + rD s, H s ! 4 + rE s],
           cursor := 0\<rparr>)"

section \<open>Update, padding and end\<close>

fun sha1_Update :: "sha1 \<Rightarrow> byte list \<Rightarrow> sha1 result" where
  "sha1_Update s [] = Inr s"
| "sha1_Update s (b # d) =
     bind_result (put_M b s) (\<lambda>s.
     let s = (if cursor s \<ge> 64 then Process s else s)
     in sha1_Update (s\<lparr>len := len s + 8\<rparr>) d)"

text \<open>The loops \<^verbatim>\<open>while (cursor < limit) M[cursor++] = 0\<close>.\<close>

function zero_to :: "nat \<Rightarrow> sha1 \<Rightarrow> sha1 result" where
  "zero_to limit s =
     (if cursor s < limit
      then (case put_M 0 s of Inl e \<Rightarrow> Inl e | Inr s' \<Rightarrow> zero_to limit s')
      else Inr s)"
  by pat_completeness auto

termination
  by (relation "measure (\<lambda>(limit, s). limit - cursor s)") (auto simp: put_M_def split: if_splits)

declare zero_to.simps [simp del]

fun put_all :: "byte list \<Rightarrow> sha1 \<Rightarrow> sha1 result" where
  "put_all [] s = Inr s"
| "put_all (b # bs) s = bind_result (put_M b s) (put_all bs)"

definition Pad :: "sha1 \<Rightarrow> sha1 result" where
  "Pad s =
     bind_result (put_M 0x80 s) (\<lambda>s.
     bind_result (if cursor s > 64 - 8 then bind_result (zero_to 64 s) (\<lambda>s. Inr (Process s)) else Inr s) (\<lambda>s.
     bind_result (zero_to (64 - 8) s) (\<lambda>s.
     put_all (map (\<lambda>k. ucast (drop_bit k (len s) AND 0xff)) [56, 48, 40, 32, 24, 16, 8, 0]) s)))"

definition sha1_Final :: "sha1 \<Rightarrow> sha1 result" where
  "sha1_Final s =
     bind_result (Pad s) (\<lambda>s.
     let s = Process s in Inr (s\<lparr>H := map swapends (H s)\<rparr>))"

text \<open>\<^verbatim>\<open>Digest\<close> is the memory of \<^verbatim>\<open>H\<close>; the object of \<^verbatim>\<open>SHA1HashBytes\<close> is a local variable.\<close>

definition Digest :: "sha1 \<Rightarrow> byte list" where
  "Digest s = concat (map store32 (H s))"

definition SHA1HashBytes :: "sha1 \<Rightarrow> byte list \<Rightarrow> byte list result" where
  "SHA1HashBytes s data =
     bind_result (sha1_Update (sha1_Init s) data) (\<lambda>s.
     bind_result (sha1_Final s) (\<lambda>s. Inr (take kDigestSizeBytes (Digest s))))"

definition SHA1HashString :: "sha1 \<Rightarrow> byte list \<Rightarrow> byte list result" where
  "SHA1HashString s str =
     bind_result (SHA1HashBytes s str) (\<lambda>hash. Inr (take kDigestSizeBytes hash))"

section \<open>The processing is that of FIPS 180\<close>

fun be_words :: "byte list \<Rightarrow> 32 word list" where
  "be_words (b0 # b1 # b2 # b3 # bs) = load32 b3 b2 b1 b0 # be_words bs"
| "be_words _ = []"

definition fips_f :: "nat \<Rightarrow> 32 word \<Rightarrow> 32 word \<Rightarrow> 32 word \<Rightarrow> 32 word" where
  "fips_f t x y z =
     (if t < 20 then (x AND y) XOR (NOT x AND z)
      else if 40 \<le> t \<and> t < 60 then (x AND y) XOR (x AND z) XOR (y AND z)
      else x XOR y XOR z)"

definition fips_schedule :: "32 word list \<Rightarrow> 32 word list" where
  "fips_schedule m =
     fold (\<lambda>t w. w @ [word_rotl 1 (w ! (t - 3) XOR w ! (t - 8) XOR w ! (t - 14) XOR w ! (t - 16))]) [16..<80] m"

definition fips_round ::
  "32 word list \<Rightarrow> nat \<Rightarrow> 32 word \<times> 32 word \<times> 32 word \<times> 32 word \<times> 32 word
   \<Rightarrow> 32 word \<times> 32 word \<times> 32 word \<times> 32 word \<times> 32 word" where
  "fips_round w t = (\<lambda>(a, b, c, d, e).
     (word_rotl 5 a + fips_f t b c d + e + sha1_K t + w ! t, a, word_rotl 30 b, c, d))"

definition sha1_compress :: "32 word list \<Rightarrow> byte list \<Rightarrow> 32 word list" where
  "sha1_compress h block =
     (case fold (fips_round (fips_schedule (be_words block))) [0..<80] (h ! 0, h ! 1, h ! 2, h ! 3, h ! 4) of
        (a, b, c, d, e) \<Rightarrow> [h ! 0 + a, h ! 1 + b, h ! 2 + c, h ! 3 + d, h ! 4 + e])"

lemma swapends_load32: "swapends (load32 b0 b1 b2 b3) = load32 b3 b2 b1 b0"
proof (rule bit_word_eqI)
  fix n assume n: "n < LENGTH(32)"
  obtain m where m: "m = push_bit 8 (mask 8 :: 32 word)" by simp
  then have ff: "bit m k \<longleftrightarrow> 8 \<le> k \<and> k < 16" for k by (auto simp: bit_simps)
  have sw: "swapends t = drop_bit 24 t OR (drop_bit 8 t AND m) OR push_bit 8 (t AND m) OR push_bit 24 t" for t
    by (simp add: swapends_def m mask_eq_exp_minus_1 push_bit_eq_mult)
  from n consider "n < 8" | k where "n = 8 + k" "k < 8" | k where "n = 16 + k" "k < 8"
    | k where "n = 24 + k" "k < 8"
    by (rule bit32_cases)
  then show "bit (swapends (load32 b0 b1 b2 b3)) n = bit (load32 b3 b2 b1 b0) n"
    by cases (auto simp: sw load32_def bit_simps ff byte_high)
qed

lemma store32_swapends: "store32 (swapends w) = rev (store32 w)"
proof -
  obtain b0 b1 b2 b3 where b: "store32 w = [b0, b1, b2, b3]" by (simp add: store32_def)
  then have "w = load32 b0 b1 b2 b3" by (simp add: load32_store32)
  then show ?thesis by (simp add: swapends_load32)
qed

lemma store32_put_byte: "k < 4 \<Longrightarrow> store32 (put_byte w k b) = (store32 w)[k := b]"
proof -
  have m: "(0xff :: 32 word) = mask 8" by (simp add: mask_eq_exp_minus_1)
  assume "k < 4"
  then consider "k = 0" | "k = 1" | "k = 2" | "k = 3" by linarith
  then show ?thesis
    by cases (auto simp: store32_def put_byte_def m bit_simps byte_high intro!: bit_word_eqI)
qed

text \<open>The bytes \<^verbatim>\<open>M\<close> as they lie in the words.\<close>

definition M_bytes :: "sha1 \<Rightarrow> byte list" where
  "M_bytes s = concat (map store32 (take 16 (W s)))"

lemma concat_update:
  assumes "k < 4" "store32 y = (store32 (xs ! j))[k := b]" "j < length xs"
  shows "concat (map store32 (xs[j := y])) = (concat (map store32 xs))[4 * j + k := b]"
  using assms
proof (induction xs arbitrary: j)
  case (Cons x xs)
  then show ?case by (cases j) (simp_all add: list_update_append)
qed simp

lemma put_M_eq:
  assumes "length (W s) = 80" "cursor s < 64"
  shows "\<exists>s'. put_M b s = Inr s' \<and> length (W s') = 80 \<and> cursor s' = Suc (cursor s) \<and> H s' = H s \<and>
    len s' = len s \<and> M_bytes s' = (M_bytes s)[cursor s := b]"
proof -
  let ?j = "cursor s div 4" and ?k = "cursor s mod 4"
  have j: "?j < 16" using assms(2) by simp
  have "concat (map store32 ((take 16 (W s))[?j := put_byte (W s ! ?j) ?k b])) = (M_bytes s)[4 * ?j + ?k := b]"
    unfolding M_bytes_def using assms(1) j by (intro concat_update) (simp_all add: store32_put_byte)
  then show ?thesis using assms by (simp add: put_M_def M_bytes_def take_update_swap)
qed

lemma length_M_bytes: "length (W s) = 80 \<Longrightarrow> length (M_bytes s) = 64"
  by (simp add: M_bytes_def length_concat comp_def sum_list_triv)

lemma be_words_swap: "length bs = 4 * n \<Longrightarrow> be_words bs = map swapends (words_of bs)"
proof (induction n arbitrary: bs)
  case (Suc n)
  then show ?case by (cases bs rule: be_words.cases) (auto simp: swapends_load32)
qed simp

lemma swap_W_eq:
  assumes "length w = 80"
  shows "swap_W w = map swapends (take 16 w) @ drop 16 w"
proof -
  have "n \<le> 80 \<Longrightarrow> fold (\<lambda>t w. w[t := swapends (w ! t)]) [0..<n] w = map swapends (take n w) @ drop n w" for n
  proof (induction n)
    case (Suc n)
    then show ?case using assms
      by (simp add: nth_append list_update_append take_Suc_conv_app_nth Cons_nth_drop_Suc [symmetric])
  qed simp
  then show ?thesis by (simp add: swap_W_def)
qed

lemma expand_W_eq:
  assumes "length w = 80"
  shows "expand_W w = fips_schedule (take 16 w)"
proof -
  let ?f = "\<lambda>t (w :: 32 word list). word_rotl 1 (w ! (t - 3) XOR w ! (t - 8) XOR w ! (t - 14) XOR w ! (t - 16))"
  let ?app = "\<lambda>n. fold (\<lambda>t w. w @ [?f t w]) [16..<16 + n] (take 16 w)"
  have S: "sha1_S 1 x = word_rotl 1 x" for x using rotl32_eq [of 1 x] by (simp add: rotl32_def sha1_S_def)
  have u: "[16..<16 + Suc n] = [16..<16 + n] @ [16 + n]" for n :: nat
    by (metis add_Suc_right le_add1 upt_Suc_append)
  have l: "length (?app n) = 16 + n" for n
    using assms by (induction n) (simp, simp only: u fold_append comp_apply, simp)
  have e: "n \<le> 64 \<Longrightarrow> fold (\<lambda>t w. w[t := ?f t w]) [16..<16 + n] w = ?app n @ drop (16 + n) w" for n
  proof (induction n)
    case (Suc n)
    have "drop (16 + n) w = w ! (16 + n) # drop (Suc (16 + n)) w" 
      using Suc.prems assms by (intro Cons_nth_drop_Suc [symmetric]) simp
    then show ?case unfolding u using Suc l [of n] by (simp add: nth_append list_update_append)
  qed simp
  have n: "(80 :: nat) = 16 + 64" by simp
  have "drop (16 + 64) w = []" using assms by simp
  then show ?thesis
    unfolding expand_W_def fips_schedule_def S n e [OF order.refl] by (simp only: append_Nil2)
qed

lemma length_fips_schedule: "length m = 16 \<Longrightarrow> length (fips_schedule m) = 80"
proof -
  have l: "length (fold (\<lambda>t w. w @ [f t w]) ts m) = length m + length ts"
    for f :: "nat \<Rightarrow> 32 word list \<Rightarrow> 32 word" and ts m
    by (induction ts arbitrary: m) simp_all
  show "length m = 16 \<Longrightarrow> ?thesis" unfolding fips_schedule_def l by simp
qed

lemma sha1_f_fips: "sha1_f t b c d = fips_f t b c d"
  by (auto simp: sha1_f_def fips_f_def bit_simps intro!: bit_word_eqI)

lemma sha1_S_rotl: "n < 32 \<Longrightarrow> sha1_S n x = word_rotl n x"
  using rotl32_eq [of n x] by (simp add: rotl32_def sha1_S_def)

lemma fips_round_apply: "fips_round w t (a, b, c, d, e) =
    (word_rotl 5 a + fips_f t b c d + e + sha1_K t + w ! t, a, word_rotl 30 b, c, d)"
  by (simp add: fips_round_def)

lemma sha1_rounds:
  fixes s
  defines "r n \<equiv> fold sha1_step [0..<n] s"
  shows "(rA (r n), rB (r n), rC (r n), rD (r n), rE (r n)) =
      fold (fips_round (W s)) [0..<n] (rA s, rB s, rC s, rD s, rE s) \<and>
    W (r n) = W s \<and> H (r n) = H s \<and> len (r n) = len s"
proof (induction n)
  case 0
  then show ?case by (simp add: r_def)
next
  case (Suc n)
  have "r (Suc n) = sha1_step n (r n)" by (simp add: r_def)
  moreover from Suc have "fold (fips_round (W s)) [0..<Suc n] (rA s, rB s, rC s, rD s, rE s) =
    fips_round (W s) n (rA (r n), rB (r n), rC (r n), rD (r n), rE (r n))" by simp
  ultimately show ?case using conjunct2 [OF Suc]
    by (simp del: upt_Suc add: sha1_step_def Let_def fips_round_apply sha1_f_fips sha1_S_rotl algebra_simps)
qed

lemma Process_eq:
  assumes "length (W s) = 80"
  shows "H (Process s) = sha1_compress (H s) (M_bytes s)" "cursor (Process s) = 0"
    "length (W (Process s)) = 80" "len (Process s) = len s"
proof -
  let ?w = "expand_W (swap_W (W s))"
  have "length (M_bytes s) = 4 * 16" using assms by (simp add: length_M_bytes)
  then have b: "be_words (M_bytes s) = map swapends (take 16 (W s))"
    by (simp only: be_words_swap) (simp add: M_bytes_def)
  have w: "?w = fips_schedule (be_words (M_bytes s))"
    using assms by (simp add: swap_W_eq expand_W_eq b)
  have "length ?w = 80" using assms unfolding w b by (intro length_fips_schedule) simp
  with sha1_rounds [where n = 80 and s = "s\<lparr>W := ?w, rA := H s ! 0, rB := H s ! 1, rC := H s ! 2, rD := H s ! 3, rE := H s ! 4\<rparr>"]
  show "H (Process s) = sha1_compress (H s) (M_bytes s)" "length (W (Process s)) = 80" "len (Process s) = len s"
    by (auto simp: Process_def Let_def sha1_compress_def w [symmetric] split: prod.splits)
  show "cursor (Process s) = 0" by (simp add: Process_def Let_def)
qed

section \<open>The object keeps the contract of a streaming hash\<close>

definition sha1_ok :: "sha1 \<Rightarrow> bool" where
  "sha1_ok s \<longleftrightarrow> length (W s) = 80 \<and> cursor s < 64"

definition sha1_pending :: "sha1 \<Rightarrow> byte list" where
  "sha1_pending s = take (cursor s) (M_bytes s)"

definition sha1_len_bytes :: "64 word \<Rightarrow> byte list" where
  "sha1_len_bytes l = rev (store32 (ucast l) @ store32 (ucast (drop_bit 32 l)))"

definition sha1_digest :: "sha1 \<Rightarrow> byte list result" where
  "sha1_digest s = bind_result (sha1_Final s) (\<lambda>s. Inr (Digest s))"

lemma length_sha1_pending: "length (W s) = 80 \<Longrightarrow> cursor s \<le> 64 \<Longrightarrow> length (sha1_pending s) = cursor s"
  by (simp add: sha1_pending_def length_M_bytes)

lemma put_M_pending:
  assumes "length (W s) = 80" "cursor s < 64"
  obtains s' where "put_M b s = Inr s'" "length (W s') = 80" "cursor s' = Suc (cursor s)" "H s' = H s"
    "len s' = len s" "sha1_pending s' = sha1_pending s @ [b]"
proof -
  obtain s' where s': "put_M b s = Inr s'" "length (W s') = 80" "cursor s' = Suc (cursor s)" "H s' = H s"
    "len s' = len s" "M_bytes s' = (M_bytes s)[cursor s := b]"
    using put_M_eq [OF assms] by blast
  then have "sha1_pending s' = sha1_pending s @ [b]"
    using assms by (simp add: sha1_pending_def take_Suc_conv_app_nth length_M_bytes)
  with s' that show ?thesis by blast
qed

lemma full_block: "length (W s) = 80 \<Longrightarrow> cursor s = 64 \<Longrightarrow> M_bytes s = sha1_pending s"
  by (simp add: sha1_pending_def length_M_bytes)

lemma sha1_Update_law:
  assumes "sha1_ok s"
  shows "\<exists>s'. sha1_Update s d = Inr s' \<and> sha1_ok s' \<and>
    (H s', sha1_pending s') = absorb sha1_compress (H s) (sha1_pending s @ d) \<and>
    len s' = len s + of_nat (8 * length d)"
  using assms
proof (induction d arbitrary: s)
  case Nil
  then show ?case by (simp add: absorb_short sha1_ok_def length_sha1_pending)
next
  case (Cons b d)
  then have w: "length (W s) = 80" "cursor s < 64" by (simp_all add: sha1_ok_def)
  then obtain s1 where s1: "put_M b s = Inr s1" "length (W s1) = 80" "cursor s1 = Suc (cursor s)" "H s1 = H s"
    "len s1 = len s" "sha1_pending s1 = sha1_pending s @ [b]" by (rule put_M_pending)
  let ?s2 = "if cursor s1 \<ge> 64 then Process s1 else s1"
  let ?s3 = "?s2\<lparr>len := len ?s2 + 8\<rparr>"
  have "sha1_ok ?s3" using s1 w Process_eq [OF s1(2)] by (auto simp: sha1_ok_def)
  moreover have "absorb sha1_compress (H ?s3) (sha1_pending ?s3 @ d) = absorb sha1_compress (H s) (sha1_pending s @ b # d)"
  proof (cases "cursor s1 = 64")
    case True
    then have "length (sha1_pending s1) = 64" by (simp add: length_sha1_pending s1(2))
    from absorb_block [OF this, of sha1_compress "H s" d]
    have "absorb sha1_compress (H s) (sha1_pending s @ b # d) = absorb sha1_compress (H (Process s1)) d"
      by (simp add: Process_eq [OF s1(2)] full_block [OF s1(2) True] s1(4,6))
    then show ?thesis using True by (simp add: sha1_pending_def Process_eq [OF s1(2)])
  next
    case False
    with s1 w show ?thesis by (simp add: sha1_pending_def M_bytes_def)
  qed
  moreover have "len ?s3 = len s + 8" using Process_eq [OF s1(2)] s1 by simp
  ultimately show ?case using Cons.IH [of ?s3] s1(1) by (auto simp: Let_def algebra_simps)
qed

lemma put_all_pending:
  assumes "length (W s) = 80" "cursor s + length bs \<le> 64"
  shows "\<exists>s'. put_all bs s = Inr s' \<and> length (W s') = 80 \<and> cursor s' = cursor s + length bs \<and> H s' = H s \<and>
    len s' = len s \<and> sha1_pending s' = sha1_pending s @ bs"
  using assms
proof (induction bs arbitrary: s)
  case (Cons b bs)
  then have "length (W s) = 80" "cursor s < 64" by simp_all
  then obtain s1 where s1: "put_M b s = Inr s1" "length (W s1) = 80" "cursor s1 = Suc (cursor s)" "H s1 = H s"
    "len s1 = len s" "sha1_pending s1 = sha1_pending s @ [b]" by (rule put_M_pending)
  with Cons.IH [of s1] Cons.prems show ?case by auto
qed simp

lemma zero_to_put_all:
  "length (W s) = 80 \<Longrightarrow> limit \<le> 64 \<Longrightarrow> zero_to limit s = put_all (replicate (limit - cursor s) 0) s"
proof (induction "limit - cursor s" arbitrary: s)
  case 0
  then show ?case by (simp add: zero_to.simps)
next
  case (Suc n)
  then have "length (W s) = 80" "cursor s < 64" by simp_all
  then obtain s1 where s1: "put_M 0 s = Inr s1" "length (W s1) = 80" "cursor s1 = Suc (cursor s)"
    by (rule put_M_pending)
  have "limit - cursor s = Suc (limit - cursor s1)" using Suc.hyps(2) s1(3) by simp
  with Suc.hyps Suc.prems s1 show ?case by (simp add: zero_to.simps [of limit s])
qed

lemma len_bytes_eq:
  "map (\<lambda>k. ucast (drop_bit k l AND 0xff)) [56, 48, 40, 32, 24, 16, 8, 0] = sha1_len_bytes l"
proof -
  have m: "(0xff :: 64 word) = mask 8" by (simp add: mask_eq_exp_minus_1)
  show ?thesis unfolding m sha1_len_bytes_def store32_def
    by (auto simp: bit_simps intro!: bit_word_eqI)
qed

lemma Pad_eq: "Pad s =
     bind_result (put_M 0x80 s) (\<lambda>s.
     bind_result (if cursor s > 56 then bind_result (zero_to 64 s) (\<lambda>s. Inr (Process s)) else Inr s) (\<lambda>s.
     bind_result (zero_to 56 s) (\<lambda>s. put_all (sha1_len_bytes (len s)) s)))"
  unfolding Pad_def len_bytes_eq by simp

lemma Pad_law:
  assumes "sha1_ok s"
  shows "\<exists>s'. Pad s = Inr s' \<and> length (W s') = 80 \<and> cursor s' = 64 \<and>
    absorb sha1_compress (H s) (sha1_pending s @ padding (cursor s) (sha1_len_bytes (len s))) =
      (sha1_compress (H s') (sha1_pending s'), [])"
proof -
  let ?p = "cursor s" and ?lb = "sha1_len_bytes (len s)"
  have s: "length (W s) = 80" "?p < 64" using assms by (simp_all add: sha1_ok_def)
  have lb: "length ?lb = 8" by (simp add: sha1_len_bytes_def)
  obtain s1 where s1: "put_M 0x80 s = Inr s1" "length (W s1) = 80" "cursor s1 = Suc ?p" "H s1 = H s"
    "len s1 = len s" "sha1_pending s1 = sha1_pending s @ [0x80]" using s by (rule put_M_pending)
  have finish: "\<exists>s'. bind_result (zero_to 56 s2) (\<lambda>s. put_all (sha1_len_bytes (len s)) s) = Inr s' \<and>
      length (W s') = 80 \<and> cursor s' = 64 \<and> H s' = H s2 \<and>
      sha1_pending s' = sha1_pending s2 @ replicate (56 - cursor s2) 0 @ ?lb"
    if hyp: "length (W s2) = 80" "cursor s2 \<le> 56" "len s2 = len s" for s2
  proof -
    obtain s3 where s3: "zero_to 56 s2 = Inr s3" "length (W s3) = 80" "cursor s3 = 56" "H s3 = H s2" "len s3 = len s"
      "sha1_pending s3 = sha1_pending s2 @ replicate (56 - cursor s2) 0"
      using put_all_pending [OF hyp(1), of "replicate (56 - cursor s2) 0"] hyp by (auto simp: zero_to_put_all)
    with put_all_pending [OF s3(2), of ?lb] lb show ?thesis by auto
  qed
  show ?thesis
  proof (cases "?p \<le> 55")
    case True
    then obtain s' where s': "Pad s = Inr s'" "length (W s') = 80" "cursor s' = 64" "H s' = H s"
      "sha1_pending s' = sha1_pending s @ 0x80 # replicate (55 - ?p) 0 @ ?lb"
      using finish [of s1] s1 by (auto simp: Pad_eq)
    moreover have "(119 - ?p) mod 64 = 55 - ?p" using True by (simp add: mod_if)
    moreover have "length (sha1_pending s') = 64" using length_sha1_pending [OF s'(2)] s'(3) by simp
    ultimately show ?thesis
      using absorb_block [of "sha1_pending s'" sha1_compress "H s" "[]"] by (simp add: padding_def absorb_short s(2))
  next
    case False
    then obtain s2 where s2: "zero_to 64 s1 = Inr s2" "length (W s2) = 80" "cursor s2 = 64" "H s2 = H s"
      "len s2 = len s" "sha1_pending s2 = sha1_pending s @ 0x80 # replicate (63 - ?p) 0"
      using put_all_pending [OF s1(2), of "replicate (63 - ?p) 0"] s1 s by (auto simp: zero_to_put_all)
    note P = Process_eq [OF s2(2)]
    obtain s' where s': "Pad s = Inr s'" "length (W s') = 80" "cursor s' = 64" "H s' = H (Process s2)"
      "sha1_pending s' = replicate 56 0 @ ?lb"
      using finish [of "Process s2"] P s1 s2 False by (auto simp: Pad_eq sha1_pending_def)
    have "(119 - ?p) mod 64 = 63 - ?p + 56" using False s by simp
    then have "sha1_pending s @ padding ?p ?lb = sha1_pending s2 @ sha1_pending s' @ []"
      using s by (simp add: padding_def s2 s' replicate_add [symmetric])
    moreover have "length (sha1_pending s2) = 64" "length (sha1_pending s') = 64"
      using length_sha1_pending [OF s2(2)] s2(3) length_sha1_pending [OF s'(2)] s'(3) by simp_all
    ultimately have "absorb sha1_compress (H s) (sha1_pending s @ padding ?p ?lb) =
        absorb sha1_compress (sha1_compress (sha1_compress (H s) (sha1_pending s2)) (sha1_pending s')) []"
      by (simp only: absorb_block)
    moreover have "H s' = sha1_compress (H s) (sha1_pending s2)"
      using s'(4) P(1) s2(4) full_block [OF s2(2,3)] by simp
    ultimately show ?thesis using s'(1-3) by (simp add: absorb_short)
  qed
qed

lemma sha1_digest_law:
  assumes "sha1_ok s"
  shows "sha1_digest s = Inr (concat (map (\<lambda>w. rev (store32 w)) (fst (absorb sha1_compress (H s)
    (sha1_pending s @ padding (length (sha1_pending s)) (sha1_len_bytes (len s)))))))"
proof -
  obtain s' where s': "Pad s = Inr s'" "length (W s') = 80" "cursor s' = 64"
    "absorb sha1_compress (H s) (sha1_pending s @ padding (cursor s) (sha1_len_bytes (len s))) =
      (sha1_compress (H s') (sha1_pending s'), [])" using Pad_law [OF assms] by blast
  have "length (sha1_pending s) = cursor s" using assms by (simp add: sha1_ok_def length_sha1_pending)
  then show ?thesis
    using s' full_block [OF s'(2,3)] Process_eq [OF s'(2)]
    by (simp add: sha1_digest_def sha1_Final_def Let_def Digest_def store32_swapends comp_def)
qed

interpretation sha1: stream_hash sha1_Update sha1_digest sha1_ok H sha1_pending len sha1_compress
  sha1_len_bytes "\<lambda>h. concat (map (\<lambda>w. rev (store32 w)) h)"
  by unfold_locales (use sha1_Update_law sha1_digest_law in blast)+

definition sha1_iv :: "32 word list" where
  "sha1_iv = [0x67452301, 0xefcdab89, 0x98badcfe, 0x10325476, 0xc3d2e1f0]"

definition fips_sha1 :: "byte list \<Rightarrow> byte list" where
  "fips_sha1 msg = concat (map (\<lambda>w. rev (store32 w)) (hash_of sha1_compress sha1_iv sha1_len_bytes msg))"

lemma SHA1_stream:
  assumes "length (W s) = 80"
  shows "bind_result (updates sha1_Update (sha1_Init s) ds) sha1_digest = Inr (fips_sha1 (concat ds))"
proof -
  have "sha1_ok (sha1_Init s)" "sha1_pending (sha1_Init s) = []" "len (sha1_Init s) = 0" "H (sha1_Init s) = sha1_iv"
    using assms by (simp_all add: sha1_Init_def sha1_ok_def sha1_pending_def sha1_iv_def)
  then show ?thesis using sha1.streaming [of "sha1_Init s" ds] by (simp add: fips_sha1_def)
qed

lemma absorb_sha1_length: "length h = 5 \<Longrightarrow> length (fst (absorb sha1_compress h xs)) = 5"
proof (induction sha1_compress h xs rule: absorb.induct)
  case (1 h xs)
  have "length (sha1_compress h b) = 5" for b by (simp add: sha1_compress_def split: prod.split)
  with 1 show ?case by (cases "length xs < 64") (simp_all add: absorb.simps [of sha1_compress h xs])
qed

lemma length_fips_sha1: "length (fips_sha1 msg) = 20"
  using absorb_sha1_length [of sha1_iv]
  by (simp add: fips_sha1_def hash_of_def length_concat comp_def sum_list_triv sha1_iv_def)

text \<open>
  C28. SHA-1. However a message is cut into pieces and whatever the object's array held before, no
  byte is written outside the array and the digest is the one that FIPS 180 defines for the whole
  message: big-endian words, the message schedule and eighty rounds over the blocks of the padded
  message. The one-shot functions return these twenty bytes, and the object can be used again after
  another initialisation.
\<close>

theorem SHA1_correct:
  assumes "length (W s) = 80"
  shows "bind_result (updates sha1_Update (sha1_Init s) ds) sha1_digest = Inr (fips_sha1 (concat ds)) \<and>
    SHA1HashBytes s (concat ds) = Inr (fips_sha1 (concat ds)) \<and>
    SHA1HashString s (concat ds) = Inr (fips_sha1 (concat ds)) \<and>
    length (fips_sha1 (concat ds)) = kDigestSizeBytes"
proof -
  have "SHA1HashBytes s msg = Inr (fips_sha1 msg)" for msg
    using SHA1_stream [OF assms, of "[msg]"] length_fips_sha1 [of msg]
    by (auto simp: SHA1HashBytes_def sha1_digest_def kDigestSizeBytes_def bind_result_def split: sum.splits)
  with SHA1_stream [OF assms, of ds] length_fips_sha1 [of "concat ds"] show ?thesis
    by (simp add: SHA1HashString_def kDigestSizeBytes_def)
qed

subsection \<open>Evaluating the compression\<close>

text \<open>
  For evaluation the schedule is kept as a window of sixteen words that moves with the round; a sum
  evaluates to a numeral where a rotation would be kept as a term, hence the zeros.
\<close>

definition next_word :: "32 word list \<Rightarrow> 32 word" where
  "next_word win = word_rotl 1 (win ! 13 XOR win ! 8 XOR win ! 2 XOR win ! 0)"

fun sha1_run :: "nat \<Rightarrow> nat \<Rightarrow> 32 word list \<Rightarrow> 32 word \<times> 32 word \<times> 32 word \<times> 32 word \<times> 32 word
    \<Rightarrow> 32 word \<times> 32 word \<times> 32 word \<times> 32 word \<times> 32 word" where
  "sha1_run 0 t win r = r"
| "sha1_run (Suc n) t win (a, b, c, d, e) =
     sha1_run n (Suc t) (tl win @ [next_word win + 0])
       (word_rotl 5 a + fips_f t b c d + e + sha1_K t + hd win, a, word_rotl 30 b + 0, c, d)"

definition schedule_to :: "32 word list \<Rightarrow> nat \<Rightarrow> 32 word list" where
  "schedule_to m k =
     fold (\<lambda>t w. w @ [word_rotl 1 (w ! (t - 3) XOR w ! (t - 8) XOR w ! (t - 14) XOR w ! (t - 16))]) [16..<16 + k] m"

lemma schedule_to_Suc:
  assumes "length m = 16"
  shows "length (schedule_to m k) = 16 + k"
    "schedule_to m (Suc k) = schedule_to m k @ [next_word (drop k (schedule_to m k))]"
proof -
  have u: "[16..<16 + Suc n] = [16..<16 + n] @ [16 + n]" for n :: nat
    by (metis add_Suc_right le_add1 upt_Suc_append)
  show l: "length (schedule_to m k) = 16 + k"
    using assms by (induction k) (simp add: schedule_to_def, simp only: schedule_to_def u fold_append comp_apply, simp)
  show "schedule_to m (Suc k) = schedule_to m k @ [next_word (drop k (schedule_to m k))]"
    using l unfolding schedule_to_def [of m "Suc k"] u fold_append comp_apply schedule_to_def [of m k, symmetric]
    by (simp add: next_word_def add.commute)
qed

lemma schedule_to_stable:
  assumes "length m = 16" "t < 16 + j"
  shows "schedule_to m (j + k) ! t = schedule_to m j ! t"
  using assms by (induction k) (simp_all add: schedule_to_Suc nth_append)

lemma sha1_run_eq:
  assumes "length m = 16" "t + n \<le> 80"
  shows "sha1_run n t (drop t (schedule_to m t)) r = fold (fips_round (schedule_to m 64)) [t..<t + n] r"
  using assms(2)
proof (induction n arbitrary: t r)
  case (Suc n)
  note l = schedule_to_Suc [OF assms(1), of t]
  have "schedule_to m t ! t = schedule_to m 64 ! t"
    using schedule_to_stable [OF assms(1), of t "min t 64" "max t 64 - min t 64"] Suc.prems
    by (cases "t \<le> 64") (simp_all add: min_def max_def)
  then have "sha1_run (Suc n) t (drop t (schedule_to m t)) r =
      sha1_run n (Suc t) (tl (drop t (schedule_to m t)) @ [next_word (drop t (schedule_to m t))])
        (fips_round (schedule_to m 64) t r)"
    using l(1) by (cases r) (simp add: fips_round_apply hd_drop_conv_nth)
  moreover have "tl (drop t (schedule_to m t)) @ [next_word (drop t (schedule_to m t))] =
      drop (Suc t) (schedule_to m (Suc t))"
    using l by (simp add: drop_Suc tl_drop)
  moreover have "[t..<t + Suc n] = t # [Suc t..<Suc t + n]" by (simp add: upt_rec [of t])
  ultimately show ?case using Suc.IH [of "Suc t"] Suc.prems by simp
qed simp

lemma sha1_compress_run [code]:
  "sha1_compress h block =
     (let m = be_words block
      in case (if length m = 16 then sha1_run 80 0 m (h ! 0, h ! 1, h ! 2, h ! 3, h ! 4)
               else fold (fips_round (fips_schedule m)) [0..<80] (h ! 0, h ! 1, h ! 2, h ! 3, h ! 4)) of
           (a, b, c, d, e) \<Rightarrow> [h ! 0 + a, h ! 1 + b, h ! 2 + c, h ! 3 + d, h ! 4 + e])"
proof (cases "length (be_words block) = 16")
  case True
  have n: "(16 :: nat) + 64 = 80" by simp
  have "schedule_to (be_words block) 64 = fips_schedule (be_words block)"
    unfolding schedule_to_def fips_schedule_def n ..
  moreover have "schedule_to (be_words block) 0 = be_words block" by (simp add: schedule_to_def)
  ultimately show ?thesis
    using sha1_run_eq [OF True, of 0 80 "(h ! 0, h ! 1, h ! 2, h ! 3, h ! 4)"] True
    unfolding sha1_compress_def Let_def by (simp only: add_0 drop_0 if_cancel)
next
  case False
  then show ?thesis unfolding sha1_compress_def Let_def by (simp only: if_False)
qed

theorem SHA1_correct_witness:
  "SHA1HashBytes \<lparr>rA = 0, rB = 0, rC = 0, rD = 0, rE = 0, H = [], W = replicate 80 7, cursor = 0, len = 0\<rparr>
     [0x61, 0x62, 0x63] =
   Inr [0xa9, 0x99, 0x3e, 0x36, 0x47, 0x06, 0x81, 0x6a, 0xba, 0x3e,
        0x25, 0x71, 0x78, 0x50, 0xc2, 0x6c, 0x9c, 0xd0, 0xd8, 0x9d]"
proof -
  have "fips_sha1 (concat [[0x61], [0x62, 0x63]]) =
    [0xa9, 0x99, 0x3e, 0x36, 0x47, 0x06, 0x81, 0x6a, 0xba, 0x3e,
     0x25, 0x71, 0x78, 0x50, 0xc2, 0x6c, 0x9c, 0xd0, 0xd8, 0x9d]" by code_simp
  then show ?thesis
    using SHA1_correct [of "\<lparr>rA = 0, rB = 0, rC = 0, rD = 0, rE = 0, H = [], W = replicate 80 7, cursor = 0, len = 0\<rparr>"
        "[[0x61], [0x62, 0x63]]"] by simp
qed

end
