(* ===== verification/Pickle.thy ===== *)
theory Pickle
  imports Block_Hash
begin

unbundle bit_operations_syntax

text \<open>
  base/pickle.cc and base/pickle.h: a growing buffer to which typed values are appended, and the
  iterator that reads them back, possibly from bytes of an untrusted sender.

  Memory is a list of bytes of which some are not initialised (\<open>None\<close>, what \<^verbatim>\<open>realloc\<close> leaves behind). A
  pointer into the buffer is an offset. A load or store outside the buffer, or through a null pointer,
  is the fault \<^const>\<open>Out_Of_Bounds\<close>, a load of an uninitialised byte \<^const>\<open>Uninitialised\<close>, a failed
  \<^verbatim>\<open>CHECK\<close> or \<^verbatim>\<open>DCHECK\<close> the fault \<^const>\<open>Check_Failed\<close>. Whether the allocator grants a block of a given
  size is the argument \<open>alloc\<close>. Values of \<^verbatim>\<open>size_t\<close> are natural numbers below \<open>2 ^ 64\<close>, values of
  \<^verbatim>\<open>int\<close>, \<^verbatim>\<open>long\<close> and \<^verbatim>\<open>int64_t\<close> are integers in the range of their type, floating point values are
  their bits.
\<close>

section \<open>Memory\<close>

type_synonym memory = "byte option list"

definition mem_put :: "memory \<Rightarrow> nat \<Rightarrow> memory \<Rightarrow> memory result" where
  "mem_put m p src =
     (if p + length src \<le> length m then Inr (take p m @ src @ drop (p + length src) m)
      else Inl Out_Of_Bounds)"

definition mem_get :: "memory \<Rightarrow> nat \<Rightarrow> nat \<Rightarrow> byte list result" where
  "mem_get m p n =
     (if p + n \<le> length m then
        if None \<in> set (take n (drop p m)) then Inl Uninitialised
        else Inr (map the (take n (drop p m)))
      else Inl Out_Of_Bounds)"

text \<open>\<^verbatim>\<open>realloc\<close> keeps the old contents up to the smaller of the two sizes.\<close>

definition realloc :: "memory option \<Rightarrow> nat \<Rightarrow> memory" where
  "realloc h n = (let old = (case h of None \<Rightarrow> [] | Some m \<Rightarrow> m) in take n old @ replicate (n - length old) None)"

text \<open>The bytes of a number on a little-endian machine, and the number that bytes stand for.\<close>

definition le_bytes :: "nat \<Rightarrow> 'a::len word \<Rightarrow> byte list" where
  "le_bytes n w = map (\<lambda>i. ucast (drop_bit (8 * i) w)) [0..<n]"

primrec le_word :: "byte list \<Rightarrow> 'a::len word" where
  "le_word [] = 0"
| "le_word (b # bs) = (ucast b OR push_bit 8 (le_word bs))"

text \<open>Conversions between the integer types.\<close>

definition wrap64 :: "int \<Rightarrow> int" where
  "wrap64 x = signed_take_bit 63 x"

definition is_i64 :: "int \<Rightarrow> bool" where
  "is_i64 x \<longleftrightarrow> - (2 ^ 63) \<le> x \<and> x < 2 ^ 63"

definition size_of_int :: "int \<Rightarrow> nat" where
  "size_of_int i = nat (i mod 2 ^ 64)"

definition szmul :: "nat \<Rightarrow> nat \<Rightarrow> nat" where
  "szmul a b = (a * b) mod 2 ^ 64"

text \<open>base/bits.h. The source only aligns to 4, 64 and 4096, which pass its \<^verbatim>\<open>DCHECK\<close>.\<close>

definition Align :: "nat \<Rightarrow> nat \<Rightarrow> nat" where
  "Align sz alignment =
     unat ((of_nat sz + of_nat alignment - 1) AND NOT (of_nat alignment - 1) :: 64 word)"

section \<open>The pickle\<close>

record pickle =
  header :: "memory option"
  header_size :: nat
  capacity_after_header :: nat
  write_offset :: nat

definition kPayloadUnit :: nat where
  "kPayloadUnit = 64"

definition kCapacityReadOnly :: nat where
  "kCapacityReadOnly = npos"

text \<open>The structure \<^verbatim>\<open>Header\<close> at the start of the buffer, of four bytes.\<close>

definition sizeof_Header :: nat where
  "sizeof_Header = 4"

definition load_payload_size :: "memory \<Rightarrow> nat result" where
  "load_payload_size m = bind_result (mem_get m 0 4) (\<lambda>bs. Inr (unat (le_word bs :: 32 word)))"

definition header_payload_size :: "pickle \<Rightarrow> nat result" where
  "header_payload_size p =
     (case header p of None \<Rightarrow> Inl Out_Of_Bounds | Some m \<Rightarrow> load_payload_size m)"

definition put_at :: "pickle \<Rightarrow> nat \<Rightarrow> memory \<Rightarrow> pickle result" where
  "put_at p i src =
     (case header p of None \<Rightarrow> Inl Out_Of_Bounds
      | Some m \<Rightarrow> bind_result (mem_put m i src) (\<lambda>m. Inr (p\<lparr>header := Some m\<rparr>)))"

definition set_payload_size :: "pickle \<Rightarrow> nat \<Rightarrow> pickle result" where
  "set_payload_size p n = put_at p 0 (map Some (le_bytes 4 (of_nat n :: 32 word)))"

definition payload_size :: "pickle \<Rightarrow> nat result" where
  "payload_size p = (case header p of None \<Rightarrow> Inr 0 | Some m \<Rightarrow> load_payload_size m)"

definition pickle_size :: "pickle \<Rightarrow> nat result" where
  "pickle_size p = bind_result (header_payload_size p) (\<lambda>n. Inr (szadd (header_size p) n))"

text \<open>The memory from the start of the payload on; the null pointer when there is no header.\<close>

definition payload :: "pickle \<Rightarrow> memory option" where
  "payload p = map_option (drop (header_size p)) (header p)"

definition end_of_payload :: "pickle \<Rightarrow> nat option result" where
  "end_of_payload p =
     (case header p of None \<Rightarrow> Inr None
      | Some m \<Rightarrow> bind_result (payload_size p) (\<lambda>n. Inr (Some (header_size p + n))))"

definition GetTotalAllocatedSize :: "pickle \<Rightarrow> nat" where
  "GetTotalAllocatedSize p =
     (if capacity_after_header p = kCapacityReadOnly then 0
      else szadd (header_size p) (capacity_after_header p))"

type_synonym allocator = "nat \<Rightarrow> bool"

definition Resize :: "allocator \<Rightarrow> nat \<Rightarrow> pickle \<Rightarrow> pickle result" where
  "Resize alloc new_capacity p =
     bind_result (dcheck (capacity_after_header p \<noteq> kCapacityReadOnly)) (\<lambda>_.
     let p = p\<lparr>capacity_after_header := Align new_capacity kPayloadUnit\<rparr>;
         n = GetTotalAllocatedSize p
     in bind_result (dcheck (alloc n)) (\<lambda>_. Inr (p\<lparr>header := Some (realloc (header p) n)\<rparr>)))"

text \<open>The four constructors, the assignment and the destructor's rule what to free.\<close>

definition Pickle :: "allocator \<Rightarrow> pickle result" where
  "Pickle alloc =
     bind_result (Resize alloc kPayloadUnit
       \<lparr>header = None, header_size = sizeof_Header, capacity_after_header = 0, write_offset = 0\<rparr>) (\<lambda>p.
     set_payload_size p 0)"

definition Pickle_sized :: "allocator \<Rightarrow> int \<Rightarrow> pickle result" where
  "Pickle_sized alloc hs =
     bind_result (dcheck (sizeof_Header \<le> size_of_int hs)) (\<lambda>_.
     bind_result (dcheck (hs \<le> int kPayloadUnit)) (\<lambda>_.
     bind_result (Resize alloc kPayloadUnit
       \<lparr>header = None, header_size = Align (size_of_int hs) 4, capacity_after_header = 0,
        write_offset = 0\<rparr>) (\<lambda>p.
     set_payload_size p 0)))"

definition Pickle_data :: "byte list \<Rightarrow> int \<Rightarrow> pickle result" where
  "Pickle_data data data_len =
     bind_result
       (if data_len \<ge> int sizeof_Header then
          bind_result (load_payload_size (map Some data)) (\<lambda>n. Inr (nat ((data_len - int n) mod 2 ^ 32)))
        else Inr 0) (\<lambda>hs.
     let hs = (if hs > nat (data_len mod 2 ^ 32) then 0 else hs);
         hs = (if hs \<noteq> Align hs 4 then 0 else hs)
     in Inr \<lparr>header = (if hs = 0 then None else Some (map Some data)), header_size = hs,
             capacity_after_header = kCapacityReadOnly, write_offset = 0\<rparr>)"

text \<open>\<^verbatim>\<open>memcpy\<close> from the buffer of another pickle to the start of this one.\<close>

definition copy_from :: "pickle \<Rightarrow> nat \<Rightarrow> pickle \<Rightarrow> pickle result" where
  "copy_from other n p =
     (case header other of None \<Rightarrow> Inl Out_Of_Bounds
      | Some m \<Rightarrow> if n \<le> length m then put_at p 0 (take n m) else Inl Out_Of_Bounds)"

definition Pickle_copy :: "allocator \<Rightarrow> pickle \<Rightarrow> pickle result" where
  "Pickle_copy alloc other =
     bind_result (header_payload_size other) (\<lambda>n.
     bind_result (Resize alloc n
       \<lparr>header = None, header_size = header_size other, capacity_after_header = 0,
        write_offset = write_offset other\<rparr>) (\<lambda>p.
     copy_from other (szadd (header_size p) n) p))"

definition pickle_assign :: "allocator \<Rightarrow> bool \<Rightarrow> pickle \<Rightarrow> pickle \<Rightarrow> pickle result" where
  "pickle_assign alloc same other p =
     bind_result (dcheck (\<not> same)) (\<lambda>_.
     let p = (if capacity_after_header p = kCapacityReadOnly
              then p\<lparr>header := None, capacity_after_header := 0\<rparr> else p);
         p = (if header_size p \<noteq> header_size other
              then p\<lparr>header := None, header_size := header_size other\<rparr> else p)
     in bind_result (header_payload_size other) (\<lambda>n.
        bind_result (Resize alloc n p) (\<lambda>p.
        bind_result (copy_from other (szadd (header_size other) n) p) (\<lambda>p.
        Inr (p\<lparr>write_offset := write_offset other\<rparr>)))))"

definition frees_header :: "pickle \<Rightarrow> bool" where
  "frees_header p \<longleftrightarrow> capacity_after_header p \<noteq> kCapacityReadOnly"

section \<open>Writing\<close>

definition uint32_max :: nat where
  "uint32_max = 2 ^ 32 - 1"

definition Reserve :: "allocator \<Rightarrow> nat \<Rightarrow> pickle \<Rightarrow> pickle result" where
  "Reserve alloc len p =
     (let data_len = Align len 4 in
      bind_result (dcheck (data_len \<ge> len)) (\<lambda>_.
      bind_result (dcheck (data_len \<le> uint32_max)) (\<lambda>_.
      bind_result (dcheck (write_offset p \<le> szsub uint32_max data_len)) (\<lambda>_.
      let new_size = szadd (write_offset p) data_len in
      if new_size > capacity_after_header p
      then Resize alloc (szadd (szmul (capacity_after_header p) 2) new_size) p
      else Inr p))))"

text \<open>The result is the offset of the claimed bytes in the buffer.\<close>

definition kPickleHeapAlign :: nat where
  "kPickleHeapAlign = 4096"

definition grown_capacity :: "pickle \<Rightarrow> nat \<Rightarrow> nat" where
  "grown_capacity p new_size =
     (let new_capacity = szmul (capacity_after_header p) 2;
          new_capacity = (if new_capacity > kPickleHeapAlign
                          then szsub (Align new_capacity kPickleHeapAlign) kPayloadUnit else new_capacity)
      in max new_capacity new_size)"

definition ClaimUninitializedBytesInternal :: "allocator \<Rightarrow> nat \<Rightarrow> pickle \<Rightarrow> (nat \<times> pickle) result" where
  "ClaimUninitializedBytesInternal alloc len p =
     bind_result (dcheck (kCapacityReadOnly \<noteq> capacity_after_header p)) (\<lambda>_.
     let data_len = Align len 4 in
     bind_result (dcheck (data_len \<ge> len)) (\<lambda>_.
     bind_result (dcheck (data_len \<le> uint32_max)) (\<lambda>_.
     bind_result (dcheck (write_offset p \<le> szsub uint32_max data_len)) (\<lambda>_.
     let new_size = szadd (write_offset p) data_len in
     bind_result (if new_size > capacity_after_header p
                  then Resize alloc (grown_capacity p new_size) p else Inr p) (\<lambda>p.
     let wr = header_size p + write_offset p in
     bind_result (put_at p (wr + len) (replicate (szsub data_len len) (Some 0))) (\<lambda>p.
     bind_result (set_payload_size p new_size) (\<lambda>p.
     Inr (wr, p\<lparr>write_offset := new_size\<rparr>))))))))"

definition ClaimBytes :: "allocator \<Rightarrow> nat \<Rightarrow> pickle \<Rightarrow> (nat \<times> pickle) result" where
  "ClaimBytes alloc num_bytes p =
     bind_result (ClaimUninitializedBytesInternal alloc num_bytes p) (\<lambda>(wr, p).
     bind_result (put_at p wr (replicate num_bytes (Some 0))) (\<lambda>p. Inr (wr, p)))"

definition WriteBytesCommon :: "allocator \<Rightarrow> byte list \<Rightarrow> nat \<Rightarrow> pickle \<Rightarrow> pickle result" where
  "WriteBytesCommon alloc data len p =
     bind_result (dcheck (kCapacityReadOnly \<noteq> capacity_after_header p)) (\<lambda>_.
     bind_result (ClaimUninitializedBytesInternal alloc len p) (\<lambda>(wr, p).
     if len \<le> length data then put_at p wr (map Some (take len data)) else Inl Out_Of_Bounds))"

text \<open>The typed writers return their \<^verbatim>\<open>bool\<close> with the pickle.\<close>

definition WritePOD :: "allocator \<Rightarrow> byte list \<Rightarrow> pickle \<Rightarrow> (bool \<times> pickle) result" where
  "WritePOD alloc data p =
     bind_result (WriteBytesCommon alloc data (length data) p) (\<lambda>p. Inr (True, p))"

definition WriteInt :: "allocator \<Rightarrow> int \<Rightarrow> pickle \<Rightarrow> (bool \<times> pickle) result" where
  "WriteInt alloc v = WritePOD alloc (le_bytes 4 (word_of_int v :: 32 word))"

definition WriteBool :: "allocator \<Rightarrow> bool \<Rightarrow> pickle \<Rightarrow> (bool \<times> pickle) result" where
  "WriteBool alloc v = WriteInt alloc (if v then 1 else 0)"

definition WriteLong :: "allocator \<Rightarrow> int \<Rightarrow> pickle \<Rightarrow> (bool \<times> pickle) result" where
  "WriteLong alloc v = WritePOD alloc (le_bytes 8 (word_of_int v :: 64 word))"

definition WriteUInt16 :: "allocator \<Rightarrow> 16 word \<Rightarrow> pickle \<Rightarrow> (bool \<times> pickle) result" where
  "WriteUInt16 alloc v = WritePOD alloc (le_bytes 2 v)"

definition WriteUInt32 :: "allocator \<Rightarrow> 32 word \<Rightarrow> pickle \<Rightarrow> (bool \<times> pickle) result" where
  "WriteUInt32 alloc v = WritePOD alloc (le_bytes 4 v)"

definition WriteInt64 :: "allocator \<Rightarrow> int \<Rightarrow> pickle \<Rightarrow> (bool \<times> pickle) result" where
  "WriteInt64 alloc v = WritePOD alloc (le_bytes 8 (word_of_int v :: 64 word))"

definition WriteUInt64 :: "allocator \<Rightarrow> 64 word \<Rightarrow> pickle \<Rightarrow> (bool \<times> pickle) result" where
  "WriteUInt64 alloc v = WritePOD alloc (le_bytes 8 v)"

definition WriteSizeT :: "allocator \<Rightarrow> nat \<Rightarrow> pickle \<Rightarrow> (bool \<times> pickle) result" where
  "WriteSizeT alloc v = WritePOD alloc (le_bytes 8 (of_nat v :: 64 word))"

definition WriteFloat :: "allocator \<Rightarrow> 32 word \<Rightarrow> pickle \<Rightarrow> (bool \<times> pickle) result" where
  "WriteFloat alloc v = WritePOD alloc (le_bytes 4 v)"

definition WriteDouble :: "allocator \<Rightarrow> 64 word \<Rightarrow> pickle \<Rightarrow> (bool \<times> pickle) result" where
  "WriteDouble alloc v = WritePOD alloc (le_bytes 8 v)"

definition WriteBytes :: "allocator \<Rightarrow> byte list \<Rightarrow> int \<Rightarrow> pickle \<Rightarrow> (bool \<times> pickle) result" where
  "WriteBytes alloc data len p =
     bind_result (WriteBytesCommon alloc data (size_of_int len) p) (\<lambda>p. Inr (True, p))"

definition WriteString :: "allocator \<Rightarrow> byte list \<Rightarrow> pickle \<Rightarrow> (bool \<times> pickle) result" where
  "WriteString alloc v p =
     bind_result (WriteInt alloc (wrap32 (int (length v))) p) (\<lambda>(ok, p).
     if \<not> ok then Inr (False, p) else WriteBytes alloc v (wrap32 (int (length v))) p)"

definition WriteString16 :: "allocator \<Rightarrow> 16 word list \<Rightarrow> pickle \<Rightarrow> (bool \<times> pickle) result" where
  "WriteString16 alloc v p =
     bind_result (WriteInt alloc (wrap32 (int (length v))) p) (\<lambda>(ok, p).
     if \<not> ok then Inr (False, p)
     else WriteBytes alloc (concat (map (le_bytes 2) v))
            (wrap32 (int (szmul (size_of_int (wrap32 (int (length v)))) 2))) p)"

definition WriteData :: "allocator \<Rightarrow> byte list \<Rightarrow> int \<Rightarrow> pickle \<Rightarrow> (bool \<times> pickle) result" where
  "WriteData alloc data len p =
     (if len < 0 then Inr (False, p)
      else bind_result (WriteInt alloc len p) (\<lambda>(ok, p).
           if \<not> ok then Inr (False, p) else WriteBytes alloc data len p))"

section \<open>Finding a pickle in a range of memory\<close>

text \<open>\<open>PeekNext\<close> returns \<open>None\<close> for \<^verbatim>\<open>false\<close>; the range is the list of its bytes, a result is an offset in it.\<close>

definition PeekNext :: "nat \<Rightarrow> byte list \<Rightarrow> nat option result" where
  "PeekNext hs rng =
     bind_result (dcheck (hs = Align hs 4)) (\<lambda>_.
     bind_result (dcheck (hs \<ge> sizeof_Header)) (\<lambda>_.
     bind_result (dcheck (hs \<le> kPayloadUnit)) (\<lambda>_.
     let len = length rng in
     if len < sizeof_Header then Inr None
     else if len < hs then Inr None
     else bind_result (load_payload_size (map Some rng)) (\<lambda>n.
          if n > szsub npos hs then Inr (Some npos) else Inr (Some (szadd hs n))))))"

definition FindNext :: "nat \<Rightarrow> byte list \<Rightarrow> nat option result" where
  "FindNext hs rng =
     bind_result (PeekNext hs rng) (\<lambda>r. case r of None \<Rightarrow> Inr None
       | Some n \<Rightarrow> if n > length rng then Inr None else Inr (Some n))"

section \<open>Reading\<close>

text \<open>
  The iterator sees the memory from the start of the payload on. A pointer is an offset in it; a
  reader returns \<open>None\<close> where the source returns \<^verbatim>\<open>false\<close> or a null pointer.
\<close>

record pickle_iterator =
  it_payload :: "memory option"
  read_index :: nat
  end_index :: nat

definition PickleIterator_null :: pickle_iterator where
  "PickleIterator_null = \<lparr>it_payload = None, read_index = 0, end_index = 0\<rparr>"

definition PickleIterator :: "pickle \<Rightarrow> pickle_iterator result" where
  "PickleIterator p =
     bind_result (payload_size p) (\<lambda>n.
     Inr \<lparr>it_payload = payload p, read_index = 0, end_index = n\<rparr>)"

definition Advance :: "nat \<Rightarrow> pickle_iterator \<Rightarrow> pickle_iterator" where
  "Advance sz it =
     (let aligned_size = Align sz 4 in
      if szsub (end_index it) (read_index it) < aligned_size
      then it\<lparr>read_index := end_index it\<rparr>
      else it\<lparr>read_index := szadd (read_index it) aligned_size\<rparr>)"

definition current_read_ptr :: "pickle_iterator \<Rightarrow> nat option" where
  "current_read_ptr it = map_option (\<lambda>_. read_index it) (it_payload it)"

text \<open>The template for a type, here its size, and the overloads for bytes and for elements.\<close>

definition GetReadPointerAndAdvance_type :: "nat \<Rightarrow> pickle_iterator \<Rightarrow> nat option \<times> pickle_iterator" where
  "GetReadPointerAndAdvance_type sizeof_type it =
     (if sizeof_type > szsub (end_index it) (read_index it)
      then (None, it\<lparr>read_index := end_index it\<rparr>)
      else (current_read_ptr it, Advance sizeof_type it))"

definition GetReadPointerAndAdvance :: "int \<Rightarrow> pickle_iterator \<Rightarrow> nat option \<times> pickle_iterator" where
  "GetReadPointerAndAdvance num_bytes it =
     (if num_bytes < 0 \<or> szsub (end_index it) (read_index it) < size_of_int num_bytes
      then (None, it\<lparr>read_index := end_index it\<rparr>)
      else (current_read_ptr it, Advance (size_of_int num_bytes) it))"

definition GetReadPointerAndAdvance_elements ::
    "int \<Rightarrow> nat \<Rightarrow> pickle_iterator \<Rightarrow> nat option \<times> pickle_iterator" where
  "GetReadPointerAndAdvance_elements num_elements size_element it =
     (let num_bytes = wrap64 (int (szmul (size_of_int num_elements) size_element));
          num_bytes32 = wrap32 num_bytes
      in if num_bytes \<noteq> num_bytes32 then (None, it) else GetReadPointerAndAdvance num_bytes32 it)"

text \<open>A load of \<open>n\<close> bytes through a pointer that the iterator handed out.\<close>

definition load_from :: "pickle_iterator \<Rightarrow> nat \<Rightarrow> nat \<Rightarrow> byte list result" where
  "load_from it ptr n = (case it_payload it of None \<Rightarrow> Inl Out_Of_Bounds | Some m \<Rightarrow> mem_get m ptr n)"

definition ReadBuiltinType ::
    "nat \<Rightarrow> (byte list \<Rightarrow> 'a result) \<Rightarrow> pickle_iterator \<Rightarrow> ('a option \<times> pickle_iterator) result" where
  "ReadBuiltinType sizeof_type from_bytes it =
     (case GetReadPointerAndAdvance_type sizeof_type it of
        (None, it) \<Rightarrow> Inr (None, it)
      | (Some read_from, it) \<Rightarrow>
          bind_result (load_from it read_from sizeof_type) (\<lambda>bs.
          bind_result (from_bytes bs) (\<lambda>v. Inr (Some v, it))))"

definition bool_of_bytes :: "byte list \<Rightarrow> bool result" where
  "bool_of_bytes bs =
     (let w = (le_word bs :: 8 word) in
      if w = 0 then Inr False else if w = 1 then Inr True else Inl Invalid_Bool)"

definition ReadBool :: "pickle_iterator \<Rightarrow> (bool option \<times> pickle_iterator) result" where
  "ReadBool = ReadBuiltinType 1 bool_of_bytes"

definition ReadInt :: "pickle_iterator \<Rightarrow> (int option \<times> pickle_iterator) result" where
  "ReadInt = ReadBuiltinType 4 (\<lambda>bs. Inr (sint (le_word bs :: 32 word)))"

definition ReadLong :: "pickle_iterator \<Rightarrow> (int option \<times> pickle_iterator) result" where
  "ReadLong = ReadBuiltinType 8 (\<lambda>bs. Inr (sint (le_word bs :: 64 word)))"

definition ReadUInt16 :: "pickle_iterator \<Rightarrow> (16 word option \<times> pickle_iterator) result" where
  "ReadUInt16 = ReadBuiltinType 2 (\<lambda>bs. Inr (le_word bs))"

definition ReadUInt32 :: "pickle_iterator \<Rightarrow> (32 word option \<times> pickle_iterator) result" where
  "ReadUInt32 = ReadBuiltinType 4 (\<lambda>bs. Inr (le_word bs))"

definition ReadInt64 :: "pickle_iterator \<Rightarrow> (int option \<times> pickle_iterator) result" where
  "ReadInt64 = ReadBuiltinType 8 (\<lambda>bs. Inr (sint (le_word bs :: 64 word)))"

definition ReadUInt64 :: "pickle_iterator \<Rightarrow> (64 word option \<times> pickle_iterator) result" where
  "ReadUInt64 = ReadBuiltinType 8 (\<lambda>bs. Inr (le_word bs))"

text \<open>\<^verbatim>\<open>size_t\<close> has 64 bits, so the cast that the source guards keeps the value.\<close>

definition ReadSizeT :: "pickle_iterator \<Rightarrow> (nat option \<times> pickle_iterator) result" where
  "ReadSizeT it =
     bind_result (ReadUInt64 it) (\<lambda>(r, it).
     case r of None \<Rightarrow> Inr (None, it)
     | Some w \<Rightarrow> let res = unat w mod 2 ^ 64 in Inr (if res = unat w then Some res else None, it))"

definition ReadFloat :: "pickle_iterator \<Rightarrow> (32 word option \<times> pickle_iterator) result" where
  "ReadFloat it =
     (case GetReadPointerAndAdvance_type 4 it of
        (None, it) \<Rightarrow> Inr (None, it)
      | (Some read_from, it) \<Rightarrow>
          bind_result (load_from it read_from 4) (\<lambda>bs. Inr (Some (le_word bs), it)))"

definition ReadDouble :: "pickle_iterator \<Rightarrow> (64 word option \<times> pickle_iterator) result" where
  "ReadDouble it =
     (case GetReadPointerAndAdvance_type 8 it of
        (None, it) \<Rightarrow> Inr (None, it)
      | (Some read_from, it) \<Rightarrow>
          bind_result (load_from it read_from 8) (\<lambda>bs. Inr (Some (le_word bs), it)))"

text \<open>
  Strings and blobs are a length and the bytes. \<open>read_sized\<close> is what their readers share: the length
  and then the pointer, which \<open>get\<close> asks for. A piece is the offset and the length of what it refers to.
\<close>

definition read_sized ::
    "(int \<Rightarrow> pickle_iterator \<Rightarrow> nat option \<times> pickle_iterator) \<Rightarrow> pickle_iterator \<Rightarrow>
     ((nat \<times> int) option \<times> pickle_iterator) result" where
  "read_sized get it =
     bind_result (ReadInt it) (\<lambda>(r, it).
     case r of None \<Rightarrow> Inr (None, it)
     | Some len \<Rightarrow> (case get len it of
         (None, it) \<Rightarrow> Inr (None, it)
       | (Some read_from, it) \<Rightarrow> Inr (Some (read_from, len), it)))"

definition ReadStringPiece :: "pickle_iterator \<Rightarrow> ((nat \<times> int) option \<times> pickle_iterator) result" where
  "ReadStringPiece = read_sized GetReadPointerAndAdvance"

definition ReadStringPiece16 :: "pickle_iterator \<Rightarrow> ((nat \<times> int) option \<times> pickle_iterator) result" where
  "ReadStringPiece16 = read_sized (\<lambda>len. GetReadPointerAndAdvance_elements len 2)"

definition ReadString :: "pickle_iterator \<Rightarrow> (byte list option \<times> pickle_iterator) result" where
  "ReadString it =
     bind_result (read_sized GetReadPointerAndAdvance it) (\<lambda>(r, it).
     case r of None \<Rightarrow> Inr (None, it)
     | Some (read_from, len) \<Rightarrow>
         bind_result (load_from it read_from (size_of_int len)) (\<lambda>bs. Inr (Some bs, it)))"

fun char16s_of :: "byte list \<Rightarrow> 16 word list" where
  "char16s_of (b0 # b1 # bs) = le_word [b0, b1] # char16s_of bs"
| "char16s_of _ = []"

definition ReadString16 :: "pickle_iterator \<Rightarrow> (16 word list option \<times> pickle_iterator) result" where
  "ReadString16 it =
     bind_result (read_sized (\<lambda>len. GetReadPointerAndAdvance_elements len 2) it) (\<lambda>(r, it).
     case r of None \<Rightarrow> Inr (None, it)
     | Some (read_from, len) \<Rightarrow>
         bind_result (load_from it read_from (2 * size_of_int len)) (\<lambda>bs. Inr (Some (char16s_of bs), it)))"

definition ReadBytes :: "int \<Rightarrow> pickle_iterator \<Rightarrow> nat option \<times> pickle_iterator" where
  "ReadBytes len it = GetReadPointerAndAdvance len it"

text \<open>\<open>ReadData\<close> sets both of its outputs in every case: the pointer and the length.\<close>

definition ReadData :: "pickle_iterator \<Rightarrow> (nat option \<times> int \<times> pickle_iterator) result" where
  "ReadData it =
     bind_result (ReadInt it) (\<lambda>(r, it).
     case r of None \<Rightarrow> Inr (None, 0, it)
     | Some len \<Rightarrow> (case ReadBytes len it of (ptr, it) \<Rightarrow> Inr (ptr, len, it)))"

definition ReadLength :: "pickle_iterator \<Rightarrow> (int option \<times> pickle_iterator) result" where
  "ReadLength it =
     bind_result (ReadInt it) (\<lambda>(r, it).
     case r of None \<Rightarrow> Inr (None, it) | Some len \<Rightarrow> Inr (if len \<ge> 0 then Some len else None, it))"

definition SkipBytes :: "int \<Rightarrow> pickle_iterator \<Rightarrow> bool \<times> pickle_iterator" where
  "SkipBytes num_bytes it =
     (case GetReadPointerAndAdvance num_bytes it of (ptr, it) \<Rightarrow> (ptr \<noteq> None, it))"

section \<open>Alignment and bytes\<close>

lemma and_not_mask_eq: "unat (x AND NOT (mask k) :: 'a::len word) = unat x div 2 ^ k * 2 ^ k"
proof -
  have lt: "unat x < 2 ^ LENGTH('a)" by (rule unsigned_less)
  have p: "x AND NOT (mask k) = push_bit k (drop_bit k x)" 
    by (auto intro!: bit_word_eqI simp: bit_simps)
  have d: "unat (drop_bit k x) = unat x div 2 ^ k"
    by (simp only: unsigned_drop_bit_eq drop_bit_eq_div [of _ "_ :: nat"] take_bit_nat_eq_self lt)
  have "unat x div 2 ^ k * 2 ^ k < 2 ^ LENGTH('a)"
    using lt by (metis div_times_less_eq_dividend le_less_trans)
  then have "unat (push_bit k (drop_bit k x)) = unat x div 2 ^ k * 2 ^ k"
    unfolding unsigned_push_bit_eq d push_bit_eq_mult [of _ "_ :: nat"] by (rule take_bit_nat_eq_self)
  with p show ?thesis by simp
qed

lemma Align_eq:
  assumes "k < 64" "s + 2 ^ k \<le> 2 ^ 64"
  shows "Align s (2 ^ k) = (s + 2 ^ k - 1) div 2 ^ k * 2 ^ k"
proof -
  have w: "(of_nat s + of_nat (2 ^ k) - 1 :: 64 word) = of_nat (s + 2 ^ k - 1)"
    by (subst of_nat_diff) (auto simp: Suc_le_eq)
  have "s + 2 ^ k - 1 < 2 ^ LENGTH(64)" using assms by simp
  then have "unat (of_nat (s + 2 ^ k - 1) :: 64 word) = s + 2 ^ k - 1"
    by (simp only: unsigned_of_nat take_bit_nat_eq_self of_nat_id)
  moreover have "(of_nat (2 ^ k) - 1 :: 64 word) = mask k" by (simp add: mask_eq_exp_minus_1)
  ultimately show ?thesis unfolding Align_def w by (simp only: and_not_mask_eq)
qed

lemma Align_4: "s < 2 ^ 63 \<Longrightarrow> Align s 4 = (s + 3) div 4 * 4"
  and Align_64: "s < 2 ^ 63 \<Longrightarrow> Align s 64 = (s + 63) div 64 * 64"
  and Align_4096: "s < 2 ^ 63 \<Longrightarrow> Align s 4096 = (s + 4095) div 4096 * 4096"
  using Align_eq [of 2 s] Align_eq [of 6 s] Align_eq [of 12 s] by simp_all

lemma bit_le_word:
  "bit (le_word bs :: 'a::len word) i \<longleftrightarrow> i < LENGTH('a) \<and> i div 8 < length bs \<and> bit (bs ! (i div 8)) (i mod 8)"
proof (induction bs arbitrary: i)
  case (Cons b bs)
  show ?case
  proof (cases "i < 8")
    case True
    then have "\<not> bit (push_bit 8 (le_word bs :: 'a word)) i" by (simp add: bit_push_bit_iff)
    with True show ?thesis by (auto simp: bit_or_iff bit_unsigned_iff)
  next
    case False
    then obtain j where j: "i = j + 8" using le_add_diff_inverse2 [of 8 i] by (metis not_less)
    have "\<not> bit b i" using j by (simp add: byte_high)
    with j show ?thesis using Cons [of j] by (auto simp: bit_or_iff bit_unsigned_iff bit_push_bit_iff)
  qed
qed simp

lemma length_le_bytes [simp]: "length (le_bytes n w) = n"
  by (simp add: le_bytes_def)

lemma le_word_bytes [simp]: "8 * n = LENGTH('a) \<Longrightarrow> le_word (le_bytes n w) = (w :: 'a::len word)"
  by (rule bit_word_eqI) (auto simp: bit_le_word le_bytes_def bit_simps div_less_iff_less_mult mult.commute)

lemma le_bytes_take: "m \<le> n \<Longrightarrow> take m (le_bytes n w) = le_bytes m w"
  by (simp add: le_bytes_def take_map)

section \<open>What a pickle holds\<close>

text \<open>
  The abstract value of a writable pickle is the list of its payload bytes. \<open>pickle_rep p hs bs\<close> is the
  invariant together with the abstraction: the buffer is the length of the payload, the rest of a
  header of \<open>hs\<close> bytes, the payload \<open>bs\<close> and \<open>r\<close> spare bytes, and the counters agree with it. In
  \<open>pickle_mem\<close> the size \<open>k\<close> that the header states may differ from what has been written.
\<close>

definition pad4 :: "byte list \<Rightarrow> byte list" where
  "pad4 bs = bs @ replicate ((4 - length bs mod 4) mod 4) 0"

abbreviation size_bytes :: "nat \<Rightarrow> memory" where
  "size_bytes n \<equiv> map Some (le_bytes 4 (of_nat n :: 32 word))"

definition pickle_mem :: "pickle \<Rightarrow> nat \<Rightarrow> nat \<Rightarrow> byte list \<Rightarrow> bool" where
  "pickle_mem p k hs bs \<longleftrightarrow>
     (\<exists>h r. header p = Some (size_bytes k @ h @ map Some bs @ r) \<and> 4 + length h = hs \<and>
        capacity_after_header p = length bs + length r) \<and>
     header_size p = hs \<and> hs \<le> 64 \<and> 4 dvd hs \<and> write_offset p = length bs \<and> 4 dvd length bs \<and>
     length bs < 2 ^ 32 \<and> capacity_after_header p < 2 ^ 36"

definition pickle_rep :: "pickle \<Rightarrow> nat \<Rightarrow> byte list \<Rightarrow> bool" where
  "pickle_rep p hs bs \<longleftrightarrow> pickle_mem p (length bs) hs bs"

lemma length_pad4: "length (pad4 bs) = (length bs + 3) div 4 * 4"
proof -
  define q r where "q = length bs div 4" and "r = length bs mod 4"
  then have n: "length bs = 4 * q + r" "r < 4" by simp_all
  then consider "r = 0" | "r = 1" | "r = 2" | "r = 3" by linarith
  then have "4 * q + r + (4 - r) mod 4 = (4 * q + r + 3) div 4 * 4" by cases simp_all
  then show ?thesis by (simp add: pad4_def r_def q_def)
qed

lemma mem_put_append:
  "length a = i \<Longrightarrow> length b = length src \<Longrightarrow> mem_put (a @ b @ c) i src = Inr (a @ src @ c)"
  by (simp add: mem_put_def)

lemma realloc_grow: "length m \<le> n \<Longrightarrow> realloc (Some m) n = m @ replicate (n - length m) None"
  by (simp add: realloc_def)

lemma dcheck_simps [simp]: "dcheck True = Inr ()" "dcheck False = Inl Check_Failed"
  by (simp_all add: dcheck_def)

lemma Align_le: "n < 2 ^ 62 \<Longrightarrow> n \<le> Align n 64 \<and> Align n 64 < n + 64"
proof -
  assume "n < 2 ^ 62"
  then have "Align n 64 = (n + 63) div 64 * 64" by (simp add: Align_64)
  moreover have "n \<le> (n + 63) div 64 * 64 \<and> (n + 63) div 64 * 64 < n + 64" by presburger
  ultimately show ?thesis by simp
qed

lemma Resize_mem:
  assumes rep: "pickle_mem p k0 hs bs" and al: "\<forall>n. alloc n"
    and n: "capacity_after_header p \<le> n" "n < 2 ^ 35"
  shows "\<exists>p'. Resize alloc n p = Inr p' \<and> pickle_mem p' k0 hs bs \<and> n \<le> capacity_after_header p'"
proof -
  obtain h r where hr: "header p = Some (size_bytes k0 @ h @ map Some bs @ r)"
    "4 + length h = hs" "capacity_after_header p = length bs + length r"
    and c: "header_size p = hs" "hs \<le> 64" "4 dvd hs" "write_offset p = length bs" "4 dvd length bs"
     "length bs < 2 ^ 32" "capacity_after_header p < 2 ^ 36"
    using rep unfolding pickle_mem_def by blast
  define k where "k = Align n 64"
  have k: "n \<le> k" "k < n + 64" using Align_le [of n] n by (auto simp: k_def)
  define p' where "p' = p\<lparr>capacity_after_header := k, header := Some (realloc (header p) (hs + k))\<rparr>"
  have ne: "capacity_after_header p \<noteq> kCapacityReadOnly" "k \<noteq> kCapacityReadOnly"
    using c(7) k n by (auto simp: kCapacityReadOnly_def npos_def)
  have "szadd hs k = hs + k" using k n c by (intro szadd_id) simp
  then have "Resize alloc n p = Inr p'"
    using ne al c by (simp add: Resize_def Let_def GetTotalAllocatedSize_def kPayloadUnit_def k_def p'_def)
  moreover have "header p' = Some (size_bytes k0 @ h @ map Some bs @
      (r @ replicate (k - capacity_after_header p) None))"
    using hr k n by (simp add: p'_def realloc_grow)
  then have "pickle_mem p' k0 hs bs" unfolding pickle_mem_def
    using hr c k n by (intro conjI exI) (auto simp: p'_def)
  ultimately show ?thesis using k by (auto simp: p'_def)
qed

lemma grown_capacity_bounds:
  assumes "capacity_after_header p < n" "n < 2 ^ 32"
  shows "n \<le> grown_capacity p n" "grown_capacity p n < 2 ^ 35"
proof -
  let ?c = "szmul (capacity_after_header p) 2"
  have c: "?c = capacity_after_header p * 2" using assms by (simp add: szmul_def)
  have "Align ?c 4096 \<le> ?c + 4095" using assms c by (simp add: Align_4096)
  moreover have "szsub (Align ?c 4096) 64 \<le> Align ?c 4096" if "?c > 4096"
  proof (subst szsub_id)
    show "64 \<le> Align ?c 4096" using that c assms by (simp add: Align_4096)
    show "Align ?c 4096 < 2 ^ 64" using calculation c assms by simp
  qed simp
  ultimately show "n \<le> grown_capacity p n" "grown_capacity p n < 2 ^ 35"
    using assms c by (auto simp: grown_capacity_def Let_def kPickleHeapAlign_def kPayloadUnit_def max_def)
qed

lemma pickle_memE:
  assumes "pickle_mem p k hs bs"
  obtains h r where
    "header p = Some (size_bytes k @ h @ map Some bs @ r)"
    "4 + length h = hs" "capacity_after_header p = length bs + length r"
    "header_size p = hs" "hs \<le> 64" "4 dvd hs" "write_offset p = length bs" "4 dvd length bs"
    "length bs < 2 ^ 32" "capacity_after_header p < 2 ^ 36" "capacity_after_header p \<noteq> kCapacityReadOnly"
  using assms unfolding pickle_mem_def kCapacityReadOnly_def npos_def by fastforce

lemma pickle_memI:
  assumes "header p = Some (size_bytes k @ h @ map Some bs @ r)"
    "4 + length h = hs" "capacity_after_header p = length bs + length r"
    "header_size p = hs" "hs \<le> 64" "4 dvd hs" "write_offset p = length bs" "4 dvd length bs"
    "length bs < 2 ^ 32" "capacity_after_header p < 2 ^ 36"
  shows "pickle_mem p k hs bs"
  using assms unfolding pickle_mem_def by blast

text \<open>The bytes between the payload and the spare rest are claimed, and only their padding is set.\<close>

definition claimed :: "pickle \<Rightarrow> nat \<Rightarrow> byte list \<Rightarrow> nat \<Rightarrow> bool" where
  "claimed p hs bs len \<longleftrightarrow> (\<forall>d. length d = len \<longrightarrow>
     (\<exists>p'. put_at p (hs + length bs) (map Some d) = Inr p' \<and> pickle_rep p' hs (bs @ pad4 d)))"

lemma put_at_append:
  assumes "header p = Some (a @ b @ c)" "length a = i" "length b = length src"
  shows "put_at p i src = Inr (p\<lparr>header := Some (a @ src @ c)\<rparr>)"
  using assms by (simp add: put_at_def mem_put_append)

lemma set_payload_size_eq:
  "header p = Some (size_bytes k @ c) \<Longrightarrow> set_payload_size p n = Inr (p\<lparr>header := Some (size_bytes n @ c)\<rparr>)"
  unfolding set_payload_size_def by (subst put_at_append [where a = "[]" and c = c]) auto

lemma pad4_eq: "length d = len \<Longrightarrow> pad4 d = d @ replicate ((len + 3) div 4 * 4 - len) 0"
  using length_pad4 [of d] by (simp add: pad4_def)

lemma align4_le: "len \<le> (len + 3) div 4 * 4" for len :: nat
  by presburger

lemma claimedI:
  assumes m: "header p = Some (size_bytes (length bs + (len + 3) div 4 * 4) @ h @ map Some bs @ r1 @
      replicate ((len + 3) div 4 * 4 - len) (Some 0) @ r3)"
    and hr: "4 + length h = hs" "length r1 = len"
      "capacity_after_header p = length bs + (len + 3) div 4 * 4 + length r3"
    and c: "header_size p = hs" "hs \<le> 64" "4 dvd hs" "write_offset p = length bs + (len + 3) div 4 * 4"
      "4 dvd length bs" "length bs + (len + 3) div 4 * 4 < 2 ^ 32" "capacity_after_header p < 2 ^ 36"
  shows "claimed p hs bs len"
  unfolding claimed_def
proof (intro allI impI)
  fix d :: "byte list" assume d: "length d = len"
  let ?pad = "replicate ((len + 3) div 4 * 4 - len) (Some 0)"
  have "put_at p (hs + length bs) (map Some d) = Inr (p\<lparr>header :=
      Some ((size_bytes (length bs + (len + 3) div 4 * 4) @ h @ map Some bs) @ map Some d @ ?pad @ r3)\<rparr>)"
    using hr d by (intro put_at_append [where b = r1]) (auto simp: m)
  moreover have "pickle_rep (p\<lparr>header :=
      Some ((size_bytes (length bs + (len + 3) div 4 * 4) @ h @ map Some bs) @ map Some d @ ?pad @ r3)\<rparr>)
      hs (bs @ pad4 d)"
    using hr c d align4_le [of len]
    unfolding pickle_rep_def
    by (intro pickle_memI [where h = h and r = r3]) (auto simp: pad4_eq)
  ultimately show "\<exists>p'. put_at p (hs + length bs) (map Some d) = Inr p' \<and> pickle_rep p' hs (bs @ pad4 d)"
    by blast
qed

lemma Claim_in_capacity:
  assumes rep: "pickle_mem p k hs bs" and n: "length bs + (len + 3) div 4 * 4 < 2 ^ 32"
    and cap: "length bs + (len + 3) div 4 * 4 \<le> capacity_after_header p"
  defines "new_size \<equiv> length bs + (len + 3) div 4 * 4"
  shows "\<exists>p'. bind_result (put_at p (hs + length bs + len) (replicate ((len + 3) div 4 * 4 - len) (Some 0)))
      (\<lambda>p. bind_result (set_payload_size p new_size) (\<lambda>p. Inr (hs + length bs, p\<lparr>write_offset := new_size\<rparr>)))
    = Inr (hs + length bs, p') \<and> claimed p' hs bs len"
proof -
  let ?k = "(len + 3) div 4 * 4 - len"
  obtain h r where hr: "header p = Some (size_bytes k @ h @ map Some bs @ r)"
      "4 + length h = hs" "capacity_after_header p = length bs + length r"
    and c: "header_size p = hs" "hs \<le> 64" "4 dvd hs" "write_offset p = length bs" "4 dvd length bs"
      "length bs < 2 ^ 32" "capacity_after_header p < 2 ^ 36"
    using rep by (rule pickle_memE)
  define r1 r2 r3 where "r1 = take len r" and "r2 = take ?k (drop len r)" and "r3 = drop ?k (drop len r)"
  have r: "r = r1 @ r2 @ r3" by (simp only: r1_def r2_def r3_def append_take_drop_id)
  have len: "length r1 = len" "length r2 = ?k"
    using cap hr(3) align4_le [of len] by (auto simp: r1_def r2_def)
  have "put_at p (hs + length bs + len) (replicate ?k (Some 0)) = Inr (p\<lparr>header :=
      Some ((size_bytes k @ h @ map Some bs @ r1) @ replicate ?k (Some 0) @ r3)\<rparr>)"
    using hr len by (intro put_at_append [where b = r2]) (auto simp: r)
  moreover have "set_payload_size (p\<lparr>header :=
      Some ((size_bytes k @ h @ map Some bs @ r1) @ replicate ?k (Some 0) @ r3)\<rparr>) new_size =
    Inr (p\<lparr>header := Some (size_bytes new_size @ h @ map Some bs @ r1 @ replicate ?k (Some 0) @ r3)\<rparr>)"
    by (subst set_payload_size_eq) auto
  moreover have "claimed (p\<lparr>header := Some (size_bytes new_size @ h @ map Some bs @ r1 @ replicate ?k (Some 0) @ r3),
      write_offset := new_size\<rparr>) hs bs len"
    using hr c len n align4_le [of len]
    by (intro claimedI [of _ _ _ h r1 r3]) (auto simp: new_size_def r)
  ultimately show ?thesis by simp
qed

lemma Claim_rep:
  assumes rep: "pickle_mem p k hs bs" and al: "\<forall>n. alloc n" and n: "length bs + (len + 3) div 4 * 4 < 2 ^ 32"
  shows "\<exists>p'. ClaimUninitializedBytesInternal alloc len p = Inr (hs + length bs, p') \<and> claimed p' hs bs len"
proof -
  let ?dl = "(len + 3) div 4 * 4"
  have c: "header_size p = hs" "write_offset p = length bs" "kCapacityReadOnly \<noteq> capacity_after_header p"
    using rep by (auto elim!: pickle_memE)
  have dl: "Align len 4 = ?dl" using n align4_le [of len] by (intro Align_4) simp
  have sub: "szsub uint32_max ?dl = uint32_max - ?dl" "szsub ?dl len = ?dl - len"
      "szadd (length bs) ?dl = length bs + ?dl"
    using n align4_le [of len] by (simp_all add: szsub_id szadd_id uint32_max_def)
  let ?grow = "if length bs + ?dl > capacity_after_header p
    then Resize alloc (grown_capacity p (length bs + ?dl)) p else Inr p"
  obtain p1 where p1: "?grow = Inr p1" "pickle_mem p1 k hs bs" "length bs + ?dl \<le> capacity_after_header p1"
  proof (cases "length bs + ?dl > capacity_after_header p")
    case True
    note g = grown_capacity_bounds [OF True n]
    then have "capacity_after_header p \<le> grown_capacity p (length bs + ?dl)" using True by simp
    from Resize_mem [OF rep al this g(2)] g(1) True show ?thesis
      by (auto intro: that dest: order_trans)
  next
    case False
    with rep show ?thesis by (intro that) auto
  qed
  then have c1: "header_size p1 = hs" "write_offset p1 = length bs" by (auto elim!: pickle_memE)
  have "?dl \<le> uint32_max" "len \<le> ?dl" "length bs \<le> uint32_max - ?dl"
    using n align4_le [of len] by (auto simp: uint32_max_def)
  then have "ClaimUninitializedBytesInternal alloc len p =
     bind_result (put_at p1 (hs + length bs + len) (replicate (?dl - len) (Some 0)))
      (\<lambda>p. bind_result (set_payload_size p (length bs + ?dl))
        (\<lambda>p. Inr (hs + length bs, p\<lparr>write_offset := length bs + ?dl\<rparr>)))"
    using c c1 p1(1) by (simp add: ClaimUninitializedBytesInternal_def dl sub Let_def split: if_splits)
  with Claim_in_capacity [OF p1(2) n p1(3)] show ?thesis by simp
qed

lemma WriteBytesCommon_mem:
  assumes "pickle_mem p k hs bs" "\<forall>n. alloc n" "length bs + length (pad4 d) < 2 ^ 32" "length d = len"
  shows "\<exists>p'. WriteBytesCommon alloc d len p = Inr p' \<and> pickle_rep p' hs (bs @ pad4 d)"
proof -
  have "kCapacityReadOnly \<noteq> capacity_after_header p" using assms(1) by (auto elim!: pickle_memE)
  moreover obtain p1 where "ClaimUninitializedBytesInternal alloc len p = Inr (hs + length bs, p1)"
      "claimed p1 hs bs len"
    using Claim_rep [OF assms(1,2)] assms(3,4) by (auto simp: length_pad4)
  ultimately show ?thesis using assms(4) by (auto simp: WriteBytesCommon_def claimed_def)
qed

end
