(* ===== verification/Pickle_Codec.thy ===== *)
theory Pickle_Codec
  imports Pickle
begin

text \<open>
  Sequences of typed values through a pickle (base/pickle.cc): what a client appends with the writers
  is what the iterator reads back, in this process and from a copy of the bytes in another one, and
  bytes that nobody wrote with a pickle are read without leaving their buffer. The contract between
  writers and readers is the locale \<open>codec\<close>, an extension of \<open>appender\<close>.
\<close>

section \<open>Values\<close>

text \<open>A value of each type that has a writer, and the readers' side of it: the type to ask for.\<close>

datatype pickle_value =
    VBool bool
  | VInt int
  | VLong int
  | VUInt16 "16 word"
  | VUInt32 "32 word"
  | VInt64 int
  | VUInt64 "64 word"
  | VSizeT nat
  | VFloat "32 word"
  | VDouble "64 word"
  | VString "byte list"
  | VString16 "16 word list"
  | VData "byte list"
  | VBytes "byte list"

datatype pickle_type =
    TBool
  | TInt
  | TLong
  | TUInt16
  | TUInt32
  | TInt64
  | TUInt64
  | TSizeT
  | TFloat
  | TDouble
  | TString
  | TString16
  | TData
  | TBytes int

fun type_of :: "pickle_value \<Rightarrow> pickle_type" where
  "type_of (VBool _) = TBool"
| "type_of (VInt _) = TInt"
| "type_of (VLong _) = TLong"
| "type_of (VUInt16 _) = TUInt16"
| "type_of (VUInt32 _) = TUInt32"
| "type_of (VInt64 _) = TInt64"
| "type_of (VUInt64 _) = TUInt64"
| "type_of (VSizeT _) = TSizeT"
| "type_of (VFloat _) = TFloat"
| "type_of (VDouble _) = TDouble"
| "type_of (VString _) = TString"
| "type_of (VString16 _) = TString16"
| "type_of (VData _) = TData"
| "type_of (VBytes bs) = TBytes (int (length bs))"

text \<open>Which numbers are values of their type, and how long a string may be: its size has to be an \<^verbatim>\<open>int\<close>.\<close>

fun value_ok :: "pickle_value \<Rightarrow> bool" where
  "value_ok (VInt i) = is_i32 i"
| "value_ok (VLong i) = is_i64 i"
| "value_ok (VInt64 i) = is_i64 i"
| "value_ok (VSizeT n) = (n < 2 ^ 64)"
| "value_ok (VString bs) = (length bs < 2 ^ 31)"
| "value_ok (VString16 cs) = (length cs < 2 ^ 30)"
| "value_ok (VData bs) = (length bs < 2 ^ 31)"
| "value_ok (VBytes bs) = (length bs < 2 ^ 31)"
| "value_ok _ = True"

fun write_value :: "allocator \<Rightarrow> pickle_value \<Rightarrow> pickle \<Rightarrow> (bool \<times> pickle) result" where
  "write_value alloc (VBool b) = WriteBool alloc b"
| "write_value alloc (VInt i) = WriteInt alloc i"
| "write_value alloc (VLong i) = WriteLong alloc i"
| "write_value alloc (VUInt16 w) = WriteUInt16 alloc w"
| "write_value alloc (VUInt32 w) = WriteUInt32 alloc w"
| "write_value alloc (VInt64 i) = WriteInt64 alloc i"
| "write_value alloc (VUInt64 w) = WriteUInt64 alloc w"
| "write_value alloc (VSizeT n) = WriteSizeT alloc n"
| "write_value alloc (VFloat w) = WriteFloat alloc w"
| "write_value alloc (VDouble w) = WriteDouble alloc w"
| "write_value alloc (VString bs) = WriteString alloc bs"
| "write_value alloc (VString16 cs) = WriteString16 alloc cs"
| "write_value alloc (VData bs) = WriteData alloc bs (int (length bs))"
| "write_value alloc (VBytes bs) = WriteBytes alloc bs (int (length bs))"

text \<open>A client that reads a blob follows the pointer it was given.\<close>

definition follow :: "nat option \<Rightarrow> int \<Rightarrow> pickle_iterator \<Rightarrow> (byte list option \<times> pickle_iterator) result" where
  "follow ptr len it =
     (case ptr of None \<Rightarrow> Inr (None, it)
      | Some i \<Rightarrow> bind_result (load_from it i (size_of_int len)) (\<lambda>bs. Inr (Some bs, it)))"

definition read_map :: "('a \<Rightarrow> 'b) \<Rightarrow> ('a option \<times> 'i) result \<Rightarrow> ('b option \<times> 'i) result" where
  "read_map f r = bind_result r (\<lambda>(x, it). Inr (map_option f x, it))"

fun read_value :: "pickle_type \<Rightarrow> pickle_iterator \<Rightarrow> (pickle_value option \<times> pickle_iterator) result" where
  "read_value TBool it = read_map VBool (ReadBool it)"
| "read_value TInt it = read_map VInt (ReadInt it)"
| "read_value TLong it = read_map VLong (ReadLong it)"
| "read_value TUInt16 it = read_map VUInt16 (ReadUInt16 it)"
| "read_value TUInt32 it = read_map VUInt32 (ReadUInt32 it)"
| "read_value TInt64 it = read_map VInt64 (ReadInt64 it)"
| "read_value TUInt64 it = read_map VUInt64 (ReadUInt64 it)"
| "read_value TSizeT it = read_map VSizeT (ReadSizeT it)"
| "read_value TFloat it = read_map VFloat (ReadFloat it)"
| "read_value TDouble it = read_map VDouble (ReadDouble it)"
| "read_value TString it = read_map VString (ReadString it)"
| "read_value TString16 it = read_map VString16 (ReadString16 it)"
| "read_value TData it =
     read_map VData (bind_result (ReadData it) (\<lambda>(ptr, len, it). follow ptr len it))"
| "read_value (TBytes n) it =
     read_map VBytes (case ReadBytes n it of (ptr, it) \<Rightarrow> follow ptr n it)"

text \<open>The bytes that a value takes in the payload, with padding.\<close>

definition enc_sized :: "int \<Rightarrow> byte list \<Rightarrow> byte list" where
  "enc_sized n bs = le_bytes 4 (word_of_int n :: 32 word) @ pad4 bs"

fun enc :: "pickle_value \<Rightarrow> byte list" where
  "enc (VBool b) = le_bytes 4 (of_bool b :: 32 word)"
| "enc (VInt i) = le_bytes 4 (word_of_int i :: 32 word)"
| "enc (VLong i) = le_bytes 8 (word_of_int i :: 64 word)"
| "enc (VUInt16 w) = pad4 (le_bytes 2 w)"
| "enc (VUInt32 w) = le_bytes 4 w"
| "enc (VInt64 i) = le_bytes 8 (word_of_int i :: 64 word)"
| "enc (VUInt64 w) = le_bytes 8 w"
| "enc (VSizeT n) = le_bytes 8 (of_nat n :: 64 word)"
| "enc (VFloat w) = le_bytes 4 w"
| "enc (VDouble w) = le_bytes 8 w"
| "enc (VString bs) = enc_sized (int (length bs)) bs"
| "enc (VString16 cs) = enc_sized (int (length cs)) (concat (map (le_bytes 2) cs))"
| "enc (VData bs) = enc_sized (int (length bs)) bs"
| "enc (VBytes bs) = pad4 bs"

text \<open>A client that writes values one after the other and stops at the first \<^verbatim>\<open>false\<close>, and one that reads.\<close>

fun write_all :: "('v \<Rightarrow> 'w \<Rightarrow> (bool \<times> 'w) result) \<Rightarrow> 'v list \<Rightarrow> 'w \<Rightarrow> (bool \<times> 'w) result" where
  "write_all wr [] w = Inr (True, w)"
| "write_all wr (v # vs) w =
     bind_result (wr v w) (\<lambda>(ok, w). if ok then write_all wr vs w else Inr (False, w))"

fun read_all :: "('t \<Rightarrow> 'r \<Rightarrow> ('v option \<times> 'r) result) \<Rightarrow> 't list \<Rightarrow> 'r \<Rightarrow> ('v list option \<times> 'r) result" where
  "read_all rd [] r = Inr (Some [], r)"
| "read_all rd (t # ts) r =
     bind_result (rd t r) (\<lambda>(x, r). case x of None \<Rightarrow> Inr (None, r)
       | Some v \<Rightarrow> read_map (Cons v) (read_all rd ts r))"

section \<open>The contract of writers and readers\<close>

locale appender =
  fixes rep :: "'w \<Rightarrow> byte list \<Rightarrow> bool"
    and wr :: "'v \<Rightarrow> 'w \<Rightarrow> (bool \<times> 'w) result"
    and code :: "'v \<Rightarrow> byte list"
    and ok :: "'v \<Rightarrow> bool"
    and limit :: nat
  assumes wr_appends: "rep w bs \<Longrightarrow> ok v \<Longrightarrow> length bs + length (code v) < limit \<Longrightarrow>
      \<exists>w'. wr v w = Inr (True, w') \<and> rep w' (bs @ code v)"
begin

lemma write_all_appends:
  "rep w bs \<Longrightarrow> list_all ok vs \<Longrightarrow> length bs + length (concat (map code vs)) < limit \<Longrightarrow>
    \<exists>w'. write_all wr vs w = Inr (True, w') \<and> rep w' (bs @ concat (map code vs))"
proof (induction vs arbitrary: w bs)
  case (Cons v vs)
  from wr_appends [of w bs v] Cons.prems obtain w1 where w1: "wr v w = Inr (True, w1)" "rep w1 (bs @ code v)"
    by auto
  with Cons.IH [of w1 "bs @ code v"] Cons.prems show ?case by auto
qed simp

end

locale codec = appender rep wr code ok limit
  for rep :: "'w \<Rightarrow> byte list \<Rightarrow> bool"
    and wr :: "'v \<Rightarrow> 'w \<Rightarrow> (bool \<times> 'w) result"
    and code ok limit +
  fixes before :: "'r \<Rightarrow> byte list \<Rightarrow> bool"
    and rd :: "'t \<Rightarrow> 'r \<Rightarrow> ('v option \<times> 'r) result"
    and ty :: "'v \<Rightarrow> 't"
  assumes rd_consumes: "before r (code v @ rest) \<Longrightarrow> ok v \<Longrightarrow> \<exists>r'. rd (ty v) r = Inr (Some v, r') \<and> before r' rest"
begin

lemma read_all_consumes:
  "before r (concat (map code vs) @ rest) \<Longrightarrow> list_all ok vs \<Longrightarrow>
    \<exists>r'. read_all rd (map ty vs) r = Inr (Some vs, r') \<and> before r' rest"
proof (induction vs arbitrary: r)
  case (Cons v vs)
  from rd_consumes [of r v "concat (map code vs) @ rest"] Cons.prems
  obtain r1 where "rd (ty v) r = Inr (Some v, r1)" "before r1 (concat (map code vs) @ rest)" by auto
  with Cons.IH [of r1] Cons.prems show ?case by (auto simp: read_map_def)
qed simp

text \<open>What was written is read back, by a reader that is set on the payload.\<close>

lemma write_then_read:
  assumes "rep w []" "list_all ok vs" "length (concat (map code vs)) < limit"
    and "\<forall>w' bs. rep w' bs \<longrightarrow> before (start w') bs"
  shows "\<exists>w' r'. write_all wr vs w = Inr (True, w') \<and> rep w' (concat (map code vs)) \<and>
    read_all rd (map ty vs) (start w') = Inr (Some vs, r') \<and> before r' []"
proof -
  obtain w' where w': "write_all wr vs w = Inr (True, w')" "rep w' (concat (map code vs))"
    using write_all_appends [of w "[]" vs] assms by auto
  moreover obtain r' where "read_all rd (map ty vs) (start w') = Inr (Some vs, r')" "before r' []"
    using read_all_consumes [of "start w'" vs "[]"] assms w' by auto
  ultimately show ?thesis by blast
qed

end

section \<open>The writers append\<close>

lemma pad4_id: "4 dvd length bs \<Longrightarrow> pad4 bs = bs"
  by (auto simp: pad4_def)

lemma size_of_int_nat: "n < 2 ^ 64 \<Longrightarrow> size_of_int (int n) = n"
  by (simp add: size_of_int_def nat_mod_distrib flip: zmod_int)

lemma wrap32_nat: "n < 2 ^ 31 \<Longrightarrow> wrap32 (int n) = int n"
  by (rule wrap32_id) (simp add: is_i32_def)

lemma length_concat_le16 [simp]: "length (concat (map (le_bytes 2) cs)) = 2 * length cs"
  by (induction cs) auto

lemma WritePOD_mem:
  assumes "pickle_mem p k hs bs" "\<forall>n. alloc n" "length bs + length (pad4 d) < 2 ^ 32"
  shows "\<exists>p'. WritePOD alloc d p = Inr (True, p') \<and> pickle_rep p' hs (bs @ pad4 d)"
  using WriteBytesCommon_mem [OF assms refl] by (auto simp: WritePOD_def)

lemmas WritePOD_rep = WritePOD_mem [OF iffD1 [OF pickle_rep_def]]

lemma WritePOD_aligned:
  assumes "pickle_rep p hs bs" "\<forall>n. alloc n" "4 dvd length d" "length bs + length d < 2 ^ 32"
  shows "\<exists>p'. WritePOD alloc d p = Inr (True, p') \<and> pickle_rep p' hs (bs @ d)"
  using WritePOD_rep [OF assms(1,2), of d] assms(3,4) by (simp add: pad4_id)

lemma WriteBytes_rep:
  assumes "pickle_rep p hs bs" "\<forall>n. alloc n" "length bs + length (pad4 d) < 2 ^ 32"
  shows "\<exists>p'. WriteBytes alloc d (int (length d)) p = Inr (True, p') \<and> pickle_rep p' hs (bs @ pad4 d)"
proof -
  have "length d < 2 ^ 64" using assms(3) align4_le [of "length d"] by (simp add: length_pad4)
  then have "size_of_int (int (length d)) = length d" by (rule size_of_int_nat)
  then show ?thesis using WriteBytesCommon_mem [OF assms [unfolded pickle_rep_def] refl] by (auto simp: WriteBytes_def)
qed

lemma sized_rep:
  assumes rep: "pickle_rep p hs bs" "\<forall>n. alloc n" and n: "length bs + length (enc_sized n d) < 2 ^ 32"
  shows "\<exists>p'. bind_result (WriteInt alloc n p) (\<lambda>(ok, p).
      if \<not> ok then Inr (False, p) else WriteBytes alloc d (int (length d)) p) = Inr (True, p') \<and>
    pickle_rep p' hs (bs @ enc_sized n d)"
proof -
  obtain p1 where p1: "WriteInt alloc n p = Inr (True, p1)"
      "pickle_rep p1 hs (bs @ le_bytes 4 (word_of_int n :: 32 word))"
    using WritePOD_rep [OF rep, of "le_bytes 4 (word_of_int n :: 32 word)"] n
    by (auto simp: WriteInt_def enc_sized_def pad4_id)
  from WriteBytes_rep [OF p1(2) rep(2), of d] n p1(1) show ?thesis
    by (auto simp: enc_sized_def)
qed

lemma write_value_appends:
  assumes "pickle_rep p hs bs" "\<forall>n. alloc n" "value_ok v" "length bs + length (enc v) < 2 ^ 32"
  shows "\<exists>p'. write_value alloc v p = Inr (True, p') \<and> pickle_rep p' hs (bs @ enc v)"
proof (cases v)
  case (VString s)
  then have w: "wrap32 (int (length s)) = int (length s)" using assms(3) by (simp add: wrap32_nat)
  show ?thesis using sized_rep [OF assms(1,2), of "int (length s)" s] assms(4)
    unfolding VString write_value.simps WriteString_def w by simp
next
  case (VString16 s)
  let ?d = "concat (map (le_bytes 2) s)"
  have w: "wrap32 (int (szmul (size_of_int (int (length s))) 2)) = int (length ?d)"
      "wrap32 (int (length s)) = int (length s)"
    using assms(3) VString16 wrap32_nat [of "length s * 2"]
    by (simp_all add: wrap32_nat size_of_int_nat szmul_def mult.commute)
  show ?thesis using sized_rep [OF assms(1,2), of "int (length s)" ?d] assms(4)
    unfolding VString16 write_value.simps WriteString16_def w by simp
next
  case (VData s)
  with sized_rep [OF assms(1,2), of "int (length s)" s] assms(4) show ?thesis by (simp add: WriteData_def)
next
  case (VBytes s)
  with WriteBytes_rep [OF assms(1,2)] assms(4) show ?thesis by simp
next
  case (VBool b)
  with WritePOD_rep [OF assms(1,2), of "le_bytes 4 (of_bool b :: 32 word)"] assms(4) show ?thesis
    by (cases b) (simp_all add: WriteBool_def WriteInt_def pad4_id)
next
  case (VUInt16 w)
  with WritePOD_rep [OF assms(1,2), of "le_bytes 2 w"] assms(4) show ?thesis
    by (simp add: WriteUInt16_def)
qed (use WritePOD_aligned [OF assms(1,2)] assms(4) in
  \<open>simp_all add: WriteInt_def WriteLong_def WriteUInt32_def WriteInt64_def
     WriteUInt64_def WriteSizeT_def WriteFloat_def WriteDouble_def\<close>)

section \<open>The readers consume\<close>

definition it_before :: "pickle_iterator \<Rightarrow> byte list \<Rightarrow> bool" where
  "it_before it rest \<longleftrightarrow> (\<exists>pre tail. it_payload it = Some (map Some (pre @ rest) @ tail) \<and>
     read_index it = length pre \<and> end_index it = length pre + length rest \<and> end_index it < 2 ^ 32)"

definition next_it :: "pickle_iterator \<Rightarrow> byte list \<Rightarrow> pickle_iterator" where
  "next_it it d = it\<lparr>read_index := read_index it + length (pad4 d)\<rparr>"

lemma mem_get_mid: "length a = i \<Longrightarrow> length d = n \<Longrightarrow> mem_get (a @ map Some d @ c) i n = Inr d"
  by (auto simp: mem_get_def comp_def)

lemma it_before_step:
  assumes "it_before it (pad4 d @ rest)" "length d = n"
  shows "szsub (end_index it) (read_index it) = length (pad4 d) + length rest" "n \<le> length (pad4 d)"
    "length (pad4 d) < 2 ^ 32" "current_read_ptr it = Some (read_index it)" "Advance n it = next_it it d"
    "load_from (next_it it d) (read_index it) n = Inr d" "it_before (next_it it d) rest"
proof -
  obtain pre tail where m: "it_payload it = Some (map Some (pre @ pad4 d @ rest) @ tail)"
    "read_index it = length pre" "end_index it = length pre + length (pad4 d @ rest)" "end_index it < 2 ^ 32"
    using assms(1) unfolding it_before_def by blast
  show l: "szsub (end_index it) (read_index it) = length (pad4 d) + length rest" "length (pad4 d) < 2 ^ 32"
    using m by (simp_all add: szsub_id)
  show le: "n \<le> length (pad4 d)" using align4_le [of n] assms(2) by (simp add: length_pad4)
  have "Align n 4 = length (pad4 d)" using le l assms(2) by (simp add: Align_4 length_pad4)
  then show "Advance n it = next_it it d" using l m by (simp add: Advance_def Let_def next_it_def szadd_id)
  show "current_read_ptr it = Some (read_index it)" using m by (simp add: current_read_ptr_def)
  show "load_from (next_it it d) (read_index it) n = Inr d"
    using mem_get_mid [of "map Some pre" "length pre" d n] assms(2) m
    by (simp add: load_from_def next_it_def pad4_def)
  show "it_before (next_it it d) rest" unfolding it_before_def
    by (rule exI [of _ "pre @ pad4 d"]) (use m in \<open>simp add: next_it_def\<close>)
qed

lemma get_type_step:
  assumes "it_before it (pad4 d @ rest)" "length d = n"
  shows "GetReadPointerAndAdvance_type n it = (Some (read_index it), next_it it d)"
  using it_before_step [OF assms] by (simp add: GetReadPointerAndAdvance_type_def)

lemma get_bytes_step:
  assumes "it_before it (pad4 d @ rest)" "length d = n"
  shows "GetReadPointerAndAdvance (int n) it = (Some (read_index it), next_it it d)"
  using it_before_step [OF assms] by (simp add: GetReadPointerAndAdvance_def size_of_int_nat)

lemma read_builtin_step:
  assumes "it_before it (pad4 d @ rest)" "length d = n" "f d = Inr v"
  shows "ReadBuiltinType n f it = Inr (Some v, next_it it d)" "it_before (next_it it d) rest"
  using it_before_step [OF assms(1,2)] assms(3)
  by (simp_all add: ReadBuiltinType_def get_type_step [OF assms(1,2)])

lemma sint_i32: "is_i32 i \<Longrightarrow> sint (word_of_int i :: 32 word) = i"
  using wrap32_id [of i] by (simp add: signed_of_int wrap32_def)

lemma sint_i64: "is_i64 i \<Longrightarrow> sint (word_of_int i :: 64 word) = i"
  by (simp add: signed_of_int is_i64_def signed_take_bit_int_eq_self)

lemma char16s_of_bytes [simp]: "char16s_of (concat (map (le_bytes 2) cs)) = cs"
proof (induction cs)
  case (Cons c cs)
  have "le_bytes 2 c = [le_bytes 2 c ! 0, le_bytes 2 c ! 1]" by (simp add: le_bytes_def upt_conv_Cons)
  moreover have "le_word (le_bytes 2 c) = c" by simp
  ultimately have "char16s_of (le_bytes 2 c @ bs) = c # char16s_of bs" for bs
    by (metis append_Cons append_Nil char16s_of.simps(1))
  with Cons show ?case by simp
qed simp

lemma replicate_three: "replicate 3 x = [x, x, x]"
  by (simp add: numeral_3_eq_3)

lemma le_bytes_bool: "le_bytes 4 (of_bool b :: 32 word) = pad4 [of_bool b]"
  by (cases b) (simp_all add: le_bytes_def pad4_def upt_conv_Cons replicate_three)

lemma read_word_step:
  fixes w :: "'a::len word"
  assumes "it_before it (le_bytes n w @ rest)" "4 dvd n" "8 * n = LENGTH('a)"
  shows "ReadBuiltinType n (\<lambda>bs. Inr (g (le_word bs :: 'a word))) it = Inr (Some (g w), next_it it (le_bytes n w)) \<and>
    it_before (next_it it (le_bytes n w)) rest"
  using read_builtin_step [of it "le_bytes n w" rest n "\<lambda>bs. Inr (g (le_word bs :: 'a word))" "g w"] assms
  by (simp_all add: pad4_id)

lemma read_sized_step:
  assumes "it_before it (enc_sized (int n) d @ rest)" "n < 2 ^ 31"
    and get: "get (int n) = GetReadPointerAndAdvance (int (length d))"
  shows "\<exists>it' ptr. read_sized get it = Inr (Some (ptr, int n), it') \<and>
    load_from it' ptr (length d) = Inr d \<and> it_before it' rest"
proof -
  let ?n = "le_bytes 4 (word_of_int (int n) :: 32 word)"
  have b: "it_before it (pad4 ?n @ pad4 d @ rest)" using assms(1) by (simp add: enc_sized_def pad4_id)
  have "sint (word_of_int (int n) :: 32 word) = int n" using assms(2) by (intro sint_i32) (simp add: is_i32_def)
  then have i: "ReadInt it = Inr (Some (int n), next_it it ?n)" "it_before (next_it it ?n) (pad4 d @ rest)"
    using read_word_step [of it 4 "word_of_int (int n) :: 32 word" "pad4 d @ rest" sint] b
    by (simp_all add: ReadInt_def pad4_id)
  show ?thesis using get_bytes_step [OF i(2) refl] it_before_step [OF i(2) refl]
    by (auto simp: read_sized_def i(1) get)
qed

lemma elements_bytes:
  "n < 2 ^ 30 \<Longrightarrow> GetReadPointerAndAdvance_elements (int n) 2 = GetReadPointerAndAdvance (int (2 * n))"
proof -
  assume n: "n < 2 ^ 30"
  have w: "wrap64 (int (szmul (size_of_int (int n)) 2)) = int (2 * n)"
    using n by (simp add: size_of_int_nat szmul_def wrap64_def signed_take_bit_int_eq_self mult.commute)
  show ?thesis using n wrap32_nat [of "2 * n"]
    by (intro ext) (simp add: GetReadPointerAndAdvance_elements_def w)
qed

lemma ReadData_eq:
  "bind_result (ReadData it) (\<lambda>(ptr, len, it). follow ptr len it) = ReadString it"
  by (auto simp: ReadData_def ReadString_def read_sized_def follow_def ReadBytes_def bind_result_def
      split: sum.splits prod.splits option.splits)

lemma ReadString_step:
  assumes "it_before it (enc_sized (int (length bs)) bs @ rest)" "length bs < 2 ^ 31"
  shows "\<exists>it'. ReadString it = Inr (Some bs, it') \<and> it_before it' rest"
proof -
  have "size_of_int (int (length bs)) = length bs" using assms(2) by (simp add: size_of_int_nat)
  then show ?thesis using read_sized_step [OF assms, of GetReadPointerAndAdvance] by (auto simp: ReadString_def)
qed

lemma ReadString16_step:
  assumes "it_before it (enc (VString16 cs) @ rest)" "length cs < 2 ^ 30"
  shows "\<exists>it'. ReadString16 it = Inr (Some cs, it') \<and> it_before it' rest"
proof -
  have "2 * size_of_int (int (length cs)) = 2 * length cs" using assms(2) by (simp add: size_of_int_nat)
  then show ?thesis
    using read_sized_step [of it "length cs" "concat (map (le_bytes 2) cs)" rest
        "\<lambda>len. GetReadPointerAndAdvance_elements len 2"] assms
    by (auto simp: ReadString16_def elements_bytes)
qed

lemma read_value_consumes:
  assumes "it_before it (enc v @ rest)" "value_ok v"
  shows "\<exists>it'. read_value (type_of v) it = Inr (Some v, it') \<and> it_before it' rest"
proof (cases v)
  case (VBool b)
  then have "it_before it (pad4 [of_bool b] @ rest)" using assms(1) by (simp add: le_bytes_bool)
  moreover have "bool_of_bytes [of_bool b] = Inr b" by (simp add: bool_of_bytes_def)
  ultimately show ?thesis using read_builtin_step [of it "[of_bool b]" rest 1 bool_of_bytes b] VBool
    by (simp add: ReadBool_def read_map_def)
next
  case (VString bs)
  with ReadString_step [of it bs rest] assms show ?thesis by (auto simp: read_map_def)
next
  case (VString16 cs)
  with ReadString16_step [of it cs rest] assms show ?thesis by (auto simp: read_map_def)
next
  case (VData bs)
  with ReadString_step [of it bs rest] assms show ?thesis by (auto simp: read_map_def ReadData_eq)
next
  case (VBytes bs)
  then have b: "it_before it (pad4 bs @ rest)" using assms by simp
  have "size_of_int (int (length bs)) = length bs" using assms VBytes by (simp add: size_of_int_nat)
  with VBytes get_bytes_step [OF b refl] it_before_step [OF b refl] show ?thesis
    by (simp add: read_map_def ReadBytes_def follow_def)
next
  case (VUInt16 w)
  with read_builtin_step [of it "le_bytes 2 w" rest 2 "\<lambda>bs. Inr (le_word bs)" w] assms show ?thesis
    by (simp add: ReadUInt16_def read_map_def)
next
  case (VFloat w)
  then have b: "it_before it (pad4 (le_bytes 4 w) @ rest)" using assms by (simp add: pad4_id)
  from VFloat get_type_step [OF b] it_before_step [OF b] show ?thesis by (simp add: ReadFloat_def read_map_def)
next
  case (VDouble w)
  then have b: "it_before it (pad4 (le_bytes 8 w) @ rest)" using assms by (simp add: pad4_id)
  from VDouble get_type_step [OF b] it_before_step [OF b] show ?thesis by (simp add: ReadDouble_def read_map_def)
next
  case (VSizeT n)
  have "unat (of_nat n :: 64 word) = n" using VSizeT assms by (simp add: unsigned_of_nat take_bit_nat_eq_self)
  with VSizeT read_word_step [of it 8 "of_nat n :: 64 word" rest "\<lambda>w. w"] assms show ?thesis
    by (simp add: ReadSizeT_def ReadUInt64_def read_map_def Let_def)
next
  case (VInt i)
  with read_word_step [of it 4 "word_of_int i :: 32 word" rest sint] assms sint_i32 [of i] show ?thesis
    by (simp add: ReadInt_def read_map_def)
next
  case (VLong i)
  with read_word_step [of it 8 "word_of_int i :: 64 word" rest sint] assms sint_i64 [of i] show ?thesis
    by (simp add: ReadLong_def read_map_def)
next
  case (VInt64 i)
  with read_word_step [of it 8 "word_of_int i :: 64 word" rest sint] assms sint_i64 [of i] show ?thesis
    by (simp add: ReadInt64_def read_map_def)
next
  case (VUInt32 w)
  with read_word_step [of it 4 w rest "\<lambda>w. w"] assms show ?thesis by (simp add: ReadUInt32_def read_map_def)
next
  case (VUInt64 w)
  with read_word_step [of it 8 w rest "\<lambda>w. w"] assms show ?thesis by (simp add: ReadUInt64_def read_map_def)
qed

interpretation pk: codec "\<lambda>p bs. (\<forall>n. alloc n) \<and> pickle_rep p hs bs" "write_value alloc" enc value_ok "2 ^ 32"
    it_before read_value type_of for alloc hs
  by unfold_locales (use write_value_appends read_value_consumes in auto)

section \<open>Creating, copying and sending\<close>

lemma Align_bounds: "n \<le> 64 \<Longrightarrow> 4 \<le> n \<Longrightarrow> 4 \<le> Align n 4 \<and> Align n 4 \<le> 64 \<and> 4 dvd Align n 4"
proof -
  assume n: "n \<le> 64" "4 \<le> n"
  have "(n + 3) div 4 * 4 \<le> 64" using n div_le_mono [of "n + 3" 67 4] by simp
  then show ?thesis using n align4_le [of n] by (auto simp: Align_4)
qed

lemma fresh_rep:
  assumes "header p = None" "header_size p = hs" "capacity_after_header p = 0" "write_offset p = 0"
    and hs: "4 \<le> hs" "hs \<le> 64" "4 dvd hs" and al: "\<forall>n. alloc n"
  shows "\<exists>p'. bind_result (Resize alloc kPayloadUnit p) (\<lambda>p. set_payload_size p 0) = Inr p' \<and> pickle_rep p' hs []"
proof -
  let ?p = "p\<lparr>capacity_after_header := 64, header := Some (replicate (hs + 64) None)\<rparr>"
  have r: "Resize alloc kPayloadUnit p = Inr ?p"
    using assms by (simp add: Resize_def kPayloadUnit_def Align_64 GetTotalAllocatedSize_def szadd_id
        kCapacityReadOnly_def npos_def realloc_def Let_def)
  have "replicate (hs + 64) (None :: byte option) = [] @ replicate 4 None @ replicate (hs - 4) None @ replicate 64 None"
    using hs by (simp add: replicate_add [symmetric])
  then have "set_payload_size ?p 0 = Inr (p\<lparr>capacity_after_header := 64, header :=
      Some ([] @ size_bytes 0 @ replicate (hs - 4) None @ replicate 64 None)\<rparr>)"
    unfolding set_payload_size_def by (subst put_at_append [where b = "replicate 4 None"]) auto
  moreover have "pickle_rep (p\<lparr>capacity_after_header := 64, header :=
      Some ([] @ size_bytes 0 @ replicate (hs - 4) None @ replicate 64 None)\<rparr>) hs []"
    unfolding pickle_rep_def
    by (intro pickle_memI [where h = "replicate (hs - 4) None" and r = "replicate 64 None"]) (use assms in auto)
  ultimately show ?thesis using r by simp
qed

lemma Pickle_rep: "\<forall>n. alloc n \<Longrightarrow> \<exists>p. Pickle alloc = Inr p \<and> pickle_rep p 4 []"
  unfolding Pickle_def sizeof_Header_def by (rule fresh_rep) auto

lemma Pickle_sized_rep:
  assumes "\<forall>n. alloc n" "4 \<le> hs" "hs \<le> 64"
  shows "\<exists>p. Pickle_sized alloc hs = Inr p \<and> pickle_rep p (Align (nat hs) 4) []"
proof -
  have "size_of_int hs = nat hs" "4 \<le> nat hs" using assms by (simp_all add: size_of_int_def)
  moreover have "\<exists>p. bind_result (Resize alloc kPayloadUnit \<lparr>header = None, header_size = Align (nat hs) 4,
      capacity_after_header = 0, write_offset = 0\<rparr>) (\<lambda>p. set_payload_size p 0) = Inr p \<and>
      pickle_rep p (Align (nat hs) 4) []"
    using Align_bounds [of "nat hs"] assms by (intro fresh_rep) auto
  ultimately show ?thesis using assms by (simp add: Pickle_sized_def sizeof_Header_def kPayloadUnit_def)
qed

lemma load_size_bytes: "k < 2 ^ 32 \<Longrightarrow> load_payload_size (size_bytes k @ c) = Inr k"
  using mem_get_mid [of "[]" 0 "le_bytes 4 (of_nat k :: 32 word)" 4 c]
  by (simp add: load_payload_size_def unsigned_of_nat take_bit_nat_eq_self)

lemma pickle_mem_size:
  assumes "pickle_mem p k hs bs" "k < 2 ^ 32"
  shows "header_payload_size p = Inr k" "payload_size p = Inr k"
  using assms(1) load_size_bytes [OF assms(2)]
  by (auto elim!: pickle_memE simp: header_payload_size_def payload_size_def)

lemma iterator_rep:
  assumes "pickle_rep p hs bs"
  shows "\<exists>it. PickleIterator p = Inr it \<and> it_before it bs"
proof -
  have m: "pickle_mem p (length bs) hs bs" using assms by (simp add: pickle_rep_def)
  then obtain h r where h: "header p = Some (size_bytes (length bs) @ h @ map Some bs @ r)" "4 + length h = hs"
      "header_size p = hs" "length bs < 2 ^ 32" by (rule pickle_memE)
  then have "payload p = Some (map Some bs @ r)" by (auto simp: payload_def)
  moreover have "payload_size p = Inr (length bs)" using m h by (simp add: pickle_mem_size)
  ultimately show ?thesis using h
    by (auto simp: PickleIterator_def it_before_def intro!: exI [of _ "[]"])
qed

text \<open>What a client sends: \<^verbatim>\<open>size()\<close> bytes from \<^verbatim>\<open>data()\<close>.\<close>

definition sent :: "pickle \<Rightarrow> byte list result" where
  "sent p = bind_result (pickle_size p) (\<lambda>n.
     case header p of None \<Rightarrow> Inl Out_Of_Bounds | Some m \<Rightarrow> mem_get m 0 n)"

definition framed :: "byte list \<Rightarrow> byte list" where
  "framed bs = le_bytes 4 (of_nat (length bs) :: 32 word) @ bs"

lemma sent_rep: 
  assumes "pickle_rep p 4 bs"
  shows "sent p = Inr (framed bs)"
proof -
  have m: "pickle_mem p (length bs) 4 bs" using assms by (simp add: pickle_rep_def)
  then obtain r where h: "header p = Some (size_bytes (length bs) @ map Some bs @ r)"
      "header_size p = 4" "length bs < 2 ^ 32" by (elim pickle_memE) auto
  have "pickle_size p = Inr (4 + length bs)"
    using m h by (simp add: pickle_size_def pickle_mem_size szadd_id)
  then show ?thesis using h mem_get_mid [of "[]" 0 "framed bs" "4 + length bs" r]
    by (simp add: sent_def framed_def)
qed

lemma Pickle_data_framed:
  assumes "length bs + 4 < 2 ^ 31"
  shows "Pickle_data (framed bs) (int (length (framed bs))) =
      Inr \<lparr>header = Some (map Some (framed bs)), header_size = 4, capacity_after_header = kCapacityReadOnly, write_offset = 0\<rparr>"
proof -
  have "load_payload_size (map Some (framed bs)) = Inr (length bs)"
    using load_size_bytes [of "length bs" "map Some bs"] assms by (simp add: framed_def)
  moreover have "nat ((int (length (framed bs)) - int (length bs)) mod 2 ^ 32) = 4" by (simp add: framed_def)
  moreover have "int (length (framed bs)) mod 2 ^ 32 = int (length bs) + 4" using assms by (simp add: framed_def)
  ultimately show ?thesis using assms by (simp add: Pickle_data_def sizeof_Header_def Let_def Align_4 framed_def)
qed

lemma iterator_framed:
  assumes "length bs + 4 < 2 ^ 31" "Pickle_data (framed bs) (int (length (framed bs))) = Inr q"
  shows "\<exists>it. PickleIterator q = Inr it \<and> it_before it bs"
proof -
  have q: "header q = Some (size_bytes (length bs) @ map Some bs)" "header_size q = 4"
    using assms(2) unfolding Pickle_data_framed [OF assms(1)] by (auto simp: framed_def)
  have "payload_size q = Inr (length bs)" "payload q = Some (map Some bs)"
    using assms(1) by (simp_all add: payload_size_def payload_def q load_size_bytes)
  then show ?thesis using assms by (auto simp: PickleIterator_def it_before_def intro!: exI [of _ "[]"])
qed

lemma Reserve_rep:
  assumes rep: "pickle_rep p hs bs" and al: "\<forall>n. alloc n" and n: "length bs + (len + 3) div 4 * 4 < 2 ^ 32"
  shows "\<exists>p'. Reserve alloc len p = Inr p' \<and> pickle_rep p' hs bs \<and>
    length bs + len \<le> capacity_after_header p'"
proof -
  let ?dl = "(len + 3) div 4 * 4"
  let ?cap = "capacity_after_header p"
  have m: "pickle_mem p (length bs) hs bs" using rep by (simp add: pickle_rep_def)
  then have c: "write_offset p = length bs" by (auto elim!: pickle_memE)
  have le: "len \<le> ?dl" "length bs \<le> 4294967295 - ?dl" using n align4_le [of len] by auto
  have dl: "Align len 4 = ?dl" using n le by (intro Align_4) simp
  have e: "Reserve alloc len p = (if length bs + ?dl > ?cap
      then Resize alloc (szadd (szmul ?cap 2) (length bs + ?dl)) p else Inr p)"
    using n le by (simp add: Reserve_def dl c szadd_id szsub_id uint32_max_def Let_def dcheck_def)
  show ?thesis
  proof (cases "length bs + ?dl > ?cap")
    case True
    then have k: "szadd (szmul ?cap 2) (length bs + ?dl) = ?cap * 2 + (length bs + ?dl)"
      using n by (simp add: szadd_id szmul_def)
    have "?cap \<le> ?cap * 2 + (length bs + ?dl)" "?cap * 2 + (length bs + ?dl) < 2 ^ 35" using True n by auto
    from Resize_mem [OF m al this] True k e le show ?thesis by (fastforce simp: pickle_rep_def)
  qed (use rep e le in auto)
qed

lemma ClaimBytes_rep:
  assumes rep: "pickle_rep p hs bs" and al: "\<forall>n. alloc n" and n: "length bs + (len + 3) div 4 * 4 < 2 ^ 32"
  shows "\<exists>p'. ClaimBytes alloc len p = Inr (hs + length bs, p') \<and>
    pickle_rep p' hs (bs @ replicate ((len + 3) div 4 * 4) 0)"
proof -
  obtain p1 where p1: "ClaimUninitializedBytesInternal alloc len p = Inr (hs + length bs, p1)" "claimed p1 hs bs len"
    using Claim_rep [OF rep [unfolded pickle_rep_def] al n] by blast
  have "pad4 (replicate len 0) = replicate ((len + 3) div 4 * 4) 0"
    using align4_le [of len] by (simp add: pad4_eq flip: replicate_add)
  moreover have "replicate len (Some 0) = map Some (replicate len (0 :: byte))" by simp
  ultimately show ?thesis
    using p1 unfolding claimed_def ClaimBytes_def by (metis (mono_tags, lifting) bind_result_simps(1) length_replicate old.prod.case)
qed

lemma copy_mem:
  assumes o: "header other = Some (size_bytes k @ h @ d @ r)" "4 + length h = hs" "length d = k"
    and k: "k < 2 ^ 32" and hs: "hs \<le> 64"
    and p: "header_size p = hs" "capacity_after_header p \<noteq> kCapacityReadOnly" and al: "\<forall>n. alloc n"
  shows "\<exists>r'. bind_result (Resize alloc k p) (copy_from other (szadd hs k)) =
    Inr (p\<lparr>header := Some (size_bytes k @ h @ d @ r'), capacity_after_header := k + length r'\<rparr>) \<and> k + length r' < 2 ^ 36"
proof -
  define c where "c = Align k 64"
  have c: "k \<le> c" "c < 2 ^ 36" "c \<noteq> kCapacityReadOnly"
    using Align_le [of k] k by (auto simp: c_def kCapacityReadOnly_def npos_def)
  have s: "szadd hs k = hs + k" "szadd hs c = hs + c" using k hs c by (simp_all add: szadd_id)
  define m where "m = realloc (header p) (hs + c)"
  have m: "length m = hs + c" by (simp add: m_def realloc_def Let_def)
  define r' where "r' = drop (hs + k) m"
  have "Resize alloc k p = Inr (p\<lparr>capacity_after_header := c, header := Some m\<rparr>)"
    using p c al s by (simp add: Resize_def Let_def kPayloadUnit_def c_def GetTotalAllocatedSize_def m_def)
  moreover have "take (hs + k) (size_bytes k @ h @ d @ r) = size_bytes k @ h @ d" using o by simp
  then have "copy_from other (hs + k) (p\<lparr>capacity_after_header := c, header := Some m\<rparr>) =
      Inr (p\<lparr>capacity_after_header := c, header := Some ([] @ (size_bytes k @ h @ d) @ r')\<rparr>)"
    using o c m
    by (simp add: copy_from_def put_at_append [where a = "[]" and b = "take (hs + k) m" and c = r'] r'_def)
  moreover have "c = k + length r'" using m c by (simp add: r'_def)
  ultimately show ?thesis using s c by (intro exI [of _ r']) simp
qed

lemma Pickle_copy_eq:
  "Pickle_copy alloc other = bind_result (header_payload_size other) (\<lambda>n.
     bind_result (Resize alloc n \<lparr>header = None, header_size = header_size other, capacity_after_header = 0,
        write_offset = write_offset other\<rparr>) (copy_from other (szadd (header_size other) n)))"
proof -
  have "header_size q = header_size p" if "Resize alloc n p = Inr q" for n p q
    using that by (auto simp: Resize_def Let_def dcheck_def split: if_splits)
  then show ?thesis by (fastforce simp: Pickle_copy_def bind_result_def split: sum.split)
qed

lemma Pickle_copy_rep:
  assumes rep: "pickle_rep p hs bs" and al: "\<forall>n. alloc n"
  shows "\<exists>p'. Pickle_copy alloc p = Inr p' \<and> pickle_rep p' hs bs"
proof -
  have m: "pickle_mem p (length bs) hs bs" using rep by (simp add: pickle_rep_def)
  then obtain h r where o: "header p = Some (size_bytes (length bs) @ h @ map Some bs @ r)" "4 + length h = hs"
    and c: "header_size p = hs" "hs \<le> 64" "4 dvd hs" "write_offset p = length bs" "4 dvd length bs" "length bs < 2 ^ 32"
    by (rule pickle_memE)
  let ?p0 = "\<lparr>header = None, header_size = hs, capacity_after_header = 0, write_offset = length bs\<rparr>"
  obtain r' where r': "bind_result (Resize alloc (length bs) ?p0) (copy_from p (szadd hs (length bs))) =
      Inr (?p0\<lparr>header := Some (size_bytes (length bs) @ h @ map Some bs @ r'), capacity_after_header := length bs + length r'\<rparr>)"
      "length bs + length r' < 2 ^ 36"
    using copy_mem [OF o _ c(6,2), of ?p0 alloc] al by (auto simp: kCapacityReadOnly_def npos_def)
  have "Pickle_copy alloc p = bind_result (Resize alloc (length bs) ?p0) (copy_from p (szadd hs (length bs)))"
    using c pickle_mem_size(1) [OF m c(6)] by (simp add: Pickle_copy_eq)
  moreover have "pickle_rep (?p0\<lparr>header := Some (size_bytes (length bs) @ h @ map Some bs @ r'),
      capacity_after_header := length bs + length r'\<rparr>) hs bs"
    unfolding pickle_rep_def by (rule pickle_memI [where h = h and r = r']) (use o c r'(2) in auto)
  ultimately show ?thesis using r' by auto
qed

lemma pickle_assign_rep:
  assumes rep: "pickle_rep other hs bs" and al: "\<forall>n. alloc n"
  shows "\<exists>p'. pickle_assign alloc False other p = Inr p' \<and> pickle_rep p' hs bs"
proof -
  have m: "pickle_mem other (length bs) hs bs" using rep by (simp add: pickle_rep_def)
  then obtain h r where o: "header other = Some (size_bytes (length bs) @ h @ map Some bs @ r)" "4 + length h = hs"
    and c: "header_size other = hs" "hs \<le> 64" "4 dvd hs" "write_offset other = length bs" "4 dvd length bs" "length bs < 2 ^ 32"
    by (rule pickle_memE)
  define p1 where "p1 = (if capacity_after_header p = kCapacityReadOnly
     then p\<lparr>header := None, capacity_after_header := 0\<rparr> else p)"
  define p2 where "p2 = (if header_size p1 \<noteq> hs then p1\<lparr>header := None, header_size := hs\<rparr> else p1)"
  have p2: "header_size p2 = hs" "capacity_after_header p2 \<noteq> kCapacityReadOnly"
    by (auto simp: p2_def p1_def kCapacityReadOnly_def npos_def)
  obtain r' where r': "bind_result (Resize alloc (length bs) p2) (copy_from other (szadd hs (length bs))) =
      Inr (p2\<lparr>header := Some (size_bytes (length bs) @ h @ map Some bs @ r'), capacity_after_header := length bs + length r'\<rparr>)"
      "length bs + length r' < 2 ^ 36"
    using copy_mem [OF o _ c(6,2) p2 al] by auto
  have "pickle_assign alloc False other p = bind_result (bind_result (Resize alloc (length bs) p2)
      (copy_from other (szadd hs (length bs)))) (\<lambda>p. Inr (p\<lparr>write_offset := length bs\<rparr>))"
    using c pickle_mem_size(1) [OF m c(6)]
    by (simp add: pickle_assign_def Let_def p2_def p1_def bind_result_def split: sum.split)
  moreover have "pickle_rep (p2\<lparr>header := Some (size_bytes (length bs) @ h @ map Some bs @ r'),
      capacity_after_header := length bs + length r', write_offset := length bs\<rparr>) hs bs"
    unfolding pickle_rep_def by (rule pickle_memI [where h = h and r = r']) (use o c p2 r'(2) in auto)
  ultimately show ?thesis using r' by simp
qed

section \<open>Properties\<close>

text \<open>
  C29. The operations on a pickle are operations on its payload: writing a value appends its bytes,
  padded to a multiple of four; reserving space changes nothing and provides it; claiming appends zeros;
  a copy, and any other pickle after an assignment, has the same payload. None of them leaves the
  buffer or fails a check as long as the payload stays below four gigabytes and memory is granted, and
  all keep the invariant \<open>pickle_rep\<close>.
\<close>

theorem pickle_operations:
  assumes "\<forall>n. alloc n" "pickle_rep p hs bs" "value_ok v" "length bs + length (enc v) < 2 ^ 32"
    and "length bs + (n + 3) div 4 * 4 < 2 ^ 32"
  shows "(\<exists>p'. write_value alloc v p = Inr (True, p') \<and> pickle_rep p' hs (bs @ enc v)) \<and>
    (\<exists>p'. Reserve alloc n p = Inr p' \<and> pickle_rep p' hs bs \<and> length bs + n \<le> capacity_after_header p') \<and>
    (\<exists>p'. ClaimBytes alloc n p = Inr (hs + length bs, p') \<and> pickle_rep p' hs (bs @ replicate ((n + 3) div 4 * 4) 0)) \<and>
    (\<exists>p'. Pickle_copy alloc p = Inr p' \<and> pickle_rep p' hs bs) \<and>
    (\<exists>p'. pickle_assign alloc False p q = Inr p' \<and> pickle_rep p' hs bs)"
  using write_value_appends [of p hs bs alloc v] Reserve_rep [of p hs bs alloc n] ClaimBytes_rep [of p hs bs alloc n]
    Pickle_copy_rep [of p hs bs alloc] pickle_assign_rep [of p hs bs alloc q] assms
  by simp

theorem pickle_operations_witness:
  "\<exists>p p'. Pickle (\<lambda>_. True) = Inr p \<and> pickle_rep p 4 [] \<and>
     write_value (\<lambda>_. True) (VInt (- 7)) p = Inr (True, p') \<and> pickle_rep p' 4 (enc (VInt (- 7)))"
proof -
  obtain p where "Pickle (\<lambda>_. True) = Inr p" "pickle_rep p 4 []" using Pickle_rep [of "\<lambda>_. True"] by auto
  with pickle_operations [of "\<lambda>_. True" p 4 "[]" "VInt (- 7)" 0] show ?thesis by (simp add: is_i32_def)
qed

text \<open>
  C30. What is written is read back. Values of every type, written one after the other to a new pickle,
  are read by an iterator over it in the same order; and when the bytes of the pickle are handed to
  another process, which builds a read-only pickle around them, its iterator reads the same values.
\<close>

theorem pickle_roundtrip:
  assumes "\<forall>n. alloc n" "list_all value_ok vs" "length (concat (map enc vs)) + 4 < 2 ^ 31"
  shows "\<exists>p0 p it it' data q rit rit'.
    Pickle alloc = Inr p0 \<and> write_all (write_value alloc) vs p0 = Inr (True, p) \<and>
    PickleIterator p = Inr it \<and> read_all read_value (map type_of vs) it = Inr (Some vs, it') \<and>
    sent p = Inr data \<and> Pickle_data data (int (length data)) = Inr q \<and>
    PickleIterator q = Inr rit \<and> read_all read_value (map type_of vs) rit = Inr (Some vs, rit')"
proof -
  let ?bs = "concat (map enc vs)"
  obtain p0 where p0: "Pickle alloc = Inr p0" "pickle_rep p0 4 []" using Pickle_rep assms(1) by blast
  obtain p where p: "write_all (write_value alloc) vs p0 = Inr (True, p)" "pickle_rep p 4 ?bs"
    using pk.write_all_appends [where alloc = alloc and hs = 4 and w = p0 and bs = "[]" and vs = vs] p0 assms by auto
  obtain it it' where it: "PickleIterator p = Inr it" "read_all read_value (map type_of vs) it = Inr (Some vs, it')"
    using iterator_rep [OF p(2)] pk.read_all_consumes [where vs = vs and rest = "[]"] assms(2) by fastforce
  obtain q where q: "Pickle_data (framed ?bs) (int (length (framed ?bs))) = Inr q"
    using Pickle_data_framed [OF assms(3)] by blast
  obtain rit rit' where "PickleIterator q = Inr rit" "read_all read_value (map type_of vs) rit = Inr (Some vs, rit')"
    using iterator_framed [OF assms(3) q] pk.read_all_consumes [where vs = vs and rest = "[]"] assms(2) by fastforce
  with p0 p it q sent_rep [OF p(2)] show ?thesis by blast
qed

theorem pickle_roundtrip_witness:
  "\<exists>p it'. PickleIterator p = Inr it' \<and> (\<exists>it''. read_all read_value [TBool, TString, TInt] it' =
     Inr (Some [VBool True, VString [65, 66], VInt (- 1)], it''))"
  using pickle_roundtrip [of "\<lambda>_. True" "[VBool True, VString [65, 66], VInt (- 1)]"]
  by (auto simp: is_i32_def enc_sized_def length_pad4)

end
