(* ===== verification/Pickle_Reader.thy ===== *)
theory Pickle_Reader
  imports Pickle_Codec
begin

unbundle bit_operations_syntax

text \<open>
  base/pickle.cc on bytes that come from elsewhere: the read-only constructor and every reader stay
  inside the buffer, whatever it holds, and the end of a message is found in a stream. It also has the
  two places where the code differs from its description in base/pickle.h: what is left readable after a
  failed read, and what happens to the payload when one writes to the copy of a read-only pickle.
\<close>

section \<open>Iterators over arbitrary bytes\<close>

definition it_ok :: "pickle_iterator \<Rightarrow> bool" where
  "it_ok it \<longleftrightarrow> (case it_payload it of None \<Rightarrow> end_index it = 0 \<and> read_index it = 0
     | Some m \<Rightarrow> read_index it \<le> end_index it \<and> end_index it \<le> length m \<and> end_index it < 2 ^ 32 \<and>
         None \<notin> set (take (end_index it) m))"

text \<open>
  A read is good if it stops at a byte that is no \<^verbatim>\<open>bool\<close> at worst, keeps the invariant and moves forward
  in the same memory; when \<open>strict\<close>, a read that fails leaves nothing to read.
\<close>

definition good_read :: "bool \<Rightarrow> pickle_iterator \<Rightarrow> ('a option \<times> pickle_iterator) result \<Rightarrow> bool" where
  "good_read strict it r \<longleftrightarrow> (case r of Inl e \<Rightarrow> e = Invalid_Bool
     | Inr (x, it') \<Rightarrow> it_ok it' \<and> it_payload it' = it_payload it \<and> end_index it' = end_index it \<and>
         read_index it \<le> read_index it' \<and> (strict \<and> x = None \<longrightarrow> read_index it' = end_index it'))"

definition good_ptr :: "pickle_iterator \<Rightarrow> nat \<Rightarrow> nat option \<times> pickle_iterator \<Rightarrow> bool" where
  "good_ptr it n r \<longleftrightarrow> good_read True it (Inr r) \<and>
     (\<forall>i. fst r = Some i \<longrightarrow> (\<exists>bs. load_from (snd r) i n = Inr bs))"

lemma it_ok_le: "it_ok it \<Longrightarrow> read_index it \<le> end_index it \<and> end_index it < 2 ^ 32"
  by (auto simp: it_ok_def split: option.splits)

lemma it_ok_move:
  "it_ok it \<Longrightarrow> read_index it \<le> j \<Longrightarrow> j \<le> end_index it \<Longrightarrow> good_read False it (Inr (x, it\<lparr>read_index := j\<rparr>))"
  by (auto simp: good_read_def it_ok_def split: option.splits)

lemma it_ok_end: "it_ok it \<Longrightarrow> good_read s it (Inr (x, it\<lparr>read_index := end_index it\<rparr>))"
  using it_ok_move [of it "end_index it" x] it_ok_le [of it] by (auto simp: good_read_def)

lemma mem_get_inside:
  assumes "i + n \<le> e" "e \<le> length m" "None \<notin> set (take e m)"
  shows "\<exists>bs. mem_get m i n = Inr bs"
proof -
  have "take n (drop i m) = drop i (take (i + n) (take e m))" using assms(1) by (simp add: take_drop min_def add.commute)
  then have "None \<notin> set (take n (drop i m))" using assms(3) by (metis in_set_dropD in_set_takeD)
  then show ?thesis using assms by (simp add: mem_get_def)
qed

lemma take_ptr:
  assumes ok: "it_ok it" and n: "n \<le> end_index it - read_index it" and z: "it_payload it = None \<longrightarrow> n = 0"
  shows "good_ptr it n (current_read_ptr it, Advance n it)"
proof -
  note le = it_ok_le [OF ok]
  have s: "szsub (end_index it) (read_index it) = end_index it - read_index it" using le by (simp add: szsub_id)
  have al: "Align n 4 = (n + 3) div 4 * 4" using n le by (intro Align_4) auto
  obtain j where j: "Advance n it = it\<lparr>read_index := j\<rparr>" "read_index it \<le> j" "j \<le> end_index it"
  proof (cases "end_index it - read_index it < (n + 3) div 4 * 4")
    case True
    then have "Advance n it = it\<lparr>read_index := end_index it\<rparr>" by (simp add: Advance_def s al)
    with le that show ?thesis by simp
  next
    case False
    then have "read_index it + (n + 3) div 4 * 4 \<le> end_index it" using le by linarith
    moreover from this have "Advance n it = it\<lparr>read_index := read_index it + (n + 3) div 4 * 4\<rparr>"
      using False le by (simp add: Advance_def s al szadd_id)
    ultimately show ?thesis by (intro that) auto
  qed
  have g: "good_read False it (Inr (x, Advance n it))" for x :: "nat option"
    unfolding j(1) using ok j(2,3) by (rule it_ok_move)
  show ?thesis
  proof (cases "it_payload it")
    case None
    with ok g [of None] show ?thesis by (auto simp: good_ptr_def good_read_def current_read_ptr_def it_ok_def)
  next
    case (Some m)
    have "\<exists>bs. mem_get m (read_index it) n = Inr bs"
      using ok Some n le by (intro mem_get_inside [of _ _ "end_index it"]) (auto simp: it_ok_def)
    with g [of "Some (read_index it)"] Some show ?thesis
      by (auto simp: good_ptr_def good_read_def current_read_ptr_def load_from_def j(1))
  qed
qed

lemma fail_ptr: "it_ok it \<Longrightarrow> good_ptr it n (None, it\<lparr>read_index := end_index it\<rparr>)"
  using it_ok_end [of it True None] by (simp add: good_ptr_def)

lemma get_type_ptr:
  assumes "it_ok it" "0 < n"
  shows "good_ptr it n (GetReadPointerAndAdvance_type n it)"
proof (cases "n > szsub (end_index it) (read_index it)")
  case False
  have "szsub (end_index it) (read_index it) = end_index it - read_index it"
    using it_ok_le [OF assms(1)] by (simp add: szsub_id)
  with False assms have "n \<le> end_index it - read_index it" "it_payload it = None \<longrightarrow> n = 0"
    by (auto simp: it_ok_def split: option.splits)
  with take_ptr assms(1) False show ?thesis by (simp add: GetReadPointerAndAdvance_type_def)
qed (simp add: GetReadPointerAndAdvance_type_def fail_ptr assms)

lemma get_bytes_ptr:
  assumes "it_ok it"
  shows "good_ptr it (size_of_int n) (GetReadPointerAndAdvance n it)"
proof (cases "n < 0 \<or> szsub (end_index it) (read_index it) < size_of_int n")
  case False
  have "szsub (end_index it) (read_index it) = end_index it - read_index it"
    using it_ok_le [OF assms] by (simp add: szsub_id)
  with False assms have "size_of_int n \<le> end_index it - read_index it" "it_payload it = None \<longrightarrow> size_of_int n = 0"
    by (auto simp: it_ok_def split: option.splits)
  with take_ptr assms False show ?thesis by (simp add: GetReadPointerAndAdvance_def)
qed (simp add: GetReadPointerAndAdvance_def fail_ptr assms)

section \<open>Every reader is good\<close>

lemma good_read_map [simp]: "good_read s it (read_map f r) = good_read s it r"
  by (auto simp: good_read_def read_map_def bind_result_def split: sum.split)

lemma good_read_weaken: "good_read s it r \<Longrightarrow> good_read False it r"
  by (auto simp: good_read_def split: sum.splits)

lemma good_load:
  assumes ptr: "good_ptr it n (ptr, it')" and f: "\<And>bs e. f bs = Inl e \<Longrightarrow> e = Invalid_Bool"
  shows "good_read True it (case ptr of None \<Rightarrow> Inr (None, it')
    | Some i \<Rightarrow> bind_result (load_from it' i n) (\<lambda>bs. bind_result (f bs) (\<lambda>v. Inr (Some v, it'))))"
proof (cases ptr)
  case None
  with ptr show ?thesis by (auto simp: good_ptr_def good_read_def)
next
  case (Some i)
  with ptr obtain bs where "load_from it' i n = Inr bs" by (auto simp: good_ptr_def)
  with Some ptr f show ?thesis
    by (cases "f bs") (auto simp: good_ptr_def good_read_def)
qed

lemma ReadBuiltinType_good:
  assumes "it_ok it" "0 < n" "\<And>bs e. f bs = Inl e \<Longrightarrow> e = Invalid_Bool"
  shows "good_read True it (ReadBuiltinType n f it)"
proof -
  obtain ptr it' where g: "GetReadPointerAndAdvance_type n it = (ptr, it')" by fastforce
  have "good_read True it (case ptr of None \<Rightarrow> Inr (None, it')
    | Some i \<Rightarrow> bind_result (load_from it' i n) (\<lambda>bs. bind_result (f bs) (\<lambda>v. Inr (Some v, it'))))"
    by (rule good_load) (use get_type_ptr [OF assms(1,2)] assms(3) g in auto)
  then show ?thesis by (cases ptr) (simp_all add: ReadBuiltinType_def g)
qed

lemma ReadFloat_eq: "ReadFloat = ReadBuiltinType 4 (\<lambda>bs. Inr (le_word bs))"
  and ReadDouble_eq: "ReadDouble = ReadBuiltinType 8 (\<lambda>bs. Inr (le_word bs))"
  by (auto simp: ReadFloat_def ReadDouble_def ReadBuiltinType_def split: prod.splits option.splits intro!: ext)

text \<open>Two reads in a row: what the second one may do is what it may do from where the first one stopped.\<close>

lemma good_read_trans:
  assumes "good_read True it (Inr (x, it1))" "good_read s it1 r"
  shows "good_read s it r"
  using assms by (auto simp: good_read_def split: sum.splits)

lemma ReadInt_good: "it_ok it \<Longrightarrow> good_read True it (ReadInt it)"
  unfolding ReadInt_def by (rule ReadBuiltinType_good) auto

lemma ReadInt_i32: "ReadInt it = Inr (Some len, it') \<Longrightarrow> is_i32 len"
  using sint_ge [of "_ :: 32 word"] sint_lt [of "_ :: 32 word"]
  by (auto simp: ReadInt_def ReadBuiltinType_def bind_result_def is_i32_def split: prod.splits option.splits sum.splits)

lemma sized_good:
  assumes ok: "it_ok it"
    and get: "\<And>len it1. it_ok it1 \<Longrightarrow> is_i32 len \<Longrightarrow> good_ptr it1 (cnt len) (get len it1) \<or>
      \<not> s \<and> get len it1 = (None, it1)"
  shows "good_read s it (bind_result (read_sized get it) (\<lambda>(r, it). case r of None \<Rightarrow> Inr (None, it)
     | Some (i, len) \<Rightarrow> bind_result (load_from it i (cnt len)) (\<lambda>bs. Inr (Some (f bs), it))))"
proof -
  note g = ReadInt_good [OF ok]
  show ?thesis
  proof (cases "ReadInt it")
    case (Inl e)
    with g show ?thesis by (simp add: read_sized_def good_read_def)
  next
    case (Inr a)
    obtain x it1 where a: "a = (x, it1)" by fastforce
    show ?thesis
    proof (cases x)
      case None
      with g Inr a show ?thesis by (auto simp: read_sized_def good_read_def)
    next
      case (Some len)
      have ok1: "it_ok it1" "is_i32 len" using g Inr a Some ReadInt_i32 by (auto simp: good_read_def)
      obtain ptr it2 where p: "get len it1 = (ptr, it2)" by fastforce
      have "good_read s it1 (case ptr of None \<Rightarrow> Inr (None, it2)
        | Some i \<Rightarrow> bind_result (load_from it2 i (cnt len)) (\<lambda>bs. bind_result (Inr (f bs)) (\<lambda>v. Inr (Some v, it2))))"
        using get [OF ok1] unfolding p
      proof
        assume "good_ptr it1 (cnt len) (ptr, it2)"
        from good_load [OF this, of "\<lambda>bs. Inr (f bs)"] show ?thesis by (cases s) (auto dest: good_read_weaken)
      next
        assume "\<not> s \<and> (ptr, it2) = (None, it1)"
        with ok1 show ?thesis by (auto simp: good_read_def)
      qed
      from good_read_trans [OF _ this] g Inr a have "good_read s it (case ptr of None \<Rightarrow> Inr (None, it2)
        | Some i \<Rightarrow> bind_result (load_from it2 i (cnt len)) (\<lambda>bs. bind_result (Inr (f bs)) (\<lambda>v. Inr (Some v, it2))))"
        by metis
      then show ?thesis using Inr a Some p by (cases ptr) (simp_all add: read_sized_def)
    qed
  qed
qed

lemma wrap64_double: "is_i32 len \<Longrightarrow> wrap64 (int (szmul (size_of_int len) 2)) = len * 2"
proof -
  assume len: "is_i32 len"
  have "int (szmul (size_of_int len) 2) = (len * 2) mod 2 ^ 64"
    by (simp add: szmul_def size_of_int_def zmod_int mod_mult_left_eq)
  also have "\<dots> = take_bit 64 (len * 2)" by (simp add: take_bit_eq_mod)
  finally have "wrap64 (int (szmul (size_of_int len) 2)) = signed_take_bit 63 (len * 2)"
    by (simp add: wrap64_def signed_take_bit_take_bit)
  also have "\<dots> = len * 2" using len by (intro signed_take_bit_int_eq_self) (auto simp: is_i32_def)
  finally show ?thesis .
qed

lemma elements_ptr:
  assumes "it_ok it" "is_i32 len"
  shows "good_ptr it (2 * size_of_int len) (GetReadPointerAndAdvance_elements len 2 it) \<or>
    \<not> False \<and> GetReadPointerAndAdvance_elements len 2 it = (None, it)"
proof (cases "len * 2 = wrap32 (len * 2)")
  case True
  then have e: "GetReadPointerAndAdvance_elements len 2 it = GetReadPointerAndAdvance (len * 2) it"
    using wrap64_double [OF assms(2)] by (simp add: GetReadPointerAndAdvance_elements_def)
  show ?thesis
  proof (cases "len < 0")
    case True
    with assms(1) show ?thesis by (simp add: e GetReadPointerAndAdvance_def fail_ptr)
  next
    case False
    with assms(2) have "size_of_int (len * 2) = 2 * size_of_int len"
      by (auto simp: size_of_int_def is_i32_def)
    with get_bytes_ptr [OF assms(1), of "len * 2"] show ?thesis by (simp add: e)
  qed
next
  case False
  with wrap64_double [OF assms(2)] show ?thesis by (simp add: GetReadPointerAndAdvance_elements_def)
qed

lemma ReadString_good:
  assumes "it_ok it"
  shows "good_read True it (ReadString it)"
  using sized_good [OF assms, of size_of_int GetReadPointerAndAdvance True "\<lambda>bs. bs"] get_bytes_ptr
  by (simp add: ReadString_def)

lemma ReadString16_good:
  assumes "it_ok it"
  shows "good_read False it (ReadString16 it)"
  using sized_good [OF assms, of "\<lambda>len. 2 * size_of_int len" "\<lambda>len. GetReadPointerAndAdvance_elements len 2" False char16s_of]
    elements_ptr
  by (simp add: ReadString16_def)

lemma read_value_good:
  assumes "it_ok it"
  shows "good_read (t \<noteq> TString16) it (read_value t it)"
proof (cases t)
  case TBool
  then show ?thesis using assms
    by (auto simp: ReadBool_def bool_of_bytes_def Let_def split: if_splits intro!: ReadBuiltinType_good)
next
  case (TBytes n)
  obtain ptr it' where g: "GetReadPointerAndAdvance n it = (ptr, it')" by fastforce
  with get_bytes_ptr [OF assms, of n] good_load [of it "size_of_int n" ptr it' Inr] TBytes show ?thesis
    by (cases ptr) (simp_all add: ReadBytes_def follow_def)
next
  case TSizeT
  have "good_read True it (ReadUInt64 it)" using assms by (auto simp: ReadUInt64_def intro!: ReadBuiltinType_good)
  moreover have "unat w < 2 ^ 64" for w :: "64 word" using unsigned_less [of w] by simp
  ultimately have "good_read True it (ReadSizeT it)"
    by (auto simp: ReadSizeT_def good_read_def bind_result_def Let_def split: sum.splits option.splits)
  then show ?thesis by (simp add: TSizeT)
qed (use assms in \<open>auto simp: ReadString_good ReadString16_good ReadData_eq ReadInt_good ReadLong_def ReadUInt16_def
  ReadUInt32_def ReadInt64_def ReadUInt64_def ReadFloat_eq ReadDouble_eq intro!: ReadBuiltinType_good\<close>)


section \<open>The read-only constructor\<close>

lemma load_inside:
  assumes "4 \<le> length data"
  shows "load_payload_size (map Some data) = Inr (unat (le_word (take 4 data) :: 32 word))"
proof -
  have "mem_get (map Some data) 0 4 = Inr (take 4 data)"
    using mem_get_mid [of "[]" 0 "take 4 data" 4 "map Some (drop 4 data)"] assms by (simp flip: map_append)
  then show ?thesis by (simp add: load_payload_size_def)
qed



section \<open>Properties\<close>



lemma ReadString16_overflow:
  assumes "it_before it (enc (VInt n) @ rest)" "is_i32 n" "\<not> is_i32 (n * 2)"
  shows "\<exists>it'. ReadString16 it = Inr (None, it') \<and> it_before it' rest"
proof -
  obtain it' where i: "ReadInt it = Inr (Some n, it')" "it_before it' rest"
    using read_value_consumes [OF assms(1)] assms(2) by (auto simp: read_map_def bind_result_Inr_iff)
  have "wrap32 (n * 2) \<noteq> n * 2" using assms(3) wrap32_is_i32 by metis
  then have "GetReadPointerAndAdvance_elements n 2 it' = (None, it')"
    using wrap64_double [OF assms(2)] by (simp add: GetReadPointerAndAdvance_elements_def)
  with i show ?thesis by (simp add: ReadString16_def read_sized_def)
qed

text \<open>
  C32. What a failed read leaves. A read that returns \<^verbatim>\<open>false\<close> moves the iterator to the end of the
  payload, as the class describes, for every type but 16-bit strings: there the test for overflow of
  twice the length returns without moving, and the bytes after the bad length are still read.
  \<open>SkipBytes\<close>, which is said to do nothing when too few bytes are left, moves to the end as well.
\<close>

theorem failed_reads:
  assumes "it_ok it"
  shows "(\<forall>t it'. t \<noteq> TString16 \<and> read_value t it = Inr (None, it') \<longrightarrow> read_index it' = end_index it') \<and>
    (\<forall>n. \<not> fst (SkipBytes n it) \<longrightarrow> read_index (snd (SkipBytes n it)) = end_index it) \<and>
    (\<forall>n rest. it_before it (enc (VInt n) @ rest) \<and> is_i32 n \<and> \<not> is_i32 (n * 2) \<longrightarrow>
      (\<exists>it'. read_value TString16 it = Inr (None, it') \<and> it_before it' rest))"
proof (intro conjI allI impI)
  fix t it' assume "t \<noteq> TString16 \<and> read_value t it = Inr (None, it')"
  with read_value_good [OF assms, of t] show "read_index it' = end_index it'" by (simp add: good_read_def)
next
  fix n assume "\<not> fst (SkipBytes n it)"
  with get_bytes_ptr [OF assms, of n] show "read_index (snd (SkipBytes n it)) = end_index it"
    by (cases "GetReadPointerAndAdvance n it") (auto simp: SkipBytes_def good_ptr_def good_read_def)
next
  fix n rest assume "it_before it (enc (VInt n) @ rest) \<and> is_i32 n \<and> \<not> is_i32 (n * 2)"
  then show "\<exists>it'. read_value TString16 it = Inr (None, it') \<and> it_before it' rest"
    using ReadString16_overflow by (fastforce simp: read_map_def)
qed

theorem failed_reads_witness:
  "\<exists>it'. read_value TString16 \<lparr>it_payload = Some (map Some (enc (VInt 1073741824) @ enc (VInt 7))),
       read_index = 0, end_index = 8\<rparr> = Inr (None, it') \<and> it_before it' (enc (VInt 7))"
proof -
  let ?it = "\<lparr>it_payload = Some (map Some (enc (VInt 1073741824) @ enc (VInt 7))), read_index = 0, end_index = 8\<rparr>"
  have ok: "it_ok ?it" by (auto simp: it_ok_def)
  have "it_before ?it (enc (VInt 1073741824) @ enc (VInt 7))"
    unfolding it_before_def by (rule exI [of _ "[]"]) simp
  moreover have "is_i32 1073741824" "\<not> is_i32 (1073741824 * 2)" by (simp_all add: is_i32_def)
  ultimately show ?thesis using failed_reads [OF ok] by blast
qed

text \<open>
  The end of a message in a stream. With a header size that the checks admit, \<open>FindNext\<close> never
  faults; it finds an end exactly if the range holds a whole header and the payload that the header
  states, and for a pickle followed by anything it finds the end of the pickle.
\<close>

theorem FindNext_correct:
  assumes "4 dvd hs" "4 \<le> hs" "hs \<le> 64" "length rng < 2 ^ 63"
  shows "FindNext hs rng = Inr (if hs \<le> length rng \<and> hs + unat (le_word (take 4 rng) :: 32 word) \<le> length rng
      then Some (hs + unat (le_word (take 4 rng) :: 32 word)) else None) \<and>
    (\<forall>p bs rest. pickle_rep p 4 bs \<and> hs = 4 \<and> rng = framed bs @ rest \<longrightarrow>
      sent p = Inr (framed bs) \<and> FindNext hs rng = Inr (Some (length (framed bs))))"
proof -
  let ?n = "unat (le_word (take 4 rng) :: 32 word)"
  have a: "Align hs 4 = hs" using assms by (auto simp: Align_4 elim!: dvdE)
  have n: "?n < 2 ^ 32" by (rule unat_less_32)
  have "szsub npos hs = npos - hs" using assms by (intro szsub_id) (auto simp: npos_def)
  then have "\<not> ?n > szsub npos hs" "szadd hs ?n = hs + ?n"
    using n assms by (auto simp: npos_def szadd_id)
  then have 1: "FindNext hs rng = Inr (if hs \<le> length rng \<and> hs + ?n \<le> length rng then Some (hs + ?n) else None)"
    using assms a by (auto simp: FindNext_def PeekNext_def sizeof_Header_def kPayloadUnit_def Let_def load_inside)
  moreover have "FindNext hs rng = Inr (Some (length (framed bs)))" "sent p = Inr (framed bs)"
    if p: "pickle_rep p 4 bs" and hs: "hs = 4" and r: "rng = framed bs @ rest" for p bs rest
  proof -
    have "length bs < 2 ^ 32" using p by (auto simp: pickle_rep_def elim!: pickle_memE)
    then have "?n = length bs"
      by (simp add: r framed_def unsigned_of_nat take_bit_nat_eq_self)
    with 1 hs r show "FindNext hs rng = Inr (Some (length (framed bs)))" by (simp add: framed_def)
    show "sent p = Inr (framed bs)" using p by (rule sent_rep)
  qed
  ultimately show ?thesis by blast
qed

theorem FindNext_correct_witness:
  "FindNext 8 [4, 0, 0, 0, 1, 2, 3, 4, 5, 6, 7, 8, 9] = Inr (Some 12)"
  using FindNext_correct [of 8 "[4, 0, 0, 0, 1, 2, 3, 4, 5, 6, 7, 8, 9]"] by simp

lemma copy_readonly_mem:
  assumes "length bs + 4 < 2 ^ 31" "\<forall>n. alloc n" "Pickle_data (framed bs) (int (length (framed bs))) = Inr q"
  shows "\<exists>p. Pickle_copy alloc q = Inr p \<and> pickle_mem p (length bs) 4 [] \<and>
    (\<exists>it. PickleIterator p = Inr it \<and> it_before it bs)"
proof -
  have q: "header q = Some (size_bytes (length bs) @ [] @ map Some bs @ [])" "header_size q = 4" "write_offset q = 0"
    using assms(3) unfolding Pickle_data_framed [OF assms(1)] by (auto simp: framed_def)
  let ?fresh = "\<lparr>header = None, header_size = 4, capacity_after_header = 0, write_offset = 0\<rparr>"
  obtain r where r: "bind_result (Resize alloc (length bs) ?fresh) (copy_from q (szadd 4 (length bs))) =
      Inr (?fresh\<lparr>header := Some (size_bytes (length bs) @ [] @ map Some bs @ r), capacity_after_header := length bs + length r\<rparr>)"
      "length bs + length r < 2 ^ 36"
    using copy_mem [OF q(1), of 4 ?fresh alloc] assms by (auto simp: kCapacityReadOnly_def npos_def)
  let ?p = "?fresh\<lparr>header := Some (size_bytes (length bs) @ [] @ map Some bs @ r), capacity_after_header := length bs + length r\<rparr>"
  have s: "header_payload_size q = Inr (length bs)" "payload_size ?p = Inr (length bs)"
    using q assms(1) by (simp_all add: header_payload_size_def payload_size_def load_size_bytes)
  have "Pickle_copy alloc q = Inr ?p"
    using r(1) q s by (auto simp: Pickle_copy_eq bind_result_def split: sum.splits)
  moreover have "pickle_mem ?p (length bs) 4 []"
    by (rule pickle_memI [where h = "[]" and r = "map Some bs @ r"]) (use r(2) in auto)
  moreover have "\<exists>it. PickleIterator ?p = Inr it \<and> it_before it bs"
    using s assms(1) by (auto simp: PickleIterator_def payload_def it_before_def intro!: exI [of _ "[]"])
  ultimately show ?thesis by blast
qed

text \<open>
  C33. A read-only pickle counts nothing as written, and its copy inherits that: the copy is read like
  the original, but the first value written to it is not appended to the payload, as base/pickle.h says
  of the writers; it replaces the payload.
\<close>

theorem copy_of_readonly_overwrites:
  assumes "length bs + 4 < 2 ^ 31" "\<forall>n. alloc n" "is_i32 i"
  shows "\<exists>q p p'. Pickle_data (framed bs) (int (length (framed bs))) = Inr q \<and> Pickle_copy alloc q = Inr p \<and>
    (\<exists>it. PickleIterator p = Inr it \<and> it_before it bs) \<and>
    WriteInt alloc i p = Inr (True, p') \<and> pickle_rep p' 4 (enc (VInt i)) \<and> sent p' = Inr (framed (enc (VInt i)))"
proof -
  obtain q where q: "Pickle_data (framed bs) (int (length (framed bs))) = Inr q"
    using Pickle_data_framed [OF assms(1)] by blast
  obtain p where p: "Pickle_copy alloc q = Inr p" "pickle_mem p (length bs) 4 []"
      "\<exists>it. PickleIterator p = Inr it \<and> it_before it bs"
    using copy_readonly_mem [OF assms(1,2) q] by blast
  obtain p' where "WriteInt alloc i p = Inr (True, p')" "pickle_rep p' 4 (enc (VInt i))"
    using WritePOD_mem [OF p(2) assms(2), of "enc (VInt i)"] by (auto simp: WriteInt_def pad4_id)
  with q p sent_rep show ?thesis by blast
qed

theorem copy_of_readonly_overwrites_witness:
  "\<exists>p'. sent p' = Inr (framed (enc (VInt 3)))"
  using copy_of_readonly_overwrites [of "enc (VInt 1) @ enc (VInt 2)" "\<lambda>_. True" 3] by (auto simp: is_i32_def)

end
