(* ===== verification/File_Path.thy ===== *)
theory File_Path
  imports Command_Line Pickle_Codec
begin

text \<open>
  base/files/file_path.cc in its POSIX build, with the constants of base/files/file_path_constants.cc. A
  \<^verbatim>\<open>FilePath\<close> is its string; the constructor that cuts a string at the first zero byte is
  \<open>FilePath\<close> of theory \<open>Command_Line\<close>. There are no drive letters in this build: \<open>FindDriveLetter\<close> is always
  \<^verbatim>\<open>npos\<close>, and the code adds to it modulo two to the 64. A failed \<^verbatim>\<open>DCHECK\<close> is \<^const>\<open>Check_Failed\<close>.
\<close>

section \<open>Constants and searches\<close>

definition kSeparators :: string where "kSeparators = ''/''"

text \<open>The size of the array, which has a terminating zero.\<close>

definition kSeparatorsLength :: nat where "kSeparatorsLength = 2"

definition kCurrentDirectory :: string where "kCurrentDirectory = ''.''"

definition kParentDirectory :: string where "kParentDirectory = ''..''"

definition kExtensionSeparator :: char where "kExtensionSeparator = CHR ''.''"

definition kCommonDoubleExtensionSuffixes :: "string list" where
  "kCommonDoubleExtensionSuffixes = [''gz'', ''z'', ''bz2'', ''bz'']"

definition kCommonDoubleExtensions :: "string list" where
  "kCommonDoubleExtensions = [''user.js'']"

text \<open>Searches of \<^verbatim>\<open>std::string\<close>; a position past the end, \<^verbatim>\<open>npos\<close> included, means the last character.\<close>

definition std_string_find_last_of :: "string \<Rightarrow> string \<Rightarrow> nat \<Rightarrow> nat option" where
  "std_string_find_last_of self s pos =
     (if self = [] then None else scan_backward (\<lambda>i. self ! i \<in> set s) (min pos (length self - 1)))"

definition std_string_rfind_char :: "string \<Rightarrow> char \<Rightarrow> nat \<Rightarrow> nat option" where
  "std_string_rfind_char self c pos =
     (if self = [] then None else scan_backward (\<lambda>i. self ! i = c) (min pos (length self - 1)))"

definition std_string_find_first_not_of :: "string \<Rightarrow> string \<Rightarrow> nat option" where
  "std_string_find_first_not_of self s = scan_forward (\<lambda>i. self ! i \<notin> set s) (length self) 0"

section \<open>Helpers\<close>

definition FindDriveLetter :: "string \<Rightarrow> nat" where
  "FindDriveLetter path = npos"

definition IsSeparator :: "char \<Rightarrow> bool" where
  "IsSeparator c =
     (scan_forward (\<lambda>i. c = kSeparators ! i) (kSeparatorsLength - 1) 0 \<noteq> None)"

definition IsPathAbsolute :: "string \<Rightarrow> bool" where
  "IsPathAbsolute path \<longleftrightarrow> length path > 0 \<and> IsSeparator (path ! 0)"

definition AreAllSeparators :: "string \<Rightarrow> bool" where
  "AreAllSeparators inp = (scan_forward (\<lambda>i. \<not> IsSeparator (inp ! i)) (length inp) 0 = None)"

definition FinalExtensionSeparatorPosition :: "string \<Rightarrow> nat option" where
  "FinalExtensionSeparatorPosition path =
     (if path = kCurrentDirectory \<or> path = kParentDirectory then None
      else std_string_rfind_char path kExtensionSeparator npos)"

text \<open>The two loops over the common double extensions.\<close>

definition is_double_extension :: "string \<Rightarrow> nat \<Rightarrow> nat \<Rightarrow> bool" where
  "is_double_extension path last_dot penultimate_dot \<longleftrightarrow>
     (\<exists>e \<in> set kCommonDoubleExtensions.
        DoLowerCaseEqualsASCII val8 mk8 (drop (penultimate_dot + 1) path) e) \<or>
     (\<exists>e \<in> set kCommonDoubleExtensionSuffixes.
        DoLowerCaseEqualsASCII val8 mk8 (drop (last_dot + 1) path) e \<and>
        last_dot - penultimate_dot \<le> 5 \<and> last_dot - penultimate_dot > 1)"

definition ExtensionSeparatorPosition :: "string \<Rightarrow> nat option" where
  "ExtensionSeparatorPosition path =
     (case FinalExtensionSeparatorPosition path of
        None \<Rightarrow> None
      | Some last_dot \<Rightarrow>
          if last_dot = 0 then Some last_dot
          else case std_string_rfind_char path kExtensionSeparator (last_dot - 1) of
            None \<Rightarrow> Some last_dot
          | Some penultimate_dot \<Rightarrow>
              if (case std_string_find_last_of path (take (kSeparatorsLength - 1) kSeparators) (last_dot - 1) of
                    None \<Rightarrow> False | Some last_separator \<Rightarrow> penultimate_dot < last_separator)
              then Some last_dot
              else if is_double_extension path last_dot penultimate_dot then Some penultimate_dot
              else Some last_dot)"

definition IsEmptyOrSpecialCase :: "string \<Rightarrow> bool" where
  "IsEmptyOrSpecialCase path \<longleftrightarrow> path = [] \<or> path = kCurrentDirectory \<or> path = kParentDirectory"

section \<open>Trailing separators, directories and base names\<close>

text \<open>The loop of \<^verbatim>\<open>StripTrailingSeparatorsInternal\<close>, at position \<open>pos\<close>.\<close>

function strip_loop :: "nat \<Rightarrow> string \<Rightarrow> nat \<Rightarrow> nat \<Rightarrow> string" where
  "strip_loop start path pos last_stripped =
     (if pos > start \<and> IsSeparator (path ! (pos - 1)) then
        if pos \<noteq> szadd start 1 \<or> last_stripped = szadd start 2 \<or> \<not> IsSeparator (path ! (start - 1))
        then strip_loop start (std_string_resize (CHR 0x00) path (pos - 1)) (pos - 1) pos
        else strip_loop start path (pos - 1) last_stripped
      else path)"
  by pat_completeness auto
termination by (relation "measure (\<lambda>(start, path, pos, last_stripped). pos)") auto

declare strip_loop.simps [simp del]

definition StripTrailingSeparatorsInternal :: "string \<Rightarrow> string" where
  "StripTrailingSeparatorsInternal path =
     strip_loop (szadd (FindDriveLetter path) 2) path (length path) npos"

definition DirName :: "string \<Rightarrow> string" where
  "DirName path =
     (let new_path = FilePath path;
          new_path = StripTrailingSeparatorsInternal new_path;
          letter = FindDriveLetter new_path;
          new_path =
            (case std_string_find_last_of new_path (take (kSeparatorsLength - 1) kSeparators) npos of
               None \<Rightarrow> std_string_resize (CHR 0x00) new_path (szadd letter 1)
             | Some last_separator \<Rightarrow>
                 if last_separator = szadd letter 1 then std_string_resize (CHR 0x00) new_path (szadd letter 2)
                 else if last_separator = szadd letter 2 \<and> IsSeparator (new_path ! (szadd letter 1))
                 then std_string_resize (CHR 0x00) new_path (szadd letter 3)
                 else if last_separator \<noteq> 0 then std_string_resize (CHR 0x00) new_path last_separator
                 else new_path);
          new_path = StripTrailingSeparatorsInternal new_path
      in if length new_path = 0 then kCurrentDirectory else new_path)"

definition BaseName :: "string \<Rightarrow> string" where
  "BaseName path =
     (let new_path = FilePath path;
          new_path = StripTrailingSeparatorsInternal new_path;
          letter = FindDriveLetter new_path;
          new_path = (if letter \<noteq> npos then drop (szadd letter 1) new_path else new_path)
      in case std_string_find_last_of new_path (take (kSeparatorsLength - 1) kSeparators) npos of
           None \<Rightarrow> new_path
         | Some last_separator \<Rightarrow>
             if last_separator < length new_path - 1 then drop (last_separator + 1) new_path else new_path)"

definition StripTrailingSeparators :: "string \<Rightarrow> string" where
  "StripTrailingSeparators path = StripTrailingSeparatorsInternal (FilePath path)"

definition IsAbsolute :: "string \<Rightarrow> bool" where
  "IsAbsolute path = IsPathAbsolute path"

definition EndsWithSeparator :: "string \<Rightarrow> bool" where
  "EndsWithSeparator path = (if path = [] then False else IsSeparator (path ! (length path - 1)))"

definition AsEndingWithSeparator :: "string \<Rightarrow> string" where
  "AsEndingWithSeparator path =
     (if EndsWithSeparator path \<or> path = [] then path else FilePath (path @ take 1 kSeparators))"

text \<open>On POSIX the separators are already normal.\<close>

definition NormalizePathSeparatorsTo :: "string \<Rightarrow> char \<Rightarrow> string" where
  "NormalizePathSeparatorsTo path separator = path"

definition NormalizePathSeparators :: "string \<Rightarrow> string" where
  "NormalizePathSeparators path = NormalizePathSeparatorsTo path (kSeparators ! 0)"

section \<open>Extensions\<close>

definition Extension :: "string \<Rightarrow> string" where
  "Extension path =
     (let base = BaseName path in
      case ExtensionSeparatorPosition base of None \<Rightarrow> [] | Some dot \<Rightarrow> drop dot base)"

definition FinalExtension :: "string \<Rightarrow> string" where
  "FinalExtension path =
     (let base = BaseName path in
      case FinalExtensionSeparatorPosition base of None \<Rightarrow> [] | Some dot \<Rightarrow> drop dot base)"

definition RemoveExtension :: "string \<Rightarrow> string" where
  "RemoveExtension path =
     (if Extension path = [] then path
      else case ExtensionSeparatorPosition path of None \<Rightarrow> path | Some dot \<Rightarrow> FilePath (take dot path))"

definition RemoveFinalExtension :: "string \<Rightarrow> string" where
  "RemoveFinalExtension path =
     (if FinalExtension path = [] then path
      else case FinalExtensionSeparatorPosition path of None \<Rightarrow> path | Some dot \<Rightarrow> FilePath (take dot path))"

definition InsertBeforeExtension :: "string \<Rightarrow> string \<Rightarrow> string" where
  "InsertBeforeExtension path sfx =
     (if sfx = [] then FilePath path
      else if IsEmptyOrSpecialCase (BaseName path) then []
      else let ext = Extension path;
               ret = RemoveExtension path;
               ret = AppendToString sfx ret
           in FilePath (ret @ ext))"

text \<open>The test for ASCII reads its argument at some address.\<close>

definition InsertBeforeExtensionASCII :: "nat \<Rightarrow> string \<Rightarrow> string \<Rightarrow> string result" where
  "InsertBeforeExtensionASCII addr path sfx =
     bind_result (DoIsStringASCII 1 addr (map val8 sfx)) (\<lambda>ascii.
     bind_result (dcheck ascii) (\<lambda>_. Inr (InsertBeforeExtension path sfx)))"

text \<open>A path whose base name is not empty is not empty, so it has a last character.\<close>

definition AddExtension :: "string \<Rightarrow> string \<Rightarrow> string" where
  "AddExtension path extension =
     (if IsEmptyOrSpecialCase (BaseName path) then []
      else if extension = [] \<or> length extension = 1 \<and> extension ! 0 = kExtensionSeparator then path
      else let str = path;
               str = (if extension ! 0 \<noteq> kExtensionSeparator \<and> last str \<noteq> kExtensionSeparator
                      then str @ [kExtensionSeparator] else str)
           in FilePath (AppendToString extension str))"

definition ReplaceExtension :: "string \<Rightarrow> string \<Rightarrow> string" where
  "ReplaceExtension path extension =
     (if IsEmptyOrSpecialCase (BaseName path) then []
      else let no_ext = RemoveExtension path in
        if extension = [] \<or> length extension = 1 \<and> extension ! 0 = kExtensionSeparator then no_ext
        else let str = no_ext;
                 str = (if extension ! 0 \<noteq> kExtensionSeparator then str @ [kExtensionSeparator] else str)
             in FilePath (AppendToString extension str))"

text \<open>
  \<^verbatim>\<open>strcasecmp\<close> compares the strings up to their first zero byte after \<^verbatim>\<open>tolower\<close>, which depends on the
  locale and is the argument \<open>tolower\<close>.
\<close>

fun strcasecmp :: "(char \<Rightarrow> char) \<Rightarrow> string \<Rightarrow> string \<Rightarrow> int" where
  "strcasecmp tolower (x # xs) (y # ys) =
     (if tolower x = tolower y then strcasecmp tolower xs ys
      else int (of_char (tolower x)) - int (of_char (tolower y)))"
| "strcasecmp tolower [] (y # ys) = - int (of_char (tolower y))"
| "strcasecmp tolower (x # xs) [] = int (of_char (tolower x))"
| "strcasecmp tolower [] [] = 0"

definition c_str :: "string \<Rightarrow> string" where
  "c_str s = takeWhile (\<lambda>c. c \<noteq> CHR 0x00) s"

definition CompareIgnoreCase :: "(char \<Rightarrow> char) \<Rightarrow> string \<Rightarrow> string \<Rightarrow> int" where
  "CompareIgnoreCase tolower string1 string2 =
     (let comparison = strcasecmp tolower (c_str string1) (c_str string2)
      in if comparison < 0 then -1 else if comparison > 0 then 1 else 0)"

definition CompareEqualIgnoreCase :: "(char \<Rightarrow> char) \<Rightarrow> string \<Rightarrow> string \<Rightarrow> bool" where
  "CompareEqualIgnoreCase tolower string1 string2 \<longleftrightarrow> CompareIgnoreCase tolower string1 string2 = 0"

definition CompareLessIgnoreCase :: "(char \<Rightarrow> char) \<Rightarrow> string \<Rightarrow> string \<Rightarrow> bool" where
  "CompareLessIgnoreCase tolower string1 string2 \<longleftrightarrow> CompareIgnoreCase tolower string1 string2 < 0"

definition MatchesExtension :: "(char \<Rightarrow> char) \<Rightarrow> string \<Rightarrow> string \<Rightarrow> bool result" where
  "MatchesExtension tolower path extension =
     bind_result (dcheck (extension = [] \<or> extension ! 0 = kExtensionSeparator)) (\<lambda>_.
     let current_extension = Extension path in
     if length current_extension \<noteq> length extension then Inr False
     else Inr (CompareEqualIgnoreCase tolower extension current_extension))"

section \<open>Appending\<close>

definition Append :: "string \<Rightarrow> string \<Rightarrow> string result" where
  "Append path component =
     (let appended = (case find_char component (CHR 0x00) 0 of
            None \<Rightarrow> component | Some nul_pos \<Rightarrow> CopyToString (substr component 0 nul_pos) [])
      in bind_result (dcheck (\<not> IsPathAbsolute appended)) (\<lambda>_.
         if path = kCurrentDirectory then Inr (FilePath appended)
         else let new_path = FilePath path;
                  new_path = StripTrailingSeparatorsInternal new_path;
                  new_path =
                    (if length appended > 0 \<and> length new_path > 0 \<and>
                        \<not> IsSeparator (new_path ! (length new_path - 1)) \<and>
                        szadd (FindDriveLetter new_path) 1 \<noteq> length new_path
                     then new_path @ [kSeparators ! 0] else new_path)
              in Inr (AppendToString appended new_path)))"

definition AppendASCII :: "nat \<Rightarrow> string \<Rightarrow> string \<Rightarrow> string result" where
  "AppendASCII addr path component =
     bind_result (DoIsStringASCII 1 addr (map val8 component)) (\<lambda>ascii.
     bind_result (dcheck ascii) (\<lambda>_. Append path component))"

definition MaybeAsASCII :: "nat \<Rightarrow> string \<Rightarrow> string result" where
  "MaybeAsASCII addr path =
     bind_result (DoIsStringASCII 1 addr (map val8 path)) (\<lambda>ascii. Inr (if ascii then path else []))"

section \<open>Pickles\<close>

definition WriteToPickle :: "allocator \<Rightarrow> string \<Rightarrow> pickle \<Rightarrow> (bool \<times> pickle) result" where
  "WriteToPickle alloc path p = WriteString alloc (map of_char path) p"

text \<open>A read that fails for a zero byte has overwritten the path all the same.\<close>

definition ReadFromPickle :: "string \<Rightarrow> pickle_iterator \<Rightarrow> (bool \<times> string \<times> pickle_iterator) result" where
  "ReadFromPickle path it =
     bind_result (ReadString it) (\<lambda>(r, it). case r of None \<Rightarrow> Inr (False, path, it)
       | Some bs \<Rightarrow> let path = map (\<lambda>b. char_of (unat b)) bs in
           Inr (find_char path (CHR 0x00) 0 = None, path, it))"

section \<open>Lemmas on searches\<close>

abbreviation sep :: char where "sep \<equiv> CHR ''/''"

lemma scan_forward_None: "scan_forward hit n i = None \<longleftrightarrow> (\<forall>j. i \<le> j \<longrightarrow> j < n \<longrightarrow> \<not> hit j)"
  using scan_forward_first [of hit i n]
  by (cases "scan_forward hit n i") (auto simp: is_first_def)

lemma IsSeparator_eq [simp]: "IsSeparator c \<longleftrightarrow> c = sep"
  by (auto simp: IsSeparator_def scan_forward_None kSeparators_def kSeparatorsLength_def)

definition all_sep :: "string \<Rightarrow> bool" where
  "all_sep s \<longleftrightarrow> list_all (\<lambda>c. c = sep) s"

lemma all_sep_simps [simp]:
  "all_sep []" "all_sep (c # s) \<longleftrightarrow> c = sep \<and> all_sep s" "all_sep (s @ t) \<longleftrightarrow> all_sep s \<and> all_sep t"
  "all_sep (replicate k sep)"
  by (auto simp: all_sep_def list_all_iff)

lemma all_sep_replicate: "all_sep s \<Longrightarrow> s = replicate (length s) sep"
  by (induction s) auto

lemma not_all_sep: "x \<in> set s \<Longrightarrow> x \<noteq> sep \<Longrightarrow> \<not> all_sep s"
  by (auto simp: all_sep_def list_all_iff)

lemma AreAllSeparators_eq: "AreAllSeparators s \<longleftrightarrow> all_sep s"
  by (simp add: AreAllSeparators_def scan_forward_None all_sep_def list_all_iff all_set_conv_all_nth)

lemma separator_set: "std_string_find_last_of s (take (kSeparatorsLength - 1) kSeparators) pos =
    std_string_rfind_char s sep pos"
  by (simp add: std_string_find_last_of_def std_string_rfind_char_def kSeparators_def kSeparatorsLength_def)

text \<open>The last position of a character in a string that is split there.\<close>

lemma rfind_mid:
  assumes "c \<notin> set n"
  shows "std_string_rfind_char (p @ c # n @ r) c (length p + length n) = Some (length p)"
proof -
  have n: "\<forall>j. length p < j \<longrightarrow> j < Suc (length p + length n) \<longrightarrow> (p @ c # n @ r) ! j \<noteq> c"
    using assms(1) by (auto simp: nth_append nth_Cons' in_set_conv_nth)
  then have "is_last (\<lambda>i. (p @ c # n @ r) ! i = c) (Suc (length p + length n)) (Some (length p))"
    by (auto simp: is_last_def nth_append)
  then have "scan_backward (\<lambda>i. (p @ c # n @ r) ! i = c) (length p + length n) = Some (length p)"
    by (rule is_last_unique [OF scan_backward_last])
  then show ?thesis by (simp add: std_string_rfind_char_def min_def)
qed

lemma rfind_split:
  assumes "c \<notin> set n" "length p + length n \<le> pos"
  shows "std_string_rfind_char (p @ c # n) c pos = Some (length p)"
  using rfind_mid [OF assms(1), of p "[]"] assms(2) by (simp add: std_string_rfind_char_def min_def)

lemma rfind_None:
  assumes "c \<notin> set (take (Suc pos) s)"
  shows "std_string_rfind_char s c pos = None"
proof (cases "s = []")
  case False
  have "s ! i \<noteq> c" if "i < Suc (min pos (length s - 1))" for i
  proof -
    have "i < length s" "i < Suc pos" using that False by (auto simp: less_Suc_eq_le Suc_le_eq dest: le_imp_less_Suc)
    then have "s ! i \<in> set (take (Suc pos) s)" by (force simp: in_set_conv_nth)
    with assms show ?thesis by auto
  qed
  then show ?thesis using False scan_backward_last [of "\<lambda>i. s ! i = c" "min pos (length s - 1)"]
    by (cases "scan_backward (\<lambda>i. s ! i = c) (min pos (length s - 1))")
      (auto simp: std_string_rfind_char_def is_last_def)
qed (simp add: std_string_rfind_char_def)

lemma rfind_bound:
  assumes "std_string_rfind_char s c pos = Some k"
  shows "k < length s"
proof -
  have "s \<noteq> []" using assms by (auto simp: std_string_rfind_char_def)
  then have "Suc (min pos (length s - 1)) \<le> length s" by (cases s) auto
  moreover have "k < Suc (min pos (length s - 1))"
    using assms \<open>s \<noteq> []\<close> scan_backward_last [of "\<lambda>i. s ! i = c" "min pos (length s - 1)"]
    by (simp add: std_string_rfind_char_def is_last_def)
  ultimately show ?thesis by (rule less_le_trans [rotated])
qed

section \<open>Trailing separators\<close>

text \<open>What stripping does: a string of separators becomes one of them, or two if there were two.\<close>

definition stripped :: "string \<Rightarrow> string" where
  "stripped s =
     (if all_sep s then if length s \<le> 2 then s else [sep]
      else rev (dropWhile (\<lambda>c. c = sep) (rev s)))"

lemma stripped_root: "stripped (replicate k sep) = (if k \<le> 2 then replicate k sep else [sep])"
  by (simp add: stripped_def)

lemma dropWhile_sep: "all_sep r \<Longrightarrow> dropWhile (\<lambda>c. c = sep) (r @ s) = dropWhile (\<lambda>c. c = sep) s"
  by (induction r) auto

lemma stripped_name:
  assumes "n \<noteq> []" "last n \<noteq> sep" "all_sep r"
  shows "stripped (n @ r) = n"
proof -
  obtain m c where n: "n = m @ [c]" "c \<noteq> sep" using assms(1,2) by (cases n rule: rev_cases) auto
  have "all_sep (rev r)" using assms(3) by (simp add: all_sep_def list_all_iff)
  then have "dropWhile (\<lambda>c. c = sep) (rev (n @ r)) = rev n" using n by (simp add: dropWhile_sep)
  then show ?thesis using n by (simp add: stripped_def)
qed

lemma stripped_small [simp]: "stripped [] = []" "stripped [c] = [c]" "stripped [sep, sep] = [sep, sep]"
  using stripped_name [of "[c]" "[]"] by (cases "c = sep") (simp_all add: stripped_def)

lemma split_name: "\<not> all_sep s \<Longrightarrow> \<exists>n r. s = n @ r \<and> n \<noteq> [] \<and> last n \<noteq> sep \<and> all_sep r"
proof (induction s rule: rev_induct)
  case (snoc c s)
  show ?case
  proof (cases "c = sep")
    case True
    with snoc obtain n r where "s = n @ r" "n \<noteq> []" "last n \<noteq> sep" "all_sep r" by auto
    with True show ?thesis by (intro exI [of _ n] exI [of _ "r @ [c]"]) simp
  next
    case False
    then show ?thesis by (intro exI [of _ "s @ [c]"] exI [of _ "[]"]) simp
  qed
qed simp

lemma szadd_npos: "szadd npos 1 = 0" "szadd npos 2 = 1" "szadd npos 3 = 2" "szadd 1 1 = 2" "szadd 1 2 = 3"
  by (simp_all add: szadd_def npos_def)

lemma resize_shorter: "n \<le> length s \<Longrightarrow> std_string_resize c s n = take n s"
  by (simp add: std_string_resize_def)

lemma strip_step:
  "strip_loop 1 s pos ls =
     (if pos > 1 \<and> s ! (pos - 1) = sep then
        if pos \<noteq> 2 \<or> ls = 3 \<or> s ! 0 \<noteq> sep then strip_loop 1 (std_string_resize (CHR 0x00) s (pos - 1)) (pos - 1) pos
        else strip_loop 1 s (pos - 1) ls
      else s)"
  by (subst strip_loop.simps) (simp only: szadd_npos IsSeparator_eq diff_self_eq_0)

lemma strip_loop_name:
  assumes "n \<noteq> []" "last n \<noteq> sep"
  shows "all_sep r \<Longrightarrow> strip_loop 1 (n @ r) (length (n @ r)) ls = n"
proof (induction r arbitrary: ls rule: rev_induct)
  case Nil
  have "n ! (length n - 1) \<noteq> sep" using assms by (simp add: last_conv_nth)
  then show ?case by (subst strip_step) simp
next
  case (snoc c r)
  let ?s = "n @ r @ [sep]"
  have "length ?s > 1 \<and> ?s ! (length ?s - 1) = sep" using assms by (auto simp: nth_append)
  moreover have "length ?s \<noteq> 2 \<or> ls = 3 \<or> ?s ! 0 \<noteq> sep"
    using assms by (cases n) (auto split: if_splits)
  ultimately have "strip_loop 1 ?s (length ?s) ls = strip_loop 1 (n @ r) (length (n @ r)) (length ?s)"
    by (subst strip_step) (simp add: resize_shorter)
  with snoc show ?case by simp
qed

lemma strip_loop_root: "strip_loop 1 (replicate (Suc k) sep) (Suc k) ls = (if k = 1 \<and> ls \<noteq> 3 then [sep, sep] else [sep])"
proof (induction k arbitrary: ls)
  case 0
  show ?case by (subst strip_step) simp
next
  case (Suc k)
  let ?s = "replicate (Suc (Suc k)) sep"
  have l: "?s ! (Suc (Suc k) - 1) = sep" "?s ! 0 = sep" by (simp_all del: replicate_Suc)
  show ?case
  proof (cases "k = 0 \<and> ls \<noteq> 3")
    case True
    then have "strip_loop 1 ?s (Suc (Suc k)) ls = strip_loop 1 ?s 1 ls"
      using l by (subst strip_step) simp
    also have "\<dots> = ?s" by (subst strip_step) simp
    finally show ?thesis using True by simp
  next
    case False
    then have "strip_loop 1 ?s (Suc (Suc k)) ls = strip_loop 1 (replicate (Suc k) sep) (Suc k) (Suc (Suc k))"
      using l by (subst strip_step) (auto simp: resize_shorter simp del: replicate_Suc)
    with Suc False show ?thesis by (auto simp del: replicate_Suc)
  qed
qed

lemma Strip_loop_eq: "StripTrailingSeparatorsInternal s = strip_loop 1 s (length s) npos"
  by (simp only: StripTrailingSeparatorsInternal_def FindDriveLetter_def szadd_npos)

lemma Strip_eq: "StripTrailingSeparatorsInternal s = stripped s"
proof (cases "all_sep s")
  case True
  then have s: "s = replicate (length s) sep" by (rule all_sep_replicate)
  show ?thesis
  proof (cases "length s")
    case (Suc k)
    then have "StripTrailingSeparatorsInternal s = (if k = 1 then [sep, sep] else [sep])"
      using s strip_loop_root [of k npos] by (simp add: Strip_loop_eq npos_def)
    also have "\<dots> = stripped (replicate (Suc k) sep)" unfolding stripped_root by (auto simp: numeral_2_eq_2 le_Suc_eq)
    finally show ?thesis using s Suc by simp
  next
    case 0
    then show ?thesis using strip_step [of "[]" 0 npos] by (simp add: Strip_loop_eq)
  qed
next
  case False
  then obtain n r where n: "s = n @ r" "n \<noteq> []" "last n \<noteq> sep" "all_sep r" using split_name by blast
  then show ?thesis using strip_loop_name [OF n(2,3,4), of npos] by (simp add: Strip_loop_eq stripped_name)
qed

section \<open>Directory and base name\<close>

text \<open>A path whose last component is the name \<open>n\<close>, behind the directory part \<open>d\<close>.\<close>

definition path_at :: "string \<Rightarrow> string \<Rightarrow> string \<Rightarrow> bool" where
  "path_at s d n \<longleftrightarrow> stripped s = d @ n \<and> n \<noteq> [] \<and> sep \<notin> set n \<and> (d = [] \<or> last d = sep)"

definition is_root :: "string \<Rightarrow> bool" where
  "is_root s \<longleftrightarrow> s = ''/'' \<or> s = ''//''"

definition dir_part :: "string \<Rightarrow> string" where
  "dir_part d = (if d = [] then ''.'' else if is_root d then d else stripped (butlast d))"

lemma split_dir:
  assumes "t \<noteq> []" "last t \<noteq> sep"
  shows "\<exists>d n. t = d @ n \<and> n \<noteq> [] \<and> sep \<notin> set n \<and> (d = [] \<or> last d = sep)"
proof (cases "sep \<in> set t")
  case True
  then obtain p n where t: "t = p @ sep # n" "sep \<notin> set n" by (meson split_list_last)
  with assms(2) have "n \<noteq> []" by auto
  with t show ?thesis by (intro exI [of _ "p @ [sep]"] exI [of _ n]) auto
next
  case False
  with assms show ?thesis by (intro exI [of _ "[]"] exI [of _ t]) auto
qed

lemma path_cases:
  obtains (empty) "s = []" | (root) "s \<noteq> []" "all_sep s" "is_root (stripped s)" | (name) d n where "path_at s d n"
proof (cases "all_sep s")
  case True
  then have s: "s = replicate (length s) sep" by (rule all_sep_replicate)
  have "length s = 0 \<or> length s = 1 \<or> length s = 2 \<or> length s > 2" by linarith
  then have "s = [] \<or> is_root (stripped s)"
    using stripped_root [of "length s"] s by (auto simp: is_root_def numeral_2_eq_2)
  with True that(1,2) show ?thesis by blast
next
  case False
  then obtain m r where m: "s = m @ r" "m \<noteq> []" "last m \<noteq> sep" "all_sep r" using split_name by blast
  from split_dir [OF m(2,3)] stripped_name [OF m(2-4)] m(1) that(3) show ?thesis by (auto simp: path_at_def)
qed

lemma path_at_last: "path_at s d n \<Longrightarrow> last (d @ n) \<noteq> sep \<and> d @ n \<noteq> []"
  by (auto simp: path_at_def dest: last_in_set)

lemma path_at_stripped: "path_at s d n \<Longrightarrow> stripped (d @ n) = d @ n"
  using stripped_name [of "d @ n" "[]"] path_at_last [of s d n] by simp

lemma root_stripped: "is_root r \<Longrightarrow> stripped r = r"
  by (auto simp: is_root_def)

lemma stripped_stripped [simp]: "stripped (stripped s) = stripped s"
proof (cases s rule: path_cases)
  case (name d n)
  then show ?thesis using path_at_stripped [OF name] by (simp add: path_at_def)
qed (auto simp: root_stripped)

lemma stripped_nonempty: "s \<noteq> [] \<Longrightarrow> stripped s \<noteq> []"
  by (cases s rule: path_cases) (auto simp: path_at_def is_root_def)

lemma path_at_self:
  assumes "n \<noteq> []" "sep \<notin> set n" "d = [] \<or> last d = sep"
  shows "path_at (d @ n) d n"
proof -
  have "last (d @ n) \<noteq> sep" using assms(1,2) last_in_set [of n] by (metis last_appendR)
  then show ?thesis using stripped_name [of "d @ n" "[]"] assms by (simp add: path_at_def)
qed

lemma length_stripped: "length (stripped s) \<le> length s"
proof (cases "all_sep s")
  case False
  then obtain m r where "s = m @ r" "m \<noteq> []" "last m \<noteq> sep" "all_sep r" using split_name by blast
  then show ?thesis by (simp add: stripped_name)
qed (simp add: stripped_def)

lemma last_sep:
  assumes "path_at s d n" "length s < npos"
  shows "std_string_rfind_char (d @ n) sep npos = (if d = [] then None else Some (length d - 1))"
proof (cases d rule: rev_cases)
  case Nil
  have "sep \<notin> set (take (Suc npos) n)" using assms(1) by (auto simp: path_at_def dest: in_set_takeD)
  then show ?thesis using Nil by (simp add: rfind_None)
next
  case (snoc p c)
  then have c: "c = sep" "sep \<notin> set n" "length (d @ n) \<le> length s"
    using assms(1) length_stripped [of s] by (auto simp: path_at_def)
  then show ?thesis using rfind_split [of sep n p npos] snoc assms(2) by simp
qed

lemma root_sep: "is_root r \<Longrightarrow> std_string_rfind_char r sep npos = Some (length r - 1)"
  using rfind_split [of sep "[]" "[]" npos] rfind_split [of sep "[]" "[sep]" npos]
  by (auto simp: npos_def is_root_def)

text \<open>The constructor's copy of a string without a zero byte.\<close>

abbreviation no_nul :: "string \<Rightarrow> bool" where "no_nul s \<equiv> CHR 0x00 \<notin> set s"

lemma FilePath_id: "no_nul s \<Longrightarrow> FilePath s = s"
  by (simp add: FilePath_eq) (metis takeWhile_eq_all_conv)

lemma FilePath_sub: "set (FilePath s) \<subseteq> set s" "no_nul (FilePath s)" "length (FilePath s) \<le> length s"
  by (auto simp: FilePath_eq length_takeWhile_le dest: set_takeWhileD)

lemma BaseName_unfold:
  "no_nul s \<Longrightarrow> BaseName s = (case std_string_rfind_char (stripped s) sep npos of None \<Rightarrow> stripped s
     | Some k \<Rightarrow> if k < length (stripped s) - 1 then drop (k + 1) (stripped s) else stripped s)"
  by (simp only: BaseName_def FilePath_id Strip_eq FindDriveLetter_def separator_set Let_def simp_thms if_False)

lemma BaseName_name: "path_at s d n \<Longrightarrow> length s < npos \<Longrightarrow> no_nul s \<Longrightarrow> BaseName s = n"
  using last_sep [of s d n] by (cases d; cases n) (auto simp: BaseName_unfold path_at_def)

lemma BaseName_root: "is_root (stripped s) \<Longrightarrow> no_nul s \<Longrightarrow> BaseName s = stripped s"
  by (simp add: BaseName_unfold root_sep)

lemma BaseName_empty: "BaseName [] = []"
  by (simp add: BaseName_unfold std_string_rfind_char_def)

lemma DirName_unfold:
  assumes "no_nul s"
  shows "DirName s = (let t = stripped s;
     u = (case std_string_rfind_char t sep npos of None \<Rightarrow> []
       | Some k \<Rightarrow> if k = 0 then take 1 t else if k = 1 \<and> t ! 0 = sep then take 2 t else take k t)
     in if stripped u = [] then ''.'' else stripped u)"
proof (cases "std_string_rfind_char (stripped s) sep npos")
  case None
  then show ?thesis
    by (simp only: DirName_def FilePath_id [OF assms] Strip_eq FindDriveLetter_def separator_set Let_def szadd_npos option.case
        kCurrentDirectory_def length_0_conv) (simp add: std_string_resize_def)
next
  case (Some k)
  note k = rfind_bound [OF Some]
  have r: "std_string_resize (CHR 0x00) (stripped s) 1 = take 1 (stripped s)"
    "k = 1 \<longrightarrow> std_string_resize (CHR 0x00) (stripped s) 2 = take 2 (stripped s)"
    "std_string_resize (CHR 0x00) (stripped s) k = take k (stripped s)"
    using k by (auto intro!: resize_shorter)
  show ?thesis using Some r
    by (simp only: DirName_def FilePath_id [OF assms] Strip_eq FindDriveLetter_def separator_set Let_def szadd_npos option.case
        kCurrentDirectory_def length_0_conv IsSeparator_eq) auto
qed

lemma DirName_name:
  assumes "path_at s d n" "length s < npos" "no_nul s"
  shows "DirName s = dir_part d"
proof -
  have s: "stripped s = d @ n" and ds: "d = [] \<or> last d = sep" and n: "n \<noteq> []" using assms(1) by (auto simp: path_at_def)
  note l = last_sep [OF assms(1,2)]
  consider "d = []" | "is_root d" | "d \<noteq> []" "\<not> is_root d" by blast
  then show ?thesis
  proof cases
    case 1
    then show ?thesis using l s by (simp add: DirName_unfold assms(3) Let_def dir_part_def)
  next
    case 2
    then show ?thesis using l s
      by (auto simp: DirName_unfold [OF assms(3)] Let_def dir_part_def is_root_def numeral_2_eq_2)
  next
    case 3
    then obtain p where p: "d = p @ [sep]" "p \<noteq> []"
      using ds by (cases d rule: rev_cases) (auto simp: is_root_def)
    have "length d - 1 = length p" "\<not> (length p = 1 \<and> p ! 0 = sep)"
      using p 3 by (auto simp: is_root_def length_Suc_conv)
    moreover have "(d @ n) ! 0 = p ! 0" using p by (simp add: nth_append)
    moreover have "stripped p \<noteq> []" using p(2) by (rule stripped_nonempty)
    ultimately show ?thesis using l s p 3 by (auto simp: DirName_unfold [OF assms(3)] Let_def dir_part_def)
  qed
qed

lemma DirName_root: "is_root (stripped s) \<Longrightarrow> no_nul s \<Longrightarrow> DirName s = stripped s"
  using root_sep [of "stripped s"] by (auto simp: DirName_unfold is_root_def)

lemma DirName_empty: "DirName [] = ''.''"
  by (simp add: DirName_unfold std_string_rfind_char_def)

section \<open>Components\<close>

lemma stripped_take: "stripped s = take (length (stripped s)) s"
proof (cases "all_sep s")
  case True
  then have "s = replicate (length s) sep" by (rule all_sep_replicate)
  moreover have "stripped (replicate k sep) = take (length (stripped (replicate k sep))) (replicate k sep)" for k
    by (simp add: stripped_root min_def)
  ultimately show ?thesis by metis
next
  case False
  then obtain m r where "s = m @ r" "m \<noteq> []" "last m \<noteq> sep" "all_sep r" using split_name by blast
  then show ?thesis by (simp add: stripped_name)
qed

lemma stripped_same: "length (stripped s) = length s \<Longrightarrow> stripped s = s"
  using stripped_take [of s] by simp

lemma DirName_progress_copy:
  assumes "no_nul s"
  shows "DirName s = s \<or> DirName s = ''.'' \<or> length (DirName s) < length s"
proof -
  obtain k where k: "DirName s = ''.'' \<or> DirName s = stripped (take k (stripped s))"
  proof (cases "std_string_rfind_char (stripped s) sep npos")
    case None
    then show ?thesis using that by (simp add: DirName_unfold assms)
  next
    case (Some j)
    define i where "i = (if j = 0 then 1 else if j = 1 \<and> stripped s ! 0 = sep then 2 else j)"
    have "(if j = 0 then take 1 (stripped s) else if j = 1 \<and> stripped s ! 0 = sep then take 2 (stripped s)
        else take j (stripped s)) = take i (stripped s)" by (simp add: i_def)
    then have "DirName s = (if stripped (take i (stripped s)) = [] then ''.'' else stripped (take i (stripped s)))"
      using Some by (simp only: DirName_unfold [OF assms] Let_def option.case)
    then show ?thesis using that [of i] by (auto split: if_splits)
  qed
  let ?u = "take k (stripped s)"
  have l: "length (stripped ?u) \<le> length ?u" "length ?u \<le> length (stripped s)" "length (stripped s) \<le> length s"
    by (rule length_stripped, simp, rule length_stripped)
  have "stripped ?u = s" if e: "length (stripped ?u) = length s"
  proof -
    have "stripped s = s" using l e by (intro stripped_same) simp
    moreover have "?u = stripped s" using l e by simp
    ultimately show ?thesis by simp
  qed
  then show ?thesis using k l by (metis le_neq_implies_less order_trans)
qed

lemma DirName_copy: "DirName (FilePath s) = DirName s" "BaseName (FilePath s) = BaseName s"
  by (simp_all only: DirName_def BaseName_def FilePath_id [OF FilePath_sub(2)])

lemma DirName_progress: "DirName s = s \<or> DirName s = ''.'' \<or> length (DirName s) < length s"
proof (cases "no_nul s")
  case False
  then have "FilePath s \<noteq> s" using FilePath_sub(2) [of s] by auto
  then have "length (FilePath s) < length s" using takeWhile_eq_take [of _ s] FilePath_sub(3) [of s]
    by (metis FilePath_eq le_neq_implies_less take_all)
  then show ?thesis using DirName_progress_copy [OF FilePath_sub(2) [of s]] by (auto simp: DirName_copy)
qed (rule DirName_progress_copy)

lemma DirName_current: "DirName ''.'' = ''.''"
  using DirName_name [OF path_at_self [of "''.''" "[]"]] by (simp add: dir_part_def npos_def)

text \<open>The loop of \<^verbatim>\<open>GetComponents\<close>: the components found so far, and where it stops.\<close>

function components_loop :: "string \<Rightarrow> string list \<Rightarrow> string list \<times> string" where
  "components_loop current ret_val =
     (if current \<noteq> DirName current then
        let base = BaseName current
        in components_loop (DirName current) (if \<not> AreAllSeparators base then ret_val @ [base] else ret_val)
      else (ret_val, current))"
  by pat_completeness auto
termination
proof (relation "measure (\<lambda>(current, _). if current = ''.'' then 0 else Suc (length current))")
  fix current :: string and x and ret_val :: "string list"
  assume "current \<noteq> DirName current"
  then show "((DirName current, if \<not> AreAllSeparators x then ret_val @ [x] else ret_val), current, ret_val)
      \<in> measure (\<lambda>(current, _). if current = ''.'' then 0 else Suc (length current))"
    using DirName_progress [of current] DirName_current by auto
qed simp

declare components_loop.simps [simp del]

definition GetComponents :: "string \<Rightarrow> string list" where
  "GetComponents path =
     (if path = [] then []
      else case components_loop path [] of (ret_val, current) \<Rightarrow>
        let base = BaseName current;
            ret_val = (if base \<noteq> [] \<and> base \<noteq> kCurrentDirectory then ret_val @ [BaseName current] else ret_val);
            dir = DirName current;
            letter = FindDriveLetter dir;
            ret_val = (if letter \<noteq> npos then ret_val @ [take (szadd letter 1) dir] else ret_val)
        in rev ret_val)"

text \<open>
  \<^verbatim>\<open>AppendRelativePath\<close> walks the components of the parent; what is left of the child's is appended to
  the path that the last argument points to, if it is not the null pointer.
\<close>

fun skip_parent :: "string list \<Rightarrow> string list \<Rightarrow> string list option" where
  "skip_parent (p # ps) (c # cs) = (if p \<noteq> c then None else skip_parent ps cs)"
| "skip_parent (p # ps) [] = None"
| "skip_parent [] cs = Some cs"

fun append_components :: "string \<Rightarrow> string list \<Rightarrow> string result" where
  "append_components path [] = Inr path"
| "append_components path (c # cs) = bind_result (Append path c) (\<lambda>path. append_components path cs)"

definition AppendRelativePath :: "string \<Rightarrow> string \<Rightarrow> string option \<Rightarrow> (bool \<times> string option) result" where
  "AppendRelativePath self child path =
     (let parent_components = GetComponents self;
          child_components = GetComponents child
      in if parent_components = [] \<or> length parent_components \<ge> length child_components then Inr (False, path)
         else case skip_parent parent_components child_components of
                None \<Rightarrow> Inr (False, path)
              | Some rest \<Rightarrow> (case path of None \<Rightarrow> Inr (True, None)
                  | Some p \<Rightarrow> bind_result (append_components p rest) (\<lambda>p. Inr (True, Some p))))"

definition IsParent :: "string \<Rightarrow> string \<Rightarrow> bool result" where
  "IsParent self child = bind_result (AppendRelativePath self child None) (\<lambda>(r, _). Inr r)"

definition ReferencesParent :: "string \<Rightarrow> bool" where
  "ReferencesParent path =
     (\<exists>component \<in> set (GetComponents path).
        std_string_find_first_not_of component (''. '' @ [CHR 0x0A, CHR 0x0D, CHR 0x09]) = None \<and>
        std_string_find component kParentDirectory 0 \<noteq> None)"

section \<open>What the components are\<close>

text \<open>The pieces between separators, and the root of an absolute path.\<close>

primrec pieces :: "string \<Rightarrow> string list" where
  "pieces [] = [[]]"
| "pieces (c # s) = (if c = sep then [] # pieces s else (c # hd (pieces s)) # tl (pieces s))"

definition names :: "string \<Rightarrow> string list" where
  "names s = filter (\<lambda>n. n \<noteq> []) (pieces s)"

definition root_of :: "string \<Rightarrow> string list" where
  "root_of s = (let k = length (takeWhile (\<lambda>c. c = sep) s)
     in if k = 0 then [] else if k = 2 \<or> k = 3 then [''//''] else [''/''])"

definition components :: "string \<Rightarrow> string list" where
  "components s = root_of s @ (if root_of s = [] \<and> names s \<noteq> [] \<and> hd (names s) = ''.'' then tl (names s) else names s)"

lemma pieces_nonempty [simp]: "pieces s \<noteq> []"
  by (cases s) auto

lemma pieces_sep: "pieces (s @ sep # t) = pieces s @ pieces t"
  by (induction s) auto

lemma pieces_name: "sep \<notin> set n \<Longrightarrow> pieces n = [n]"
  by (induction n) auto

lemma names_simps:
  "names [] = []" "names (s @ sep # t) = names s @ names t" "sep \<notin> set n \<Longrightarrow> n \<noteq> [] \<Longrightarrow> names n = [n]"
  by (simp_all add: names_def pieces_sep pieces_name)

lemma names_all_sep: "all_sep r \<Longrightarrow> names r = []"
proof (induction r)
  case (Cons c r)
  then show ?case using names_simps(2) [of "[]" r] by (simp add: names_simps(1))
qed (simp add: names_simps)

lemma names_append_sep: "all_sep r \<Longrightarrow> names (n @ r) = names n"
proof (cases r)
  case (Cons c r')
  assume "all_sep r"
  with Cons show ?thesis using names_simps(2) [of n r'] names_all_sep [of r'] by simp
qed simp

lemma names_stripped: "names (stripped s) = names s"
proof (cases "all_sep s")
  case True
  moreover have "all_sep (stripped s)" using True by (simp add: stripped_def)
  ultimately show ?thesis by (simp add: names_all_sep)
next
  case False
  then obtain m r where "s = m @ r" "m \<noteq> []" "last m \<noteq> sep" "all_sep r" using split_name by blast
  then show ?thesis by (simp add: stripped_name names_append_sep)
qed

lemma root_of_simps:
  "root_of [] = []" "c \<noteq> sep \<Longrightarrow> root_of (c # s) = []" "is_root r \<Longrightarrow> root_of r = [r]"
  by (auto simp: root_of_def is_root_def)

lemma root_of_replicate:
  "c \<noteq> sep \<Longrightarrow> root_of (replicate k sep @ c # s) = (if k = 0 then [] else if k = 2 \<or> k = 3 then [''//''] else [''/''])"
proof -
  assume "c \<noteq> sep"
  then have "takeWhile (\<lambda>c. c = sep) (replicate k sep @ c # s) = replicate k sep" by (induction k) auto
  then show ?thesis by (simp add: root_of_def)
qed

lemma root_of_prefix:
  assumes "\<not> all_sep p"
  shows "root_of (p @ t) = root_of p"
proof -
  have "takeWhile (\<lambda>c. c = sep) (p @ t) = takeWhile (\<lambda>c. c = sep) p"
    using assms by (auto simp: all_sep_def list_all_iff intro!: takeWhile_append1)
  then show ?thesis by (simp add: root_of_def)
qed

lemma names_relative: "c \<noteq> sep \<Longrightarrow> names (c # s) \<noteq> []"
  by (auto simp: names_def)

lemma root_of_relative: "s \<noteq> [] \<Longrightarrow> root_of s = [] \<Longrightarrow> names s \<noteq> []"
  by (cases s) (auto simp: root_of_def names_relative split: if_splits)

lemma components_root: "is_root r \<Longrightarrow> components r = [r]"
  by (auto simp: components_def root_of_simps names_all_sep is_root_def)

lemma components_stripped_dir:
  assumes "p \<noteq> []" "\<not> is_root (p @ [sep])" "sep \<notin> set n" "n \<noteq> []"
  shows "components (p @ sep # n) = components (stripped p) @ [n]"
proof -
  have nm: "names (p @ sep # n) = names (stripped p) @ [n]"
    using assms by (simp add: names_simps names_stripped)
  have rt: "root_of (p @ sep # n) = root_of (stripped p)"
  proof (cases "all_sep p")
    case True
    then obtain k where k: "p = replicate k sep" using all_sep_replicate by blast
    with assms(1,2) have k2: "k \<ge> 2" by (cases k; cases "k - 1") (auto simp: is_root_def)
    obtain c m where n: "n = c # m" "c \<noteq> sep" using assms(3,4) by (cases n) auto
    have "p @ sep # n = replicate (Suc k) sep @ c # m" using k n by (simp add: replicate_app_Cons_same)
    then show ?thesis using root_of_replicate [OF n(2), of "Suc k" m] k k2
      by (auto simp: stripped_root root_of_def numeral_2_eq_2 numeral_3_eq_3)
  next
    case False
    then obtain m r where m: "p = m @ r" "m \<noteq> []" "last m \<noteq> sep" "all_sep r" using split_name by blast
    then have "\<not> all_sep m" by (intro not_all_sep [of "last m"]) auto
    then show ?thesis using m root_of_prefix [of m "r @ sep # n"] by (simp add: stripped_name)
  qed
  have "names (stripped p) \<noteq> []" if "root_of (stripped p) = []"
    using that stripped_nonempty [OF assms(1)] by (rule root_of_relative [rotated])
  then show ?thesis by (auto simp: components_def nm rt hd_append tl_append split: list.splits)
qed

lemma components_name:
  assumes "path_at s d n" "d @ n \<noteq> ''.''"
  shows "components (d @ n) = components (dir_part d) @ [n]"
proof -
  have n: "n \<noteq> []" "sep \<notin> set n" "d = [] \<or> last d = sep" using assms(1) by (auto simp: path_at_def)
  consider "d = []" | "is_root d" | "d \<noteq> []" "\<not> is_root d" by blast
  then show ?thesis
  proof cases
    case 1
    obtain c m where "n = c # m" "c \<noteq> sep" using n by (cases n) auto
    then show ?thesis using 1 n assms(2) root_of_simps(2) [of c m] names_simps(3) [of n] names_simps(3) [of "''.''"]
      by (simp add: components_def dir_part_def root_of_simps)
  next
    case 2
    obtain c m where c: "n = c # m" "c \<noteq> sep" using n by (cases n) auto
    have "names (d @ n) = [n]" using 2 names_simps(2) [of "[]" n] names_simps(2) [of "[sep]" n] n
      by (auto simp: is_root_def names_simps names_all_sep)
    moreover have "root_of (d @ n) = [d]"
      using 2 c by (auto simp: is_root_def root_of_def)
    moreover have "dir_part d = d" using 2 by (auto simp: dir_part_def is_root_def)
    ultimately show ?thesis using components_root [OF 2] by (simp add: components_def [of "d @ n"])
  next
    case 3
    then obtain p where p: "d = p @ [sep]" using n by (cases d rule: rev_cases) auto
    with 3 have "p \<noteq> []" by (auto simp: is_root_def)
    with components_stripped_dir [of p n] 3 p n show ?thesis by (simp add: dir_part_def)
  qed
qed

text \<open>The loop with the root it ends at.\<close>

definition loop_components :: "string \<Rightarrow> string list" where
  "loop_components s = (case components_loop s [] of (ret, current) \<Rightarrow>
     (if BaseName current \<noteq> [] \<and> BaseName current \<noteq> ''.'' then [BaseName current] else []) @ rev ret)"

lemma components_loop_ret:
  "components_loop s (pre @ ret) = (pre @ fst (components_loop s ret), snd (components_loop s ret))"
proof (induction s ret rule: components_loop.induct)
  case (1 s ret)
  show ?case
  proof (cases "s = DirName s")
    case True
    then show ?thesis by (simp add: components_loop.simps [of s])
  next
    case False
    then show ?thesis using 1 [OF False refl]
      by (simp add: components_loop.simps [of s "pre @ ret"] components_loop.simps [of s ret] Let_def split: if_splits)
  qed
qed

lemma loop_components_step:
  assumes "DirName s \<noteq> s"
  shows "loop_components s = loop_components (DirName s) @ (if all_sep (BaseName s) then [] else [BaseName s])"
proof -
  let ?b = "if all_sep (BaseName s) then [] else [BaseName s]"
  have "components_loop s [] = components_loop (DirName s) (?b @ [])"
    using assms by (simp add: components_loop.simps [of s] Let_def AreAllSeparators_eq)
  also have "\<dots> = (?b @ fst (components_loop (DirName s) []), snd (components_loop (DirName s) []))"
    by (rule components_loop_ret)
  finally show ?thesis by (simp add: loop_components_def case_prod_beta)
qed

lemma loop_components_stop:
  "DirName s = s \<Longrightarrow> loop_components s = (if BaseName s \<noteq> [] \<and> BaseName s \<noteq> ''.'' then [BaseName s] else [])"
  by (simp add: loop_components_def components_loop.simps [of s])

lemma GetComponents_loop: "GetComponents s = (if s = [] then [] else loop_components s)"
  by (auto simp: GetComponents_def loop_components_def FindDriveLetter_def kCurrentDirectory_def Let_def split: prod.split)

lemma dir_part_stripped: "stripped (dir_part d) = dir_part d"
  by (simp add: dir_part_def root_stripped)

lemma dir_part_shorter:
  assumes "path_at s d n" "d \<noteq> []"
  shows "length (dir_part d) < length s" "dir_part d \<noteq> []"
proof -
  have "length (dir_part d) \<le> length d" using length_stripped [of "butlast d"] assms(2)
    by (auto simp: dir_part_def)
  moreover have "length (d @ n) \<le> length s" "n \<noteq> []" using assms(1) length_stripped [of s] by (auto simp: path_at_def)
  ultimately show "length (dir_part d) < length s" by (cases n) auto
  show "dir_part d \<noteq> []"
    using assms(1,2) stripped_nonempty [of "butlast d"]
    by (cases d rule: rev_cases) (auto simp: dir_part_def is_root_def path_at_def)
qed

lemma loop_components_root:
  assumes "s \<noteq> []" "is_root (stripped s)" "no_nul s"
  shows "loop_components s = components (stripped s)"
proof (cases "s = stripped s")
  case True
  then have "DirName s = s" "BaseName s = s" using assms DirName_root BaseName_root by auto
  then show ?thesis using True assms loop_components_stop [of s] components_root [of s] by (auto simp: is_root_def)
next
  case False
  let ?t = "stripped s"
  have "no_nul ?t" using assms(2) by (auto simp: is_root_def)
  then have "DirName ?t = ?t" "BaseName ?t = ?t" using DirName_root [of ?t] BaseName_root [of ?t] assms by auto
  moreover have "all_sep ?t" using assms by (auto simp: is_root_def)
  ultimately show ?thesis
    using False loop_components_step [of s] loop_components_stop [of ?t] DirName_root [OF assms(2,3)]
      BaseName_root [OF assms(2,3)] components_root [OF assms(2)] assms(2)
    by (auto simp: is_root_def)
qed

lemma components_dot: "components ''.'' = []" "loop_components ''.'' = []"
  using names_simps(3) [of "''.''"] loop_components_stop [OF DirName_current]
    BaseName_name [OF path_at_self [of "''.''" "[]"]]
  by (simp_all add: components_def root_of_simps npos_def)

lemma loop_components_name:
  assumes "path_at s d n" "length s < npos" "no_nul s" "DirName s \<noteq> s"
  shows "loop_components s = loop_components (dir_part d) @ [n]"
proof -
  have "n \<noteq> []" "sep \<notin> set n" using assms(1) by (auto simp: path_at_def)
  then have "\<not> all_sep n" by (cases n) auto
  then show ?thesis
    using loop_components_step [OF assms(4)] DirName_name [OF assms(1-3)] BaseName_name [OF assms(1-3)] by simp
qed

lemma stripped_set: "set (stripped s) \<subseteq> set s"
  using stripped_take [of s] set_take_subset [of _ s] by metis

lemma path_at_nul:
  assumes "path_at s d n" "no_nul s"
  shows "no_nul n" "no_nul d" "no_nul (dir_part d)"
proof -
  have "set (d @ n) \<subseteq> set s" using assms(1) stripped_set [of s] by (simp add: path_at_def)
  then show "no_nul n" "no_nul d" using assms(2) by auto
  then show "no_nul (dir_part d)" using stripped_set [of "butlast d"] by (auto simp: dir_part_def dest: in_set_butlastD)
qed

lemma loop_components_eq:
  assumes "length s < npos" "no_nul s" "s \<noteq> []" "stripped s = ''.'' \<longrightarrow> s = ''.''"
  shows "loop_components s = components (stripped s)"
  using assms
proof (induction "length s" arbitrary: s rule: less_induct)
  case less
  show ?case
  proof (cases s rule: path_cases)
    case empty
    with less show ?thesis by simp
  next
    case root
    with loop_components_root less.prems(2) show ?thesis by blast
  next
    case (name d n)
    have n: "stripped s = d @ n" using name by (simp add: path_at_def)
    have D: "DirName s = dir_part d" using DirName_name name less.prems(1,2) by auto
    consider "s = ''.''" | "s \<noteq> ''.''" "d = []" | "d \<noteq> []" by blast
    then show ?thesis
    proof cases
      case 1
      then show ?thesis by (simp add: components_dot)
    next
      case 2
      then have "dir_part d = ''.''" "d @ n \<noteq> ''.''" using less.prems(4) n by (auto simp: dir_part_def)
      with 2 show ?thesis using components_name [OF name] loop_components_name [OF name less.prems(1,2)] n D
        by (simp add: components_dot)
    next
      case 3
      note sh = dir_part_shorter [OF name 3]
      have "loop_components (dir_part d) = components (dir_part d)"
        using less.hyps [OF sh(1)] less.prems(1) path_at_nul [OF name less.prems(2)] sh by (simp add: dir_part_stripped)
      moreover have "d @ n \<noteq> ''.''" using name 3 by (auto simp: path_at_def append_eq_Cons_conv)
      moreover have "DirName s \<noteq> s" using D sh by auto
      ultimately show ?thesis using loop_components_name [OF name less.prems(1,2)] n components_name [OF name] by simp
    qed
  qed
qed

lemma GetComponents_eq:
  assumes "length s < npos" "no_nul s" "s \<noteq> []" "stripped s = ''.'' \<longrightarrow> s = ''.''"
  shows "GetComponents s = components (stripped s)"
  using loop_components_eq [OF assms] assms(3) by (simp add: GetComponents_loop)

lemma GetComponents_dots:
  assumes "length s < npos" "no_nul s" "stripped s = ''.''" "s \<noteq> ''.''"
  shows "GetComponents s = [''.'']"
proof -
  have p: "path_at s [] ''.''" using assms(3) by (simp add: path_at_def)
  have "DirName s = ''.''" using DirName_name [OF p assms(1,2)] by (simp add: dir_part_def)
  moreover have "s \<noteq> []" using assms(3) by auto
  ultimately show ?thesis using loop_components_name [OF p assms(1,2)] assms(4)
    by (simp add: GetComponents_loop dir_part_def components_dot)
qed

section \<open>Appending\<close>

lemma find_char_nul: "no_nul s \<Longrightarrow> find_char s (CHR 0x00) 0 = None"
proof -
  assume "no_nul s"
  then have "scan_forward (\<lambda>i. s ! i = CHR 0x00) (length s) 0 = None"
    by (auto simp: scan_forward_None) (metis nth_mem)
  then show ?thesis by (simp add: find_char_def std_find_def)
qed

definition joined :: "string \<Rightarrow> string \<Rightarrow> string" where
  "joined p c = (if p = ''.'' then c else stripped p @
     (if c = [] \<or> p = [] \<or> last (stripped p) = sep then [] else [sep]) @ c)"

lemma Append_eq:
  assumes "no_nul c" "c = [] \<or> hd c \<noteq> sep" "no_nul p"
  shows "Append p c = Inr (joined p c)"
proof -
  have "\<not> IsPathAbsolute c" using assms(2) by (auto simp: IsPathAbsolute_def hd_conv_nth)
  moreover have "stripped p = [] \<longleftrightarrow> p = []" using stripped_nonempty [of p] by auto
  moreover have "(stripped p) ! (length (stripped p) - 1) = last (stripped p)" if "stripped p \<noteq> []"
    using that by (simp add: last_conv_nth)
  moreover have "szadd npos (Suc 0) = 0" using szadd_npos(1) by simp
  ultimately show ?thesis using assms(1,3)
    by (cases "p = []") (simp_all add: Append_def find_char_nul Let_def kCurrentDirectory_def FilePath_id Strip_eq FindDriveLetter_def
        szadd_npos kSeparators_def AppendToString_def joined_def)
qed

lemma joined_at:
  assumes "stripped p \<noteq> ''.''" "p \<noteq> []" "c \<noteq> []" "sep \<notin> set c"
  shows "\<exists>d. joined p c = d @ c \<and> path_at (joined p c) d c \<and> dir_part d = stripped p"
proof -
  have p: "p \<noteq> ''.''" "stripped p \<noteq> []"
    using assms(1) stripped_small(2) [of "CHR ''.''"] stripped_nonempty [OF assms(2)] by metis+
  show ?thesis
  proof (cases "last (stripped p) = sep")
    case True
    have r: "is_root (stripped p)"
      using True assms(2) path_at_last [of p] by (cases p rule: path_cases) (auto simp: path_at_def)
    then have "joined p c = stripped p @ c" "dir_part (stripped p) = stripped p"
      using True p by (simp_all add: joined_def dir_part_def)
    with path_at_self [OF assms(3,4), of "stripped p"] True show ?thesis by auto
  next
    case False
    have "\<not> is_root (stripped p @ [sep])" using False p by (auto simp: is_root_def append_eq_Cons_conv)
    then have "joined p c = (stripped p @ [sep]) @ c" "dir_part (stripped p @ [sep]) = stripped p"
      using False p assms(2,3) by (simp_all add: joined_def dir_part_def)
    with path_at_self [OF assms(3,4), of "stripped p @ [sep]"] show ?thesis by auto
  qed
qed

lemma path_at_dot: "path_at s d n \<Longrightarrow> d \<noteq> [] \<Longrightarrow> d @ n \<noteq> ''.''"
  by (auto simp: path_at_def append_eq_Cons_conv)

lemma GetComponents_joined:
  assumes "stripped p \<noteq> ''.''" "p \<noteq> []" "c \<noteq> []" "sep \<notin> set c" "length p + length c + 1 < npos"
    "no_nul p" "no_nul c"
  shows "GetComponents (joined p c) = GetComponents p @ [c]" "joined p c \<noteq> []" "stripped (joined p c) \<noteq> ''.''"
    "length (joined p c) \<le> length p + length c + 1" "no_nul (joined p c)"
proof -
  show z: "no_nul (joined p c)" using stripped_set [of p] assms(6,7) by (auto simp: joined_def)
  obtain d where d: "joined p c = d @ c" "path_at (joined p c) d c" "dir_part d = stripped p"
    using joined_at [OF assms(1-4)] by blast
  show l: "length (joined p c) \<le> length p + length c + 1"
    using length_stripped [of p] assms(1) by (auto simp: joined_def)
  have "d \<noteq> []" using d(3) assms(1) by (auto simp: dir_part_def)
  then have nd: "d @ c \<noteq> ''.''" using path_at_dot d(2) by blast
  show j: "joined p c \<noteq> []" "stripped (joined p c) \<noteq> ''.''" using d assms(3) nd by (auto simp: path_at_def)
  have "GetComponents (joined p c) = components (d @ c)"
    using GetComponents_eq [of "joined p c"] j l z assms(5) d by (simp add: path_at_def)
  also have "\<dots> = components (stripped p) @ [c]" using components_name [OF d(2) nd] d(3) by simp
  also have "components (stripped p) = GetComponents p" using GetComponents_eq [of p] assms by simp
  finally show "GetComponents (joined p c) = GetComponents p @ [c]" .
qed

lemma append_components_eq:
  assumes "stripped p \<noteq> ''.''" "p \<noteq> []" "\<forall>c \<in> set cs. c \<noteq> [] \<and> sep \<notin> set c \<and> no_nul c"
    "length p + sum_list (map (\<lambda>c. length c + 1) cs) < npos" "no_nul p"
  shows "\<exists>r. append_components p cs = Inr r \<and> GetComponents r = GetComponents p @ cs"
  using assms
proof (induction cs arbitrary: p)
  case (Cons c cs)
  have c: "c \<noteq> []" "sep \<notin> set c" "no_nul c" "hd c \<noteq> sep" using Cons.prems(3) by (auto dest: hd_in_set)
  note j = GetComponents_joined [OF Cons.prems(1,2) c(1,2)]
  have "length p + length c + 1 < npos" using Cons.prems(4) by simp
  note j = j [OF this Cons.prems(5) c(3)]
  obtain r where "append_components (joined p c) cs = Inr r" "GetComponents r = GetComponents (joined p c) @ cs"
    using Cons.IH [OF j(3,2)] Cons.prems j(4,5) by auto
  with j c Cons.prems(5) show ?case by (simp add: Append_eq)
qed simp

lemma skip_parent_eq: "skip_parent ps cs = (if prefix ps cs then Some (drop (length ps) cs) else None)"
  by (induction ps cs rule: skip_parent.induct) auto

lemma pieces_no_sep: "n \<in> set (pieces s) \<Longrightarrow> sep \<notin> set n \<and> set n \<subseteq> set s"
proof (induction s arbitrary: n)
  case (Cons c s)
  show ?case
  proof (cases "c = sep")
    case False
    then consider "n = c # hd (pieces s)" | "n \<in> set (tl (pieces s))" using Cons.prems by auto
    then show ?thesis using Cons.IH [of "hd (pieces s)"] Cons.IH [of n] list.set_sel(2) [of "pieces s" n] False
      by cases auto
  qed (use Cons in auto)
qed simp

lemma components_tail:
  assumes "components s = xs @ rest" "xs \<noteq> []"
  shows "\<forall>c \<in> set rest. c \<noteq> [] \<and> sep \<notin> set c \<and> set c \<subseteq> set s"
proof -
  have n: "\<forall>c \<in> set (names s). c \<noteq> [] \<and> sep \<notin> set c \<and> set c \<subseteq> set s"
    using pieces_no_sep by (auto simp: names_def)
  have "length (root_of s) \<le> 1" by (simp add: root_of_def Let_def)
  then have "set rest \<subseteq> set (names s)"
    using assms by (cases "root_of s"; cases xs; cases "names s") (auto simp: components_def split: if_splits)
  with n show ?thesis by blast
qed


section \<open>Extensions\<close>

lemma rfind_Some:
  assumes "std_string_rfind_char s c pos = Some k"
  shows "k \<le> pos" "s ! k = c" "\<forall>j. k < j \<longrightarrow> j \<le> pos \<longrightarrow> j < length s \<longrightarrow> s ! j \<noteq> c"
proof -
  have "s \<noteq> []" using assms by (auto simp: std_string_rfind_char_def)
  then have "is_last (\<lambda>i. s ! i = c) (Suc (min pos (length s - 1))) (Some k)"
    using assms scan_backward_last [of "\<lambda>i. s ! i = c" "min pos (length s - 1)"] by (simp add: std_string_rfind_char_def)
  then show "k \<le> pos" "s ! k = c" "\<forall>j. k < j \<longrightarrow> j \<le> pos \<longrightarrow> j < length s \<longrightarrow> s ! j \<noteq> c"
    by (auto simp: is_last_def less_Suc_eq_le)
qed

abbreviation dot :: char where "dot \<equiv> CHR ''.''"

text \<open>A dot in the directory part is left of the last separator and does not count.\<close>

lemma dot_in_dir:
  assumes "d \<noteq> []" "last d = sep" "dot \<notin> set a" "j < length d + length a" "length d \<le> Suc j"
    and r: "std_string_rfind_char (d @ a @ r) dot j = Some k"
  shows "k < length d - 1"
proof -
  have k: "k \<le> j" "(d @ a @ r) ! k = dot" using rfind_Some [OF r] by auto
  have "k < length d"
  proof (rule ccontr)
    assume "\<not> k < length d"
    then have "(d @ a @ r) ! k \<in> set a" using k(1) assms(4) by (auto simp: nth_append)
    with k(2) assms(3) show False by simp
  qed
  moreover have "k \<noteq> length d - 1" using k(2) assms(1,2) by (auto simp: nth_append last_conv_nth)
  ultimately show ?thesis by linarith
qed

lemma ext_pos_name:
  assumes n: "n = a @ dot # b" "dot \<notin> set b" "sep \<notin> set n" "n \<noteq> ''.''" "n \<noteq> ''..''"
    and d: "d \<noteq> []" "last d = sep" and len: "length (d @ n) < npos"
  shows "ExtensionSeparatorPosition (d @ n) = map_option (\<lambda>i. length d + i) (ExtensionSeparatorPosition n)"
proof -
  obtain p where p: "d = p @ [sep]" using d by (cases d rule: rev_cases) auto
  have special: "d @ n \<noteq> ''.''" "d @ n \<noteq> ''..''" using p n(1) by (auto simp: append_eq_Cons_conv)
  have final: "FinalExtensionSeparatorPosition n = Some (length a)"
      "FinalExtensionSeparatorPosition (d @ n) = Some (length d + length a)"
    using rfind_split [OF n(2), of a npos] rfind_split [OF n(2), of "d @ a" npos] n(1,4,5) special len
    by (simp_all add: FinalExtensionSeparatorPosition_def kCurrentDirectory_def kParentDirectory_def kExtensionSeparator_def)
  have sp: "std_string_rfind_char (d @ n) sep (length d + length a - 1) = Some (length d - 1)"
    using rfind_mid [of sep a p "dot # b"] n(1,3) p by simp
  have sn: "std_string_rfind_char n sep j = None" for j
    using n(3) by (intro rfind_None) (auto dest: in_set_takeD)
  show ?thesis
  proof (cases "dot \<in> set a")
    case False
    have "ExtensionSeparatorPosition n = Some (length a)"
      using final(1) rfind_None [of dot "length a - 1" n] False n(1)
      by (cases a) (auto simp: ExtensionSeparatorPosition_def kExtensionSeparator_def dest: in_set_takeD)
    moreover have k: "k < length d - 1"
      if "std_string_rfind_char (d @ n) dot (length d + length a - 1) = Some k" for k
      using dot_in_dir [OF d False, of "length d + length a - 1" "dot # b" k] that d n(1) by (cases d) auto
    have "ExtensionSeparatorPosition (d @ n) = Some (length d + length a)"
      unfolding ExtensionSeparatorPosition_def final option.case kExtensionSeparator_def separator_set sp
      using d(1) k by (cases "std_string_rfind_char (d @ n) dot (length d + length a - 1)") auto
    ultimately show ?thesis by simp
  next
    case True
    then obtain a1 a2 where a: "a = a1 @ dot # a2" "dot \<notin> set a2" by (meson split_list_last)
    have pen: "std_string_rfind_char n dot (length a - 1) = Some (length a1)"
        "std_string_rfind_char (d @ n) dot (length d + length a - 1) = Some (length d + length a1)"
      using rfind_mid [OF a(2), of a1 "dot # b"] rfind_mid [OF a(2), of "d @ a1" "dot # b"] n(1) a(1)
      by (simp_all add: add.assoc)
    have "is_double_extension (d @ n) (length d + length a) (length d + length a1) =
        is_double_extension n (length a) (length a1)"
      by (simp add: is_double_extension_def)
    then show ?thesis
      unfolding ExtensionSeparatorPosition_def final option.case kExtensionSeparator_def pen separator_set sp sn
      using a(1) d(1) by auto
  qed
qed

lemma Extension_name: "path_at s d n \<Longrightarrow> length s < npos \<Longrightarrow> no_nul s \<Longrightarrow>
    Extension s = (case ExtensionSeparatorPosition n of None \<Rightarrow> [] | Some i \<Rightarrow> drop i n)"
  by (simp add: Extension_def BaseName_name)

lemma ext_pos_dot: "ExtensionSeparatorPosition n = Some i \<Longrightarrow> dot \<in> set n \<and> n \<noteq> ''.'' \<and> n \<noteq> ''..''"
proof -
  assume "ExtensionSeparatorPosition n = Some i"
  then obtain k where k: "FinalExtensionSeparatorPosition n = Some k"
    by (auto simp: ExtensionSeparatorPosition_def split: option.splits)
  then have r: "std_string_rfind_char n dot npos = Some k" "n \<noteq> ''.''" "n \<noteq> ''..''"
    by (auto simp: FinalExtensionSeparatorPosition_def kCurrentDirectory_def kParentDirectory_def
        kExtensionSeparator_def split: if_splits)
  then show ?thesis using rfind_Some(2) [OF r(1)] rfind_bound [OF r(1)] by (auto simp: in_set_conv_nth)
qed

lemma extension_recompose:
  assumes "path_at s d n" "stripped s = s" "length s < npos" "no_nul s"
  shows "RemoveExtension s @ Extension s = s"
proof (cases "ExtensionSeparatorPosition n")
  case None
  then show ?thesis using Extension_name [OF assms(1,3,4)] by (simp add: RemoveExtension_def)
next
  case (Some i)
  have s: "s = d @ n" "sep \<notin> set n" "d = [] \<or> last d = sep" using assms(1,2) by (auto simp: path_at_def)
  obtain a b where n: "n = a @ dot # b" "dot \<notin> set b" using ext_pos_dot [OF Some] by (meson split_list_last)
  have pos: "ExtensionSeparatorPosition s = Some (length d + i)"
  proof (cases "d = []")
    case False
    then show ?thesis
      using ext_pos_name [OF n s(2) _ _ False] ext_pos_dot [OF Some] s assms(3) Some by simp
  qed (use s Some in simp)
  have "no_nul (take (length d + i) s)" using assms(4) by (auto dest: in_set_takeD)
  then show ?thesis
    using Extension_name [OF assms(1,3,4)] Some pos s(1) by (simp add: RemoveExtension_def FilePath_id)
qed

section \<open>Properties\<close>

text \<open>
  C34. The components of a path. The walk from a path to its directory and on to the root always ends, and
  what \<open>GetComponents\<close> collects is the root, if the path is absolute, and the names between the
  separators, without a leading \<^verbatim>\<open>.\<close> of a relative path. Two separators at the front are a root of
  their own, as base/files/file_path.h explains; so are three, but not four, which is an accident of
  \<open>DirName\<close>. A lone \<^verbatim>\<open>.\<close> followed by separators is the one path that keeps its dot.
\<close>

theorem GetComponents_correct:
  assumes "length s < npos" "no_nul s"
  shows "GetComponents s = (if s = [] then [] else if stripped s = ''.'' \<and> s \<noteq> ''.'' then [''.'']
      else components (stripped s)) \<and>
    DirName ''//a'' = ''//'' \<and> DirName ''///a'' = ''//'' \<and> DirName ''////a'' = ''/''"
proof -
  have "DirName (d @ ''a'') = dir_part d" if "last d = sep" "length d < 5" "no_nul d" for d
    using that DirName_name [OF path_at_self [of "''a''" d]] by (simp add: npos_def)
  from this [of "''//''"] this [of "''///''"] this [of "''////''"]
  have "DirName ''//a'' = ''//''" "DirName ''///a'' = ''//''" "DirName ''////a'' = ''/''"
    using stripped_root [of 3] by (simp_all add: dir_part_def is_root_def numeral_3_eq_3)
  moreover have "GetComponents [] = []" by (simp add: GetComponents_def)
  ultimately show ?thesis
    using GetComponents_eq [OF assms] GetComponents_dots [OF assms] by auto
qed

theorem GetComponents_correct_witness:
  "GetComponents ''/srv//notes/'' = [''/'', ''srv'', ''notes'']"
proof -
  have "stripped ''/srv//notes/'' = ''/srv//notes''" using stripped_name [of "''/srv//notes''" "''/''"] by simp
  moreover have "components ''/srv//notes'' = [''/'', ''srv'', ''notes'']"
    by (simp add: components_def root_of_def names_def)
  ultimately show ?thesis using GetComponents_correct [of "''/srv//notes/''"] by (simp add: npos_def)
qed


lemma path_at_set:
  assumes "path_at s d n"
  shows "set n \<subseteq> set s" "s \<noteq> []"
proof -
  have "set (d @ n) \<subseteq> set s" using assms stripped_take [of s] set_take_subset [of _ s] by (metis path_at_def)
  then show "set n \<subseteq> set s" "s \<noteq> []" using assms by (auto simp: path_at_def)
qed

lemma joined_components:
  assumes "path_at s d n" "length s + 1 < npos" "dir_part d \<noteq> ''.''" "no_nul s"
  shows "GetComponents (joined (dir_part d) n) = GetComponents s"
proof -
  have n: "stripped s = d @ n" "n \<noteq> []" "sep \<notin> set n" using assms(1) by (auto simp: path_at_def)
  have d: "d \<noteq> []" using assms(3) by (auto simp: dir_part_def)
  note sh = dir_part_shorter [OF assms(1) d]
  note z = path_at_nul [OF assms(1,4)]
  have nd: "d @ n \<noteq> ''.''" using path_at_dot [OF assms(1) d] .
  have "length (dir_part d) \<le> length d" using length_stripped [of "butlast d"] d by (auto simp: dir_part_def)
  moreover have "length d + length n \<le> length s" using length_stripped [of s] n(1) by simp
  ultimately have "length (dir_part d) + length n + 1 < npos" using assms(2) by linarith
  then have "GetComponents (joined (dir_part d) n) = GetComponents (dir_part d) @ [n]"
    using n sh(2) assms(3) z by (intro GetComponents_joined) (auto simp: dir_part_stripped)
  also have "GetComponents (dir_part d) = components (dir_part d)"
    using GetComponents_eq [of "dir_part d"] sh assms(2,3) z by (simp add: dir_part_stripped)
  also have "components (dir_part d) @ [n] = components (stripped s)" using components_name [OF assms(1) nd] n(1) by simp
  also have "\<dots> = GetComponents s" using GetComponents_eq [of s] nd n assms(2,4) path_at_set [OF assms(1)] by simp
  finally show ?thesis .
qed

lemma joined_same:
  assumes "path_at s d n" "dir_part d \<noteq> ''.'' \<or> d = []" "d = [] \<or> is_root d \<or> (\<exists>p c. d = p @ [c, sep] \<and> c \<noteq> sep)"
  shows "joined (dir_part d) n = stripped s"
  using assms(3)
proof (elim disjE exE conjE)
  assume "is_root d"
  then show ?thesis using assms(1) by (auto simp: joined_def dir_part_def is_root_def path_at_def)
next
  fix q c assume d: "d = q @ [c, sep]" "c \<noteq> sep"
  then have b: "stripped (q @ [c]) = q @ [c]" using stripped_name [of "q @ [c]" "[]"] by simp
  then have "dir_part d = q @ [c]" using d by (auto simp: dir_part_def is_root_def append_eq_Cons_conv butlast_append)
  then show ?thesis using assms(1,2) b d by (auto simp: joined_def path_at_def)
qed (use assms(1) in \<open>simp add: joined_def dir_part_def path_at_def\<close>)

text \<open>
  A path is its directory and its base name. For every path with a name in it that does not start with
  \<^verbatim>\<open>./\<close>, appending the base name to the directory passes the check of \<open>Append\<close> and gives a path with the
  same components, and the same path up to trailing separators if the name follows a single separator or
  the root.
\<close>

theorem path_recompose:
  assumes "length s + 1 < npos" "no_nul s" "names s \<noteq> []" "stripped s = ''.'' \<longrightarrow> s = ''.''"
    "DirName s = ''.'' \<longrightarrow> sep \<notin> set (stripped s)"
  shows "\<exists>r. Append (DirName s) (BaseName s) = Inr r \<and> GetComponents r = GetComponents s \<and>
    (\<forall>d. stripped s = d @ BaseName s \<and> (d = [] \<or> is_root d \<or> (\<exists>p c. d = p @ [c, sep] \<and> c \<noteq> sep)) \<longrightarrow> r = stripped s)"
proof -
  have "\<not> is_root (stripped s)"
    using assms(3) names_stripped [of s] by (auto simp: is_root_def names_all_sep)
  then obtain d n where p: "path_at s d n"
    using assms(3) by (cases s rule: path_cases) (auto simp: names_simps)
  have len: "length s < npos" using assms(1) by simp
  have D: "DirName s = dir_part d" "BaseName s = n" using DirName_name [OF p len assms(2)] BaseName_name [OF p len assms(2)] by auto
  have n: "stripped s = d @ n" "n \<noteq> []" "sep \<notin> set n" "d = [] \<or> last d = sep" using p by (auto simp: path_at_def)
  have dd: "dir_part d \<noteq> ''.'' \<or> d = []" using assms(5) D(1) n(1,4) by (cases d rule: rev_cases) auto
  have "hd n \<noteq> sep" using n by (auto dest: hd_in_set)
  then have A: "Append (DirName s) (BaseName s) = Inr (joined (dir_part d) n)"
    using path_at_nul [OF p assms(2)] D by (auto intro!: Append_eq)
  have "GetComponents (joined (dir_part d) n) = GetComponents s"
  proof (cases "d = []")
    case True
    then have "joined (dir_part d) n = stripped s" using joined_same [OF p dd] by blast
    moreover have "s \<noteq> []" "stripped s \<noteq> []" "length (stripped s) < npos"
      using path_at_set [OF p] n len length_stripped [of s] by auto
    ultimately show ?thesis using GetComponents_eq [of s] GetComponents_eq [of "stripped s"] len assms(2,4) stripped_set [of s]
      by (cases "s = ''.''") auto
  qed (use joined_components [OF p assms(1) _ assms(2)] dd in blast)
  with A joined_same [OF p dd] n D show ?thesis by auto
qed

theorem path_recompose_witness:
  "Append (DirName ''/srv/notes/'') (BaseName ''/srv/notes/'') = Inr ''/srv/notes''"
proof -
  have s: "stripped ''/srv/notes/'' = ''/srv/notes''" using stripped_name [of "''/srv/notes''" "''/''"] by simp
  then have p: "path_at ''/srv/notes/'' ''/srv/'' ''notes''" by (simp add: path_at_def)
  then have b: "BaseName ''/srv/notes/'' = ''notes''" "DirName ''/srv/notes/'' = ''/srv''"
    using BaseName_name [OF p] DirName_name [OF p] stripped_name [of "''/srv''" "[]"]
    by (simp_all add: npos_def dir_part_def is_root_def)
  have "names ''/srv/notes/'' \<noteq> []" by (simp add: names_def)
  moreover have "''/srv/'' = ''/sr'' @ [CHR ''v'', sep] \<and> CHR ''v'' \<noteq> sep" by simp
  ultimately show ?thesis using path_recompose [of "''/srv/notes/''"] s b
    by (fastforce simp: npos_def)
qed

text \<open>
  The extension and the rest. For every path that does not end in a separator, \<open>RemoveExtension\<close>
  followed by \<open>Extension\<close> is the path, as base/files/file_path.h says of every path, double extensions
  included; behind a trailing separator it is not so.
\<close>

theorem extension_correct:
  assumes "length s < npos" "no_nul s" "\<not> EndsWithSeparator s"
  shows "RemoveExtension s @ Extension s = s \<and> RemoveExtension ''a.b/'' @ Extension ''a.b/'' = ''a.b''"
proof -
  have "RemoveExtension s @ Extension s = s"
  proof (cases s rule: path_cases)
    case empty
    then show ?thesis by (simp add: RemoveExtension_def Extension_def BaseName_empty ExtensionSeparatorPosition_def
          FinalExtensionSeparatorPosition_def std_string_rfind_char_def kCurrentDirectory_def kParentDirectory_def)
  next
    case root
    then have "last s = sep" using last_in_set [of s] by (auto simp: all_sep_def list_all_iff)
    with assms(3) root show ?thesis by (simp add: EndsWithSeparator_def last_conv_nth)
  next
    case (name d n)
    then have "s \<noteq> []" by (auto simp: path_at_def)
    with assms(3) have "last s \<noteq> sep" by (simp add: EndsWithSeparator_def last_conv_nth)
    with stripped_name [of s "[]"] \<open>s \<noteq> []\<close> have "stripped s = s" by simp
    with name assms show ?thesis by (intro extension_recompose)
  qed
  moreover have "RemoveExtension ''a.b/'' @ Extension ''a.b/'' = ''a.b''"
  proof -
    have p: "path_at ''a.b/'' [] ''a.b''" using stripped_name [of "''a.b''" "''/''"] by (simp add: path_at_def)
    have pos: "ExtensionSeparatorPosition s = Some 1" if "s = ''a.b'' \<or> s = ''a.b/''" for s
    proof -
      have "std_string_rfind_char s dot npos = Some 1" "std_string_rfind_char s dot 0 = None"
        using that rfind_split [of dot "''b''" "''a''" npos] rfind_split [of dot "''b/''" "''a''" npos] rfind_None [of dot 0 s]
        by (auto simp: npos_def)
      moreover have "s \<noteq> kCurrentDirectory" "s \<noteq> kParentDirectory"
        using that by (auto simp: kCurrentDirectory_def kParentDirectory_def)
      ultimately show ?thesis by (simp add: ExtensionSeparatorPosition_def FinalExtensionSeparatorPosition_def kExtensionSeparator_def)
    qed
    show ?thesis using Extension_name [OF p] pos [of "''a.b''"] pos [of "''a.b/''"]
      by (simp add: RemoveExtension_def npos_def FilePath_id)
  qed
  ultimately show ?thesis by blast
qed

theorem extension_correct_witness:
  "RemoveExtension ''/srv/page.tar.gz'' @ Extension ''/srv/page.tar.gz'' = ''/srv/page.tar.gz''"
  using extension_correct [of "''/srv/page.tar.gz''"] by (simp add: npos_def EndsWithSeparator_def)

lemma GetComponents_tail:
  assumes "length s < npos" "no_nul s" "GetComponents s = xs @ rest" "xs \<noteq> []"
  shows "\<forall>c \<in> set rest. c \<noteq> [] \<and> sep \<notin> set c \<and> set c \<subseteq> set s"
proof (cases "s = [] \<or> stripped s = ''.'' \<and> s \<noteq> ''.''")
  case True
  then have "length (GetComponents s) \<le> 1"
    using GetComponents_dots [OF assms(1,2)] by (cases "s = []") (auto simp: GetComponents_loop)
  then have "rest = []" using assms(3,4) by (cases xs) auto
  then show ?thesis by simp
next
  case False
  then have "components (stripped s) = xs @ rest" using GetComponents_eq [OF assms(1,2)] assms(3) by auto
  then show ?thesis using stripped_set [of s] components_tail [of "stripped s" xs rest] assms(4) by blast
qed

text \<open>
  C35. Being a parent is having a proper, non-empty prefix of the components. \<open>IsParent\<close> never fails a
  check and says just that; \<open>AppendRelativePath\<close> then extends the given path, unless it is empty or the
  current directory, by the components that the child has more, and otherwise leaves it alone.
\<close>

theorem AppendRelativePath_correct:
  assumes "length child < npos" "no_nul child" "path \<noteq> []" "stripped path \<noteq> ''.''" "no_nul path"
    "length path + sum_list (map (\<lambda>c. length c + 1) (GetComponents child)) < npos"
  shows "IsParent self child = Inr (GetComponents self \<noteq> [] \<and> strict_prefix (GetComponents self) (GetComponents child)) \<and>
    (\<exists>r. AppendRelativePath self child (Some path) =
        Inr (GetComponents self \<noteq> [] \<and> strict_prefix (GetComponents self) (GetComponents child), Some r) \<and>
      (if GetComponents self \<noteq> [] \<and> strict_prefix (GetComponents self) (GetComponents child)
       then GetComponents child = GetComponents self @ drop (length (GetComponents path)) (GetComponents r) \<and>
         prefix (GetComponents path) (GetComponents r)
       else r = path))"
proof (cases "GetComponents self \<noteq> [] \<and> strict_prefix (GetComponents self) (GetComponents child)")
  case True
  then obtain rest where r: "GetComponents child = GetComponents self @ rest" "rest \<noteq> []"
    by (auto simp: strict_prefix_def prefix_def)
  then have len: "\<not> length (GetComponents self) \<ge> length (GetComponents child)" by (cases rest) auto
  have "\<forall>c \<in> set rest. c \<noteq> [] \<and> sep \<notin> set c \<and> no_nul c"
    using GetComponents_tail [OF assms(1,2) r(1)] True assms(2) by blast
  moreover have "length path + sum_list (map (\<lambda>c. length c + 1) rest) < npos"
    using assms(6) r(1) by simp
  ultimately obtain p where "append_components path rest = Inr p" "GetComponents p = GetComponents path @ rest"
    using append_components_eq [OF assms(4,3)] assms(5) by blast
  with True len r(1) show ?thesis
    by (simp add: IsParent_def AppendRelativePath_def skip_parent_eq Let_def)
next
  case False
  then have "GetComponents self = [] \<or> length (GetComponents self) \<ge> length (GetComponents child) \<or>
      \<not> prefix (GetComponents self) (GetComponents child)"
    by (auto simp: strict_prefix_def)
  then show ?thesis using False
    by (auto simp: IsParent_def AppendRelativePath_def skip_parent_eq Let_def)
qed

theorem AppendRelativePath_correct_witness:
  "\<exists>r. AppendRelativePath ''/srv'' ''/srv/notes'' (Some ''/tmp'') = Inr (True, Some r) \<and>
     prefix (GetComponents ''/tmp'') (GetComponents r)"
proof -
  have "stripped ''/srv/notes'' = ''/srv/notes''" "stripped ''/srv'' = ''/srv''" "stripped ''/tmp'' = ''/tmp''"
    using stripped_name [of "''/srv/notes''" "[]"] stripped_name [of "''/srv''" "[]"] stripped_name [of "''/tmp''" "[]"]
    by simp_all
  moreover from this have "GetComponents ''/srv/notes'' = [''/'', ''srv'', ''notes'']" "GetComponents ''/srv'' = [''/'', ''srv'']"
    using GetComponents_eq [of "''/srv/notes''"] GetComponents_eq [of "''/srv''"]
    by (simp_all add: npos_def components_def root_of_def names_def)
  moreover have "strict_prefix [''/'', ''srv''] [''/'', ''srv'', ''notes'']" by (simp add: strict_prefix_def)
  ultimately show ?thesis using AppendRelativePath_correct [of "''/srv/notes''" "''/tmp''" "''/srv''"]
    by (auto simp: npos_def)
qed

text \<open>A path without a zero byte is read back from a pickle.\<close>

lemma path_bytes: "map (\<lambda>b. char_of (unat b)) (map (of_char :: char \<Rightarrow> byte) s) = s"
proof -
  have "unat (of_char c :: byte) = (of_char c :: nat)" for c :: char
  proof -
    have "unat (of_nat (of_char c) :: byte) = (of_char c :: nat)"
      by (simp only: unsigned_of_nat) (simp add: take_bit_nat_eq_self)
    then show ?thesis by (simp only: of_nat_of_char)
  qed
  then show ?thesis by (simp add: comp_def)
qed

lemma path_pickle_roundtrip:
  assumes "\<forall>n. alloc n" "pickle_rep p hs bs" "no_nul s" "length s < 2 ^ 31" "length bs + length s + 8 < 2 ^ 32"
  shows "\<exists>p'. WriteToPickle alloc s p = Inr (True, p') \<and> pickle_rep p' hs (bs @ enc (VString (map of_char s)))"
    and "it_before it (enc (VString (map of_char s)) @ rest) \<Longrightarrow>
      \<exists>it'. ReadFromPickle path it = Inr (True, s, it') \<and> it_before it' rest"
proof -
  let ?v = "VString (map of_char s)"
  have "length (enc ?v) \<le> length s + 7" by (simp add: enc_sized_def length_pad4)
  then have "length bs + length (enc ?v) < 2 ^ 32" using assms(5) by linarith
  then show "\<exists>p'. WriteToPickle alloc s p = Inr (True, p') \<and> pickle_rep p' hs (bs @ enc ?v)"
    using write_value_appends [OF assms(2,1), of ?v] assms(4) by (simp add: WriteToPickle_def)
  show "\<exists>it'. ReadFromPickle path it = Inr (True, s, it') \<and> it_before it' rest" if "it_before it (enc ?v @ rest)"
  proof -
    have "it_before it (enc_sized (int (length (map (of_char :: char \<Rightarrow> byte) s))) (map of_char s) @ rest)"
      using that by simp
    from ReadString_step [OF this] assms(4)
    obtain it' where "ReadString it = Inr (Some (map of_char s), it')" "it_before it' rest" by auto
    then show ?thesis using path_bytes [of s] assms(3) by (simp add: ReadFromPickle_def find_char_nul Let_def)
  qed
qed



section \<open>The invariant of the class\<close>

lemma DirName_no_nul: "no_nul (DirName s)"
proof -
  let ?s = "FilePath s"
  note z = FilePath_sub(2) [of s]
  have sub: "no_nul (stripped (take k (stripped ?s)))" for k
    using stripped_set [of "take k (stripped ?s)"] stripped_set [of ?s] z by (auto dest: in_set_takeD)
  have "no_nul (stripped [])" using stripped_set [of "[]"] by auto
  with sub [of 1] sub [of 2] sub show ?thesis
    unfolding DirName_copy(1) [of s, symmetric] DirName_unfold [OF z] Let_def
    by (cases "std_string_rfind_char (stripped ?s) sep npos") simp_all
qed

lemma BaseName_no_nul: "no_nul (BaseName s)"
proof -
  note z = FilePath_sub(2) [of s]
  have "no_nul (stripped (FilePath s))" using stripped_set [of "FilePath s"] z by blast
  then show ?thesis
    unfolding DirName_copy(2) [of s, symmetric] BaseName_unfold [OF z]
    by (auto split: option.splits dest: in_set_dropD)
qed

lemma find_char_nul_cases:
  obtains "find_char s (CHR 0x00) 0 = None" "no_nul s" |
    a b where "s = a @ CHR 0x00 # b" "no_nul a" "find_char s (CHR 0x00) 0 = Some (length a)"
proof (cases "no_nul s")
  case False
  then obtain a b where "s = a @ CHR 0x00 # b" "no_nul a" using split_list_first [of "CHR 0x00" s] by auto
  then show ?thesis using that(2) [of a b] find_char_split [of "CHR 0x00" a b] by simp
qed (use that(1) find_char_nul in simp)

lemma appended_no_nul:
  "no_nul (case find_char c (CHR 0x00) 0 of None \<Rightarrow> c | Some nul_pos \<Rightarrow> CopyToString (substr c 0 nul_pos) [])"
  by (cases c rule: find_char_nul_cases) (auto simp: substr_def CopyToString_def)

lemma strip_no_nul: "no_nul (StripTrailingSeparatorsInternal (FilePath s))"
  using stripped_set [of "FilePath s"] FilePath_sub(2) [of s] by (auto simp: Strip_eq)

lemma Append_no_nul:
  assumes "Append p c = Inr r"
  shows "no_nul r"
proof -
  let ?a = "case find_char c (CHR 0x00) 0 of None \<Rightarrow> c | Some nul_pos \<Rightarrow> CopyToString (substr c 0 nul_pos) []"
  have "r = FilePath ?a \<or> set r \<subseteq> set (StripTrailingSeparatorsInternal (FilePath p)) \<union> {sep} \<union> set ?a"
    using assms unfolding Append_def Let_def
    by (simp add: bind_result_Inr_iff AppendToString_def kSeparators_def split: if_splits) auto
  then show ?thesis using appended_no_nul [of c] strip_no_nul [of p] FilePath_sub(2) [of ?a] by auto
qed

lemma components_loop_no_nul:
  assumes "\<forall>c \<in> set ret. no_nul c"
  shows "\<forall>c \<in> set (fst (components_loop s ret)). no_nul c"
  using assms
proof (induction s ret rule: components_loop.induct)
  case (1 s ret)
  show ?case
  proof (cases "s = DirName s")
    case False
    have "\<forall>c \<in> set (if \<not> AreAllSeparators (BaseName s) then ret @ [BaseName s] else ret). no_nul c"
      using 1(2) BaseName_no_nul [of s] by simp
    from 1(1) [OF False refl this] show ?thesis using False by (simp add: components_loop.simps [of s ret] Let_def)
  qed (use 1(2) in \<open>simp add: components_loop.simps [of s ret]\<close>)
qed

lemma GetComponents_no_nul: "c \<in> set (GetComponents s) \<Longrightarrow> no_nul c"
  using components_loop_no_nul [of "[]" s] BaseName_no_nul
  by (cases "components_loop s []") (auto simp: GetComponents_loop loop_components_def split: if_splits)

lemma append_components_no_nul: "append_components p cs = Inr r \<Longrightarrow> no_nul p \<Longrightarrow> no_nul r"
proof (induction cs arbitrary: p)
  case (Cons c cs)
  then show ?case using Append_no_nul [of p c] by (auto simp: bind_result_Inr_iff)
qed simp

lemma FilePath_no_nul [simp]: "CHR 0x00 \<in> set (FilePath s) \<longleftrightarrow> False"
  using FilePath_sub(2) by simp

text \<open>
  C36. The invariant of the class: a path holds no zero byte, so that the kernel sees all of it. The
  constructor, \<open>DirName\<close>, \<open>BaseName\<close> and \<open>Append\<close> establish it whatever they are given, every other
  operation that makes a path keeps it, and the components have it. \<open>ReadFromPickle\<close> establishes it when it
  succeeds and keeps it when the pickle has no string; when it refuses a string for its zero byte, the
  string is in the path already.
\<close>

theorem path_invariant:
  assumes "no_nul s"
  shows "no_nul (FilePath t) \<and> no_nul (DirName t) \<and> no_nul (BaseName t) \<and> no_nul (StripTrailingSeparators t) \<and>
    (\<forall>c r. Append t c = Inr r \<longrightarrow> no_nul r) \<and> (\<forall>c \<in> set (GetComponents t). no_nul c) \<and>
    no_nul (AsEndingWithSeparator s) \<and> no_nul (NormalizePathSeparators s) \<and>
    no_nul (RemoveExtension s) \<and> no_nul (RemoveFinalExtension s) \<and>
    (\<forall>e. no_nul (InsertBeforeExtension s e) \<and> no_nul (AddExtension s e) \<and> no_nul (ReplaceExtension s e)) \<and>
    (\<forall>self child b r. AppendRelativePath self child (Some s) = Inr (b, r) \<longrightarrow> (\<exists>q. r = Some q \<and> no_nul q)) \<and>
    (\<forall>it b q it'. ReadFromPickle s it = Inr (b, q, it') \<longrightarrow> (if b then no_nul q else q = s \<or> \<not> no_nul q))"
proof (intro conjI allI impI)
  show "no_nul (FilePath t)" "no_nul (DirName t)" "no_nul (BaseName t)" "no_nul (StripTrailingSeparators t)"
    "\<forall>c \<in> set (GetComponents t). no_nul c"
    using DirName_no_nul BaseName_no_nul strip_no_nul GetComponents_no_nul
    by (auto simp: StripTrailingSeparators_def)
  show "no_nul r" if "Append t c = Inr r" for c r using that by (rule Append_no_nul)
  show "no_nul (AsEndingWithSeparator s)" "no_nul (NormalizePathSeparators s)"
    using assms by (simp_all add: AsEndingWithSeparator_def NormalizePathSeparators_def NormalizePathSeparatorsTo_def)
  have ext: "no_nul (RemoveExtension s)" using assms by (simp add: RemoveExtension_def split: option.split)
  then show "no_nul (RemoveExtension s)" .
  show "no_nul (RemoveFinalExtension s)" using assms by (simp add: RemoveFinalExtension_def split: option.split)
  show "no_nul (InsertBeforeExtension s e)" "no_nul (AddExtension s e)" "no_nul (ReplaceExtension s e)" for e
    using assms ext by (simp_all add: InsertBeforeExtension_def AddExtension_def ReplaceExtension_def Let_def)
  show "\<exists>q. r = Some q \<and> no_nul q" if "AppendRelativePath self child (Some s) = Inr (b, r)" for self child b r
    using that assms append_components_no_nul
    by (auto simp: AppendRelativePath_def Let_def bind_result_Inr_iff split: if_splits option.splits)
  show "if b then no_nul q else q = s \<or> \<not> no_nul q" if "ReadFromPickle s it = Inr (b, q, it')" for it b q it'
    using that find_char_nul
    by (cases q rule: find_char_nul_cases)
      (auto simp: ReadFromPickle_def bind_result_Inr_iff Let_def split: option.splits)
qed

theorem path_invariant_witness:
  "no_nul ''/srv/page.png'' \<and> no_nul (ReplaceExtension ''/srv/page.png'' (''gif'' @ [CHR 0x00] @ ''x''))"
  using path_invariant [of "''/srv/page.png''"] by simp

end
