(* ===== verification/Utf.thy ===== *)
theory Utf
  imports String_Replace
begin

text \<open>
  The coding of single Unicode characters: base/third_party/icu/icu_utf.h and icu_utf.cc, the in-tree
  macros of ICU, and base/strings/utf_string_conversion_utils.h and .cc. A macro is a definition; one
  that assigns to its arguments returns their new values. Code points are \<^typ>\<open>int\<close>, since the macros use
  \<^verbatim>\<open>int32_t\<close> with a negative sentinel; \<open>u8\<close> and \<open>u32\<close> are the casts to unsigned types. Positions are
  \<^typ>\<open>int\<close> as well. A read or a write outside a string is \<^const>\<open>Out_Of_Bounds\<close>. On the target
  \<^verbatim>\<open>wchar_t\<close> is a signed 32-bit type, here \<^typ>\<open>32 word\<close>.
\<close>

unbundle bit_operations_syntax

section \<open>Casts and memory\<close>

definition u8 :: "int \<Rightarrow> int" where "u8 c = c mod 2 ^ 8"

definition u16 :: "int \<Rightarrow> int" where "u16 c = c mod 2 ^ 16"

definition u32 :: "int \<Rightarrow> int" where "u32 c = c mod 2 ^ 32"

definition val32 :: "32 word \<Rightarrow> int" where "val32 w = sint w"

definition mk32 :: "int \<Rightarrow> 32 word" where "mk32 i = word_of_int i"

definition elem_at :: "'c list \<Rightarrow> int \<Rightarrow> 'c result" where
  "elem_at s i = (if 0 \<le> i \<and> i < int (length s) then Inr (s ! nat i) else Inl Out_Of_Bounds)"

text \<open>A byte read through a \<^verbatim>\<open>const uint8_t*\<close>.\<close>

definition byte_at :: "string \<Rightarrow> int \<Rightarrow> int result" where
  "byte_at s i = bind_result (elem_at s i) (\<lambda>c. Inr (u8 (val8 c)))"

definition store :: "'c list \<Rightarrow> nat \<Rightarrow> 'c \<Rightarrow> 'c list result" where
  "store s i x = (if i < length s then Inr (s[i := x]) else Inl Out_Of_Bounds)"

section \<open>The macros of ICU\<close>

definition CBU_SENTINEL :: int where "CBU_SENTINEL = - 1"

definition CBUTF8_ERROR_VALUE_1 :: int where "CBUTF8_ERROR_VALUE_1 = 0x15"

definition CBUTF8_ERROR_VALUE_2 :: int where "CBUTF8_ERROR_VALUE_2 = 0x9f"

definition CBUTF_ERROR_VALUE :: int where "CBUTF_ERROR_VALUE = 0xffff"

definition CBU_IS_UNICODE_NONCHAR :: "int \<Rightarrow> bool" where
  "CBU_IS_UNICODE_NONCHAR c \<longleftrightarrow>
     c \<ge> 0xfdd0 \<and> (u32 c \<le> 0xfdef \<or> c AND 0xfffe = 0xfffe) \<and> u32 c \<le> 0x10ffff"

definition CBU_IS_SURROGATE :: "int \<Rightarrow> bool" where
  "CBU_IS_SURROGATE c \<longleftrightarrow> u32 c AND 0xfffff800 = 0xd800"

definition CBU16_IS_SURROGATE_LEAD :: "int \<Rightarrow> bool" where
  "CBU16_IS_SURROGATE_LEAD c \<longleftrightarrow> c AND 0x400 = 0"

definition CBU16_IS_TRAIL :: "int \<Rightarrow> bool" where
  "CBU16_IS_TRAIL c \<longleftrightarrow> u32 c AND 0xfffffc00 = 0xdc00"

definition utf8_countTrailBytes :: "nat list" where
  "utf8_countTrailBytes = replicate 192 0 @ replicate 32 1 @ replicate 16 2 @ replicate 8 3 @
     replicate 4 4 @ replicate 2 5 @ replicate 2 0"

definition utf8_minLegal :: "int list" where
  "utf8_minLegal = [0, 0x80, 0x800, 0x10000]"

definition utf8_errorValue :: "int list" where
  "utf8_errorValue = [CBUTF8_ERROR_VALUE_1, CBUTF8_ERROR_VALUE_2, CBUTF_ERROR_VALUE, 0x10ffff, 0x3ffffff, 0x7fffffff]"

definition CBU8_COUNT_TRAIL_BYTES :: "int \<Rightarrow> nat" where
  "CBU8_COUNT_TRAIL_BYTES leadByte = utf8_countTrailBytes ! nat (u8 leadByte)"

definition CBU8_MASK_LEAD_BYTE :: "int \<Rightarrow> nat \<Rightarrow> int" where
  "CBU8_MASK_LEAD_BYTE leadByte countTrailBytes = leadByte AND (push_bit (6 - countTrailBytes) 1 - 1)"

definition CBU8_IS_LEAD :: "int \<Rightarrow> bool" where
  "CBU8_IS_LEAD c \<longleftrightarrow> u8 (c - 0xc0) < 0x3e"

definition CBU8_IS_TRAIL :: "int \<Rightarrow> bool" where
  "CBU8_IS_TRAIL c \<longleftrightarrow> c AND 0xc0 = 0x80"

definition CBU8_MAX_LENGTH :: nat where "CBU8_MAX_LENGTH = 4"

section \<open>Reading UTF-8\<close>

text \<open>
  One trail byte of the switch in \<^verbatim>\<open>utf8_nextCharSafeBody\<close>: the new position, the code point with the
  byte's six bits, and what is not right about the byte.
\<close>

definition next_trail :: "string \<Rightarrow> int \<Rightarrow> int \<Rightarrow> (int \<times> int \<times> int) result" where
  "next_trail s i c =
     bind_result (byte_at s i) (\<lambda>trail. Inr (i + 1, push_bit 6 c OR (trail AND 0x3f), (trail AND 0xc0) XOR 0x80))"

text \<open>The cases 2 and 1 of the switch, from the number of trail bytes that are left.\<close>

fun last_trails :: "string \<Rightarrow> nat \<Rightarrow> int \<times> int \<times> int \<Rightarrow> (int \<times> int \<times> int) result" where
  "last_trails s 0 (i, c, illegal) = Inr (i, c, illegal)"
| "last_trails s (Suc n) (i, c, illegal) =
     bind_result (next_trail s i c) (\<lambda>(i, c, bad). last_trails s n (i, c, illegal OR bad))"

text \<open>The switch, for a count that is not zero; each case falls through to the next one.\<close>

definition trail_switch :: "string \<Rightarrow> nat \<Rightarrow> int \<Rightarrow> int \<Rightarrow> (int \<times> int \<times> int) result" where
  "trail_switch s cnt i c =
     (if cnt = 5 \<or> cnt = 4 then Inr (i, c, 1)
      else if cnt = 3 then
        bind_result (next_trail s i c) (\<lambda>(i, c, bad).
          if c < 0x110 then last_trails s 2 (i, c, 0 OR bad) else Inr (i, c, 1))
      else last_trails s cnt (i, c, 0))"

text \<open>The two loops over trail bytes behind an illegal sequence.\<close>

fun skip_trails :: "string \<Rightarrow> int \<Rightarrow> nat \<Rightarrow> (int \<times> nat) result" where
  "skip_trails s i 0 = Inr (i, 0)"
| "skip_trails s i (Suc cnt) =
     bind_result (byte_at s i) (\<lambda>b. if CBU8_IS_TRAIL b then skip_trails s (i + 1) cnt else Inr (i, Suc cnt))"

function skip_trails_to :: "string \<Rightarrow> int \<Rightarrow> int \<Rightarrow> int result" where
  "skip_trails_to s i len =
     (if i < len then
        bind_result (byte_at s i) (\<lambda>b. if CBU8_IS_TRAIL b then skip_trails_to s (i + 1) len else Inr i)
      else Inr i)"
  by pat_completeness auto
termination by (relation "measure (\<lambda>(s, i, len). nat (len - i))") auto

declare skip_trails_to.simps [simp del]

definition utf8_nextCharSafeBody :: "string \<Rightarrow> int \<Rightarrow> int \<Rightarrow> int \<Rightarrow> int \<Rightarrow> (int \<times> int) result" where
  "utf8_nextCharSafeBody s pos len c strict =
     (let i = pos; cnt = CBU8_COUNT_TRAIL_BYTES c in
      if i + int cnt \<le> len then
        let c = CBU8_MASK_LEAD_BYTE c cnt in
        if cnt = 0 then Inr (if strict \<ge> 0 then CBUTF8_ERROR_VALUE_1 else CBU_SENTINEL, pos)
        else bind_result (trail_switch s cnt i c) (\<lambda>(i, c, illegal).
          if illegal \<noteq> 0 \<or> c < utf8_minLegal ! cnt \<or> (CBU_IS_SURROGATE c \<and> strict \<noteq> - 2) then
            bind_result (skip_trails s pos cnt) (\<lambda>(i, left).
              Inr (if strict \<ge> 0 then utf8_errorValue ! (cnt - left) else CBU_SENTINEL, i))
          else if strict > 0 \<and> CBU_IS_UNICODE_NONCHAR c then Inr (utf8_errorValue ! cnt, i)
          else Inr (c, i))
      else
        bind_result (skip_trails_to s i len) (\<lambda>j.
          Inr (if strict \<ge> 0 then utf8_errorValue ! nat (j - i) else CBU_SENTINEL, j)))"

text \<open>The macro reads through a \<^verbatim>\<open>const char*\<close>, so that \<open>c\<close> starts as a sign-extended byte.\<close>

definition CBU8_NEXT :: "string \<Rightarrow> int \<Rightarrow> int \<Rightarrow> (int \<times> int) result" where
  "CBU8_NEXT s i len =
     bind_result (elem_at s i) (\<lambda>ch.
       let c = val8 ch; i = i + 1 in
       if u8 c \<ge> 0x80 then
         if CBU8_IS_LEAD c then utf8_nextCharSafeBody s i len c (- 1) else Inr (CBU_SENTINEL, i)
       else Inr (c, i))"

section \<open>Writing UTF-8 and UTF-16\<close>

definition CBU8_APPEND_UNSAFE :: "string \<Rightarrow> nat \<Rightarrow> int \<Rightarrow> (string \<times> nat) result" where
  "CBU8_APPEND_UNSAFE s i c =
     (if u32 c \<le> 0x7f then bind_result (store s i (mk8 (u8 c))) (\<lambda>s. Inr (s, i + 1))
      else bind_result
        (if u32 c \<le> 0x7ff then bind_result (store s i (mk8 (u8 (drop_bit 6 c OR 0xc0)))) (\<lambda>s. Inr (s, i + 1))
         else bind_result
           (if u32 c \<le> 0xffff then bind_result (store s i (mk8 (u8 (drop_bit 12 c OR 0xe0)))) (\<lambda>s. Inr (s, i + 1))
            else bind_result (store s i (mk8 (u8 (drop_bit 18 c OR 0xf0)))) (\<lambda>s.
                 bind_result (store s (i + 1) (mk8 (u8 ((drop_bit 12 c AND 0x3f) OR 0x80)))) (\<lambda>s. Inr (s, i + 2))))
           (\<lambda>(s, i). bind_result (store s i (mk8 (u8 ((drop_bit 6 c AND 0x3f) OR 0x80)))) (\<lambda>s. Inr (s, i + 1))))
        (\<lambda>(s, i). bind_result (store s i (mk8 (u8 ((c AND 0x3f) OR 0x80)))) (\<lambda>s. Inr (s, i + 1))))"

definition CBU16_SURROGATE_OFFSET :: int where
  "CBU16_SURROGATE_OFFSET = push_bit 10 0xd800 + 0xdc00 - 0x10000"

definition CBU16_GET_SUPPLEMENTARY :: "int \<Rightarrow> int \<Rightarrow> int" where
  "CBU16_GET_SUPPLEMENTARY lead trail = push_bit 10 lead + trail - CBU16_SURROGATE_OFFSET"

definition CBU16_LENGTH :: "int \<Rightarrow> nat" where
  "CBU16_LENGTH c = (if u32 c \<le> 0xffff then 1 else 2)"

definition CBU16_MAX_LENGTH :: nat where "CBU16_MAX_LENGTH = 2"

definition CBU16_APPEND_UNSAFE :: "16 word list \<Rightarrow> nat \<Rightarrow> int \<Rightarrow> (16 word list \<times> nat) result" where
  "CBU16_APPEND_UNSAFE s i c =
     (if u32 c \<le> 0xffff then bind_result (store s i (mk16 (u16 c))) (\<lambda>s. Inr (s, i + 1))
      else bind_result (store s i (mk16 (u16 (drop_bit 10 c + 0xd7c0)))) (\<lambda>s.
           bind_result (store s (i + 1) (mk16 (u16 ((c AND 0x3ff) OR 0xdc00)))) (\<lambda>s. Inr (s, i + 2))))"

section \<open>Characters of strings\<close>

definition IsValidCodepoint :: "int \<Rightarrow> bool" where
  "IsValidCodepoint code_point \<longleftrightarrow>
     code_point < 0xD800 \<or> (code_point \<ge> 0xE000 \<and> code_point \<le> 0x10FFFF)"

definition IsValidCharacter :: "int \<Rightarrow> bool" where
  "IsValidCharacter code_point \<longleftrightarrow>
     code_point < 0xD800 \<or> (code_point \<ge> 0xE000 \<and> code_point < 0xFDD0) \<or>
     (code_point > 0xFDEF \<and> code_point \<le> 0x10FFFF \<and> code_point AND 0xFFFE \<noteq> 0xFFFE)"

text \<open>
  A reader returns the position of the last unit it has consumed and the code point, \<^const>\<open>None\<close> for the
  result false: callers do not look at the code point then.
\<close>

definition ReadUnicodeCharacter8 :: "string \<Rightarrow> int \<Rightarrow> int \<Rightarrow> (int \<times> int option) result" where
  "ReadUnicodeCharacter8 src src_len char_index =
     bind_result (CBU8_NEXT src char_index src_len) (\<lambda>(code_point, char_index).
       Inr (char_index - 1, if IsValidCodepoint (u32 code_point) then Some (u32 code_point) else None))"

definition ReadUnicodeCharacter16 :: "16 word list \<Rightarrow> int \<Rightarrow> int \<Rightarrow> (int \<times> int option) result" where
  "ReadUnicodeCharacter16 src src_len char_index =
     bind_result (elem_at src char_index) (\<lambda>u. let unit = val16 u in
       if CBU_IS_SURROGATE unit then
         if \<not> CBU16_IS_SURROGATE_LEAD unit \<or> char_index + 1 \<ge> src_len then Inr (char_index, None)
         else bind_result (elem_at src (char_index + 1)) (\<lambda>t.
           if \<not> CBU16_IS_TRAIL (val16 t) then Inr (char_index, None)
           else let code_point = u32 (CBU16_GET_SUPPLEMENTARY unit (val16 t)) in
             Inr (char_index + 1, if IsValidCodepoint code_point then Some code_point else None))
       else Inr (char_index, if IsValidCodepoint unit then Some unit else None))"

definition ReadUnicodeCharacter32 :: "32 word list \<Rightarrow> int \<Rightarrow> int \<Rightarrow> (int \<times> int option) result" where
  "ReadUnicodeCharacter32 src src_len char_index =
     bind_result (elem_at src char_index) (\<lambda>w. let code_point = u32 (val32 w) in
       Inr (char_index, if IsValidCodepoint code_point then Some code_point else None))"

definition WriteUnicodeCharacter8 :: "int \<Rightarrow> string \<Rightarrow> (nat \<times> string) result" where
  "WriteUnicodeCharacter8 code_point output =
     (if code_point \<le> 0x7f then Inr (1, output @ [mk8 code_point])
      else let original_char_offset = length output;
               output = std_string_resize (CHR 0x00) output (length output + CBU8_MAX_LENGTH)
           in bind_result (CBU8_APPEND_UNSAFE output original_char_offset code_point) (\<lambda>(output, char_offset).
                Inr (char_offset - original_char_offset, std_string_resize (CHR 0x00) output char_offset)))"

definition WriteUnicodeCharacter16 :: "int \<Rightarrow> 16 word list \<Rightarrow> (nat \<times> 16 word list) result" where
  "WriteUnicodeCharacter16 code_point output =
     (if CBU16_LENGTH code_point = 1 then Inr (1, output @ [mk16 code_point])
      else let char_offset = length output;
               output = std_string_resize 0 output (char_offset + CBU16_MAX_LENGTH)
           in bind_result (CBU16_APPEND_UNSAFE output char_offset code_point) (\<lambda>(output, char_offset).
                Inr (CBU16_MAX_LENGTH, output)))"

definition WriteUnicodeCharacter32 :: "int \<Rightarrow> 32 word list \<Rightarrow> (nat \<times> 32 word list) result" where
  "WriteUnicodeCharacter32 code_point output = Inr (1, output @ [mk32 code_point])"

section \<open>Bits as arithmetic\<close>

lemma div_is:
  fixes c k q :: int
  assumes "0 < k"
  shows "c div k = q \<longleftrightarrow> k * q \<le> c \<and> c < k * q + k"
proof
  assume "k * q \<le> c \<and> c < k * q + k"
  then show "c div k = q" by (intro int_div_pos_eq [of c k q "c - k * q"]) auto
next
  assume "c div k = q"
  then have "c = k * q + c mod k" using mult_div_mod_eq [of k c] by simp
  moreover have "0 \<le> c mod k" "c mod k < k" using assms by simp_all
  ultimately show "k * q \<le> c \<and> c < k * q + k" by linarith
qed

lemma or_shift:
  fixes x y :: int
  assumes "0 \<le> y" "y < 2 ^ n"
  shows "push_bit n x OR y = 2 ^ n * x + y"
proof -
  have y: "take_bit n y = y" using assms by (simp add: take_bit_int_eq_self_iff)
  have "push_bit n x AND take_bit n y = 0"
    by (rule bit_eqI) (simp add: bit_and_iff bit_push_bit_iff bit_take_bit_iff)
  then have "push_bit n x + take_bit n y = push_bit n x OR take_bit n y" by (rule disjunctive_add_eq_or)
  then show ?thesis unfolding y by (simp add: push_bit_eq_mult mult.commute)
qed

lemma and_low: "c AND (2 ^ n - 1) = c mod 2 ^ n" for c :: int
  by (metis take_bit_eq_mask mask_eq_exp_minus_1 take_bit_eq_mod)

lemma and_low_numerals:
  fixes c :: int
  shows "c AND 0x3f = c mod 64" "c AND 0x3ff = c mod 1024" "c AND 31 = c mod 32" "c AND 15 = c mod 16" "c AND 7 = c mod 8"
  using and_low [of c 6] and_low [of c 10] and_low [of c 5] and_low [of c 4] and_low [of c 3] by simp_all

lemma and_high:
  fixes c :: int
  assumes "0 \<le> c" "c < 2 ^ (n + m)"
  shows "c AND (2 ^ n * (2 ^ m - 1)) = c - c mod 2 ^ n"
proof -
  have m: "2 ^ n * (2 ^ m - 1) = push_bit n (mask m :: int)"
    by (simp add: mask_eq_exp_minus_1 push_bit_eq_mult mult.commute)
  have "c div 2 ^ n < 2 ^ m"
  proof (rule ccontr)
    assume "\<not> c div 2 ^ n < 2 ^ m"
    then have "2 ^ n * 2 ^ m \<le> 2 ^ n * (c div 2 ^ n)" by (simp add: not_less)
    also have "\<dots> \<le> c" using div_is [of "2 ^ n" c "c div 2 ^ n"] by simp
    finally show False using assms(2) by (simp add: power_add)
  qed
  then have "take_bit m (drop_bit n c) = drop_bit n c"
    using assms(1) by (simp add: take_bit_int_eq_self_iff drop_bit_eq_div pos_imp_zdiv_nonneg_iff)
  moreover have "c AND push_bit n (mask m) = push_bit n (take_bit m (drop_bit n c))"
    by (rule bit_eqI) (auto simp: bit_and_iff bit_push_bit_iff bit_take_bit_iff bit_mask_iff bit_drop_bit_eq)
  ultimately show ?thesis unfolding m
    by (simp add: push_bit_eq_mult drop_bit_eq_div minus_mod_eq_div_mult)
qed

lemma bytes_all:
  assumes "list_all P [0..255]" "0 \<le> t" "t < (256::int)"
  shows "P t"
  using assms by (auto simp: list_all_iff)

lemma trail_bits:
  assumes "0 \<le> t" "t < (256::int)"
  shows "t AND 0xc0 = 0x80 \<longleftrightarrow> 0x80 \<le> t \<and> t < 0xc0" "(t AND 0xc0) XOR 0x80 = 0 \<longleftrightarrow> 0x80 \<le> t \<and> t < 0xc0"
    "0 \<le> (t AND 0xc0) XOR 0x80"
proof -
  have "list_all (\<lambda>t. (t AND 0xc0 = 0x80) = (0x80 \<le> t \<and> t < 0xc0)) [0..255]"
    "list_all (\<lambda>t. ((t AND 0xc0) XOR 0x80 = 0) = (0x80 \<le> t \<and> t < 0xc0)) [0..255]"
    "list_all (\<lambda>t. 0 \<le> (t AND 0xc0) XOR 0x80) [0..255 :: int]"
    by code_simp+
  from this [THEN bytes_all, OF assms]
  show "t AND 0xc0 = 0x80 \<longleftrightarrow> 0x80 \<le> t \<and> t < 0xc0" "(t AND 0xc0) XOR 0x80 = 0 \<longleftrightarrow> 0x80 \<le> t \<and> t < 0xc0"
    "0 \<le> (t AND 0xc0) XOR 0x80" by blast+
qed

lemma surrogate_bits:
  assumes "0 \<le> c" "c < 2 ^ 32"
  shows "CBU_IS_SURROGATE c \<longleftrightarrow> 0xd800 \<le> c \<and> c \<le> 0xdfff" "CBU16_IS_TRAIL c \<longleftrightarrow> 0xdc00 \<le> c \<and> c \<le> 0xdfff"
proof -
  have u: "u32 c = c" using assms by (simp add: u32_def)
  have a: "c AND 0xfffff800 = 2048 * (c div 2048)" "c AND 0xfffffc00 = 1024 * (c div 1024)"
    using and_high [of c 11 21] and_high [of c 10 22] assms by (simp_all add: minus_mod_eq_mult_div)
  show "CBU_IS_SURROGATE c \<longleftrightarrow> 0xd800 \<le> c \<and> c \<le> 0xdfff"
    unfolding CBU_IS_SURROGATE_def u a using div_is [of 2048 c 27] by auto
  show "CBU16_IS_TRAIL c \<longleftrightarrow> 0xdc00 \<le> c \<and> c \<le> 0xdfff"
    unfolding CBU16_IS_TRAIL_def u a using div_is [of 1024 c 55] by auto
qed

lemma surrogate_lead:
  assumes "0xd800 \<le> c" "c \<le> 0xdfff"
  shows "CBU16_IS_SURROGATE_LEAD c \<longleftrightarrow> c < 0xdc00"
proof -
  have "c AND 2 ^ 10 = 0 \<longleftrightarrow> \<not> odd (c div 2 ^ 10)" by (simp only: and_exp_eq_0_iff_not_bit bit_iff_odd)
  then have "CBU16_IS_SURROGATE_LEAD c \<longleftrightarrow> even (c div 1024)" by (simp add: CBU16_IS_SURROGATE_LEAD_def)
  moreover have "c div 1024 = (if c < 0xdc00 then 54 else 55)"
    using assms div_is [of 1024 c 54] div_is [of 1024 c 55] by auto
  ultimately show ?thesis by simp
qed

section \<open>The three encodings\<close>

text \<open>
  What the code is measured against: the scalar values of Unicode and the sequences of units that encode
  them, by arithmetic.
\<close>

definition scalar :: "int \<Rightarrow> bool" where
  "scalar c \<longleftrightarrow> 0 \<le> c \<and> (c < 0xD800 \<or> 0xE000 \<le> c \<and> c \<le> 0x10FFFF)"

definition utf8 :: "int \<Rightarrow> int list" where
  "utf8 c =
     (if c < 0x80 then [c]
      else if c < 0x800 then [0xC0 + c div 64, 0x80 + c mod 64]
      else if c < 0x10000 then [0xE0 + c div 64 div 64, 0x80 + c div 64 mod 64, 0x80 + c mod 64]
      else [0xF0 + c div 64 div 64 div 64, 0x80 + c div 64 div 64 mod 64, 0x80 + c div 64 mod 64, 0x80 + c mod 64])"

definition utf16 :: "int \<Rightarrow> int list" where
  "utf16 c = (if c < 0x10000 then [c] else [0xD800 + (c - 0x10000) div 1024, 0xDC00 + (c - 0x10000) mod 1024])"

definition enc8 :: "int \<Rightarrow> string" where "enc8 c = map mk8 (utf8 c)"

definition enc16 :: "int \<Rightarrow> 16 word list" where "enc16 c = map mk16 (utf16 c)"

definition enc32 :: "int \<Rightarrow> 32 word list" where "enc32 c = [mk32 c]"

lemma valid_codepoint: "0 \<le> c \<Longrightarrow> IsValidCodepoint c \<longleftrightarrow> scalar c"
  by (auto simp: IsValidCodepoint_def scalar_def)

lemma valid_codepoint_u32: "IsValidCodepoint (u32 c) \<longleftrightarrow> scalar (u32 c)"
  by (rule valid_codepoint) (simp add: u32_def)

lemma u32_scalar: "scalar c \<Longrightarrow> u32 c = c"
  by (auto simp: u32_def scalar_def)

section \<open>Reading UTF-8 is sound and complete\<close>

lemma u8_val8: "u8 (val8 c) = of_char c"
  using nat_of_char_less_256 [of c] by (auto simp: u8_def val8_def Let_def of_char_def mod_if)

lemma of_char_bounds: "0 \<le> (of_char c :: int)" "(of_char c :: int) < 256"
proof -
  have "(of_char c :: int) = int (of_char c)" by (simp add: of_nat_of_char)
  then show "0 \<le> (of_char c :: int)" "(of_char c :: int) < 256" using nat_of_char_less_256 [of c] by linarith+
qed

lemma mk8_of_char: "mk8 (of_char c) = c"
  using of_char_bounds [of c] by (simp add: mk8_def)

lemma of_char_mk8: "0 \<le> b \<Longrightarrow> b < 256 \<Longrightarrow> of_char (mk8 b) = b"
  by (simp add: mk8_def of_char_of)

lemma elem_at_split [simp]: "elem_at (pre @ x # rest) (int (length pre)) = Inr x"
  by (simp add: elem_at_def)

lemma byte_at_split: "n = int (length pre) \<Longrightarrow> byte_at (pre @ x # rest) n = Inr (of_char x)"
  by (simp add: byte_at_def u8_val8)

lemma lead_facts:
  assumes "0 \<le> b" "b < (256::int)"
  shows "CBU8_IS_LEAD b \<longleftrightarrow> 0xc0 \<le> b \<and> b < 0xfe"
    "utf8_countTrailBytes ! nat b = (if b < 0xc0 then 0 else if b < 0xe0 then 1 else if b < 0xf0 then 2
       else if b < 0xf8 then 3 else if b < 0xfc then 4 else if b < 0xfe then 5 else 0)"
proof -
  have "list_all (\<lambda>b. CBU8_IS_LEAD b = (0xc0 \<le> b \<and> b < 0xfe)) [0..255]"
    "list_all (\<lambda>b. utf8_countTrailBytes ! nat b = (if b < 0xc0 then 0 else if b < 0xe0 then 1 else if b < 0xf0 then 2
       else if b < 0xf8 then 3 else if b < 0xfc then 4 else if b < 0xfe then 5 else 0)) [0..255]"
    by code_simp+
  from this [THEN bytes_all, OF assms]
  show "CBU8_IS_LEAD b \<longleftrightarrow> 0xc0 \<le> b \<and> b < 0xfe"
    "utf8_countTrailBytes ! nat b = (if b < 0xc0 then 0 else if b < 0xe0 then 1 else if b < 0xf0 then 2
       else if b < 0xf8 then 3 else if b < 0xfc then 4 else if b < 0xfe then 5 else 0)" by blast+
qed

lemma val8_mod: "n \<le> 8 \<Longrightarrow> val8 c mod 2 ^ n = of_char c mod 2 ^ n"
proof -
  assume "n \<le> 8"
  have "val8 c mod 2 ^ 8 mod 2 ^ n = val8 c mod 2 ^ n"
    using \<open>n \<le> 8\<close> by (intro mod_mod_cancel le_imp_power_dvd)
  then show ?thesis using u8_val8 [of c] by (simp add: u8_def)
qed

lemma lead_char:
  "CBU8_IS_LEAD (val8 c) \<longleftrightarrow> 0xc0 \<le> (of_char c :: int) \<and> (of_char c :: int) < 0xfe"
  "CBU8_COUNT_TRAIL_BYTES (val8 c) = utf8_countTrailBytes ! nat (of_char c)"
  "CBU8_MASK_LEAD_BYTE (val8 c) n = of_char c mod 2 ^ (6 - n)"
proof -
  have "u8 (val8 c - 0xc0) = u8 (of_char c - 0xc0)"
    using val8_mod [of 8 c] by (auto simp: u8_def intro: mod_diff_cong)
  then show "CBU8_IS_LEAD (val8 c) \<longleftrightarrow> 0xc0 \<le> (of_char c :: int) \<and> (of_char c :: int) < 0xfe"
    using lead_facts(1) [OF of_char_bounds, of c] by (simp add: CBU8_IS_LEAD_def)
  show "CBU8_COUNT_TRAIL_BYTES (val8 c) = utf8_countTrailBytes ! nat (of_char c)"
    by (simp add: CBU8_COUNT_TRAIL_BYTES_def u8_val8)
  show "CBU8_MASK_LEAD_BYTE (val8 c) n = of_char c mod 2 ^ (6 - n)"
    using val8_mod [of "6 - n" c] and_low [of "val8 c" "6 - n"] by (simp add: CBU8_MASK_LEAD_BYTE_def push_bit_eq_mult)
qed

lemma next_trail_eq:
  assumes "n = int (length pre)" "0 \<le> c"
  shows "next_trail (pre @ x # rest) n c =
    Inr (n + 1, 64 * c + of_char x mod 64, (of_char x AND 0xc0) XOR 0x80)"
proof -
  have "push_bit 6 c OR (of_char x mod 64) = 64 * c + of_char x mod 64" using or_shift [of "of_char x mod 64" 6 c] by simp
  then show ?thesis using assms by (simp add: next_trail_def byte_at_split and_low_numerals)
qed

lemma skip_trails_total:
  assumes "0 \<le> i" "i + int n \<le> int (length s)"
  shows "\<exists>j left. skip_trails s i n = Inr (j, left) \<and> i \<le> j \<and> j \<le> i + int n"
  using assms
proof (induction n arbitrary: i)
  case (Suc n)
  then have "byte_at s i = Inr (u8 (val8 (s ! nat i)))" by (simp add: byte_at_def elem_at_def)
  moreover have "\<exists>j left. skip_trails s (i + 1) n = Inr (j, left) \<and> i + 1 \<le> j \<and> j \<le> i + 1 + int n"
    using Suc.IH [of "i + 1"] Suc.prems by simp
  ultimately show ?case by auto
qed simp

lemma skip_trails_to_total:
  assumes "0 \<le> i" "i \<le> len" "len \<le> int (length s)"
  shows "\<exists>j. skip_trails_to s i len = Inr j \<and> i \<le> j \<and> j \<le> len"
  using assms
proof (induction s i len rule: skip_trails_to.induct)
  case (1 s i len)
  show ?case
  proof (cases "i < len")
    case True
    then have b: "byte_at s i = Inr (u8 (val8 (s ! nat i)))" using 1 by (simp add: byte_at_def elem_at_def)
    show ?thesis
    proof (cases "CBU8_IS_TRAIL (u8 (val8 (s ! nat i)))")
      case t: True
      then show ?thesis using True b 1(1) [OF True t] 1(2-) by (auto simp: skip_trails_to.simps [of s i])
    qed (use True b in \<open>simp add: skip_trails_to.simps [of s i]\<close>)
  qed (use 1 in \<open>simp add: skip_trails_to.simps [of s len]\<close>)
qed

text \<open>The value of a lead byte and its trail bytes, and whether all of these are trail bytes.\<close>

definition is_trail :: "char \<Rightarrow> bool" where
  "is_trail x \<longleftrightarrow> 0x80 \<le> (of_char x :: int) \<and> (of_char x :: int) < 0xc0"

lemma bad_or: "0 \<le> a \<Longrightarrow> a OR (((of_char x :: int) AND 0xc0) XOR 0x80) = 0 \<longleftrightarrow> a = 0 \<and> is_trail x"
  using trail_bits(2) [OF of_char_bounds, of x] by (simp add: or_eq_0_iff is_trail_def)

lemma bad_nonneg: "0 \<le> a \<Longrightarrow> 0 \<le> a OR (((of_char x :: int) AND 0xc0) XOR 0x80)"
  using trail_bits(3) [OF of_char_bounds, of x] by simp

fun trail_value :: "int \<Rightarrow> string \<Rightarrow> int" where
  "trail_value c [] = c"
| "trail_value c (x # xs) = trail_value (64 * c + of_char x mod 64) xs"

lemma last_trails_eq:
  assumes "0 \<le> c" "0 \<le> bad"
  shows "\<exists>bad'. last_trails (pre @ ts @ rest) (length ts) (int (length pre), c, bad) =
      Inr (int (length pre + length ts), trail_value c ts, bad') \<and> 0 \<le> bad' \<and>
      (bad' = 0 \<longleftrightarrow> bad = 0 \<and> list_all is_trail ts)"
  using assms
proof (induction ts arbitrary: pre c bad)
  case (Cons x ts)
  let ?b = "bad OR ((of_char x AND 0xc0) XOR 0x80)"
  from Cons.IH [of "64 * c + of_char x mod 64" ?b "pre @ [x]"] Cons.prems bad_nonneg [of bad x] bad_or [of bad x]
  show ?case by (auto simp: next_trail_eq add.commute)
qed simp

lemma trail_switch_eq:
  assumes "n \<in> {1, 2, 3}" "length ts = n" "0 \<le> c"
  shows "\<exists>i c' bad. trail_switch (pre @ ts @ rest) n (int (length pre)) c = Inr (i, c', bad) \<and>
      (bad = 0 \<longleftrightarrow> list_all is_trail ts \<and> (n = 3 \<longrightarrow> 64 * c + of_char (hd ts) mod 64 < 0x110)) \<and>
      (bad = 0 \<longrightarrow> i = int (length pre + n) \<and> c' = trail_value c ts)"
proof (cases "n = 3")
  case True
  then obtain x us where ts: "ts = x # us" "length us = 2" using assms(2) by (cases ts) auto
  let ?c = "64 * c + of_char x mod 64" and ?b = "0 OR (((of_char x :: int) AND 0xc0) XOR 0x80)"
  have c: "0 \<le> ?c" "0 \<le> ?b" "?b = 0 \<longleftrightarrow> is_trail x"
    using assms(3) bad_nonneg [of 0 x] bad_or [of 0 x] by simp_all
  show ?thesis
  proof (cases "?c < 0x110")
    case lt: True
    from last_trails_eq [OF c(1,2), of "pre @ [x]" us rest] show ?thesis
      using True ts lt c(3) assms(3) by (auto simp: trail_switch_def next_trail_eq add.commute)
  next
    case False
    then show ?thesis using True ts assms(3) by (simp add: trail_switch_def next_trail_eq)
  qed
next
  case False
  from last_trails_eq [OF assms(3), of 0 pre ts rest] show ?thesis
    using False assms(1,2) by (auto simp: trail_switch_def)
qed

text \<open>What the body of the macro accepts behind a lead byte with \<open>n\<close> trail bytes.\<close>

definition legal :: "nat \<Rightarrow> char \<Rightarrow> string \<Rightarrow> bool" where
  "legal n b ts \<longleftrightarrow> n \<in> {1, 2, 3} \<and> length ts = n \<and> list_all is_trail ts \<and>
     (n = 3 \<longrightarrow> 64 * (of_char b mod 8) + of_char (hd ts) mod 64 < (0x110 :: int)) \<and>
     utf8_minLegal ! n \<le> trail_value (of_char b mod 2 ^ (6 - n)) ts \<and>
     \<not> CBU_IS_SURROGATE (trail_value (of_char b mod 2 ^ (6 - n)) ts)"

lemma body_eq:
  fixes pre rest :: string and b :: char
  defines "s \<equiv> pre @ b # rest" and "n \<equiv> utf8_countTrailBytes ! nat (of_char b)"
  assumes "0xc0 \<le> (of_char b :: int)" "(of_char b :: int) < 0xfe"
  shows "if legal n b (take n rest)
    then utf8_nextCharSafeBody s (int (length pre) + 1) (int (length s)) (val8 b) (- 1) =
      Inr (trail_value (of_char b mod 2 ^ (6 - n)) (take n rest), int (length pre) + 1 + int n)
    else \<exists>j. utf8_nextCharSafeBody s (int (length pre) + 1) (int (length s)) (val8 b) (- 1) = Inr (- 1, j) \<and>
      int (length pre) + 1 \<le> j \<and> j \<le> int (length s)"
proof -
  let ?i = "int (length pre) + 1" and ?c = "(of_char b :: int) mod 2 ^ (6 - n)"
  have n: "n \<noteq> 0" "n \<le> 5" using lead_facts(2) [OF of_char_bounds, of b] assms(3,4) by (simp_all add: n_def)
  have defs: "CBU8_COUNT_TRAIL_BYTES (val8 b) = n" "CBU8_MASK_LEAD_BYTE (val8 b) n = ?c"
    by (simp_all add: lead_char n_def)
  show ?thesis
  proof (cases "n \<le> length rest")
    case False
    then obtain j where "skip_trails_to s ?i (int (length s)) = Inr j" "?i \<le> j" "j \<le> int (length s)"
      using skip_trails_to_total [of ?i "int (length s)" s] by (auto simp: s_def)
    moreover have "\<not> legal n b (take n rest)" using False by (auto simp: legal_def)
    ultimately show ?thesis using False by (simp add: utf8_nextCharSafeBody_def defs s_def CBU_SENTINEL_def)
  next
    case True
    then obtain j left where sk: "skip_trails s ?i n = Inr (j, left)" "?i \<le> j" "j \<le> int (length s)"
      using skip_trails_total [of ?i n s] by (auto simp: s_def)
    have le: "?i + int n \<le> int (length s)" using True by (simp add: s_def)
    show ?thesis
    proof (cases "n \<in> {1, 2, 3}")
      case False
      then have "n = 4 \<or> n = 5" using n by auto
      then have "trail_switch s n ?i ?c = Inr (?i, ?c, 1)" by (auto simp: trail_switch_def)
      then show ?thesis using False sk le n by (simp add: utf8_nextCharSafeBody_def defs legal_def CBU_SENTINEL_def)
    next
      case small: True
      have s: "s = (pre @ [b]) @ take n rest @ drop n rest" by (simp add: s_def)
      obtain i c bad where sw: "trail_switch s n ?i ?c = Inr (i, c, bad)"
        "bad = 0 \<longleftrightarrow> list_all is_trail (take n rest) \<and> (n = 3 \<longrightarrow> 64 * ?c + of_char (hd (take n rest)) mod 64 < 0x110)"
        "bad = 0 \<longrightarrow> i = ?i + int n \<and> c = trail_value ?c (take n rest)"
        using trail_switch_eq [OF small, of "take n rest" ?c "pre @ [b]" "drop n rest"] True s by (auto simp: add.commute)
      have l: "legal n b (take n rest) \<longleftrightarrow> bad = 0 \<and> utf8_minLegal ! n \<le> c \<and> \<not> CBU_IS_SURROGATE c"
        using sw(2,3) small True by (auto simp: legal_def)
      show ?thesis using sw(1,3) sk le n l
        by (auto simp add: utf8_nextCharSafeBody_def defs CBU_SENTINEL_def not_less)
    qed
  qed
qed

lemma low_mod: "k * q \<le> b \<Longrightarrow> b < k * q + k \<Longrightarrow> b mod k = b - k * q" for b k q :: int
  using div_is [of k b q] minus_mod_eq_mult_div [of b k] by (cases "0 < k") auto

lemma digit: "0 \<le> y \<Longrightarrow> y < 64 \<Longrightarrow> (64 * c + y) div 64 = c \<and> (64 * c + y) mod 64 = y" for c y :: int
  by simp

lemma trail_mod: "is_trail x \<Longrightarrow> of_char x mod 64 = (of_char x :: int) - 128"
  using low_mod [of 64 2 "of_char x"] by (simp add: is_trail_def)

lemma not_surrogate: "0 \<le> c \<Longrightarrow> c < 0x110000 \<Longrightarrow> \<not> CBU_IS_SURROGATE c \<longleftrightarrow> scalar c"
  using surrogate_bits(1) [of c] by (auto simp: scalar_def)

lemma lead_mod:
  fixes b :: int
  shows "0xc0 \<le> b \<Longrightarrow> b < 0xe0 \<Longrightarrow> b mod 32 = b - 0xc0" "0xe0 \<le> b \<Longrightarrow> b < 0xf0 \<Longrightarrow> b mod 16 = b - 0xe0"
    "0xf0 \<le> b \<Longrightarrow> b < 0xf8 \<Longrightarrow> b mod 8 = b - 0xf0"
  using low_mod [of 32 6 b] low_mod [of 16 14 b] low_mod [of 8 30 b] by simp_all

lemma digits_of:
  fixes w v y :: int
  assumes "v = 64 * w + (y - 0x80)" "0x80 \<le> y" "y < 0xc0"
  shows "v div 64 = w" "v mod 64 = y - 0x80"
  using div_is [of 64 v w] low_mod [of 64 w v] assms by linarith+

lemma utf8_two:
  fixes b x v :: int
  assumes "v = 64 * (b - 0xc0) + (x - 0x80)" "b < 0xe0" "0x80 \<le> x" "x < 0xc0" "0x80 \<le> v"
  shows "utf8 v = [b, x]" "v < 0x800"
proof -
  show "v < 0x800" using assms(1,2,4) by simp
  then show "utf8 v = [b, x]" unfolding utf8_def digits_of [OF assms(1,3,4)] using assms(5) by simp
qed

lemma utf8_three:
  fixes b x y v w :: int
  assumes "w = 64 * (b - 0xe0) + (x - 0x80)" "v = 64 * w + (y - 0x80)" "b < 0xf0"
    "0x80 \<le> x" "x < 0xc0" "0x80 \<le> y" "y < 0xc0" "0x800 \<le> v"
  shows "utf8 v = [b, x, y]" "v < 0x10000"
proof -
  have "w < 0x400" using assms(1,3,5) by simp
  then show "v < 0x10000" using assms(2,7) by simp
  then show "utf8 v = [b, x, y]"
    unfolding utf8_def digits_of [OF assms(2,6,7)] digits_of [OF assms(1,4,5)] using assms(8) by simp
qed

lemma utf8_four:
  fixes b x y z u v w :: int
  assumes "w = 64 * (b - 0xf0) + (x - 0x80)" "u = 64 * w + (y - 0x80)" "v = 64 * u + (z - 0x80)" "w < 0x110"
    "0x80 \<le> x" "x < 0xc0" "0x80 \<le> y" "y < 0xc0" "0x80 \<le> z" "z < 0xc0" "0x10000 \<le> v"
  shows "utf8 v = [b, x, y, z]" "v < 0x110000"
proof -
  have "u < 0x4400" using assms(2,4,8) by simp
  then show "v < 0x110000" using assms(3,10) by simp
  show "utf8 v = [b, x, y, z]"
    unfolding utf8_def digits_of [OF assms(3,9,10)] digits_of [OF assms(2,7,8)] digits_of [OF assms(1,5,6)] using assms(11) by simp
qed
lemma legal_sound:
  fixes b :: char and ts :: string
  defines "n \<equiv> utf8_countTrailBytes ! nat (of_char b)"
  defines "v \<equiv> trail_value (of_char b mod 2 ^ (6 - n)) ts"
  assumes "0xc0 \<le> (of_char b :: int)" "(of_char b :: int) < 0xfe" "legal n b ts"
  shows "scalar v" "utf8 v = of_char b # map of_char ts"
proof -
  let ?b = "of_char b :: int"
  have nb: "n = (if ?b < 0xe0 then 1 else if ?b < 0xf0 then 2 else if ?b < 0xf8 then 3 else if ?b < 0xfc then 4 else 5)"
    using lead_facts(2) [OF of_char_bounds, of b] assms(3,4) by (simp add: n_def)
  have l: "n \<in> {1, 2, 3}" "length ts = n" "list_all is_trail ts" "utf8_minLegal ! n \<le> v" "\<not> CBU_IS_SURROGATE v"
    "n = 3 \<longrightarrow> 64 * (?b mod 8) + of_char (hd ts) mod 64 < 0x110"
    using assms(5) by (auto simp: legal_def v_def)
  have lens: "n = 1 \<Longrightarrow> \<exists>x. ts = [x]" "n = 2 \<Longrightarrow> \<exists>x y. ts = [x, y]" "n = 3 \<Longrightarrow> \<exists>x y z. ts = [x, y, z]"
    using l(2) by (auto simp: numeral_2_eq_2 numeral_3_eq_3 length_Suc_conv)
  have n3: "n \<noteq> 4" "n \<noteq> 5" using l(1) by auto
  consider x where "?b < 0xe0" "n = 1" "ts = [x]" | x y where "0xe0 \<le> ?b" "?b < 0xf0" "n = 2" "ts = [x, y]"
    | x y z where "0xf0 \<le> ?b" "?b < 0xf8" "n = 3" "ts = [x, y, z]"
  proof (cases "?b < 0xe0")
    case True
    then have "n = 1" using nb by simp
    then show ?thesis using that(1) True lens(1) by blast
  next
    case e: False
    show ?thesis
    proof (cases "?b < 0xf0")
      case True
      then have "n = 2" using nb e by simp
      then show ?thesis using that(2) True e lens(2) by (meson not_le)
    next
      case f: False
      then have "?b < 0xf8" using nb n3 e by (meson not_le)
      moreover from this have "n = 3" using nb e f by simp
      ultimately show ?thesis using that(3) f lens(3) by (meson not_le)
    qed
  qed
  then have "v < 0x110000 \<and> 0 \<le> v \<and> utf8 v = of_char b # map of_char ts"
  proof cases
    case 1
    have "v = 64 * (?b - 0xc0) + (of_char x - 0x80)"
      using 1 l(3) lead_mod(1) [OF assms(3) 1(1)] trail_mod [of x] by (simp add: v_def)
    then show ?thesis
      using utf8_two [of v ?b "of_char x"] 1 l(3,4) by (simp add: utf8_minLegal_def is_trail_def)
  next
    case 2
    note b = 2(1,2)
    have "v = 64 * (64 * (?b - 0xe0) + (of_char x - 0x80)) + (of_char y - 0x80)"
      using 2 l(3) lead_mod(2) [OF b] trail_mod [of x] trail_mod [of y] by (simp add: v_def)
    from utf8_three [OF refl this b(2)] show ?thesis
      using 2 l(3,4) by (simp add: utf8_minLegal_def is_trail_def)
  next
    case 3
    note b = 3(1,2)
    have "v = 64 * (64 * (64 * (?b - 0xf0) + (of_char x - 0x80)) + (of_char y - 0x80)) + (of_char z - 0x80)"
      using 3 l(3) lead_mod(3) [OF b] trail_mod [of x] trail_mod [of y] trail_mod [of z] by (simp add: v_def)
    moreover have "64 * (?b - 0xf0) + (of_char x - 0x80) < 0x110"
      using 3 l(3,6) lead_mod(3) [OF b] trail_mod [of x] by simp
    ultimately show ?thesis
      using utf8_four [OF refl refl, of v ?b "of_char x" "of_char y" "of_char z"] 3 l(3,4)
      by (simp add: utf8_minLegal_def is_trail_def)
  qed
  then show "scalar v" "utf8 v = of_char b # map of_char ts" using l(5) not_surrogate [of v] by blast+
qed

lemma div64_less: "c < 64 * k \<Longrightarrow> c div 64 < k" for c k :: int
  using div_is [of 64 c "c div 64"] by linarith

lemma utf8_bytes:
  assumes "scalar c"
  shows "\<forall>b \<in> set (utf8 c). 0 \<le> b \<and> b < 256"
proof -
  have c: "0 \<le> c" "c < 0x110000" using assms by (auto simp: scalar_def)
  have m: "0x80 + y mod 64 < 256" "0 \<le> 0x80 + y mod 64" for y :: int
    using pos_mod_bound [of 64 y] pos_mod_sign [of 64 y] by linarith+
  have d: "0 \<le> c div 64" "0 \<le> c div 64 div 64" "0 \<le> c div 64 div 64 div 64" using c(1) by simp_all
  have "c < 0x800 \<Longrightarrow> c div 64 < 32" "c < 0x10000 \<Longrightarrow> c div 64 div 64 < 16" "c div 64 div 64 div 64 < 8"
    using c(2) by (simp_all add: div64_less)
  then show ?thesis using c d m by (auto simp: utf8_def)
qed

lemma enc8_bytes: "scalar c \<Longrightarrow> map of_char (enc8 c) = utf8 c"
  using utf8_bytes [of c] by (auto simp: enc8_def of_char_mk8 intro!: map_idI)

lemma trail_of:
  assumes "of_char x = 0x80 + y mod (64::int)"
  shows "is_trail x" "of_char x mod 64 = y mod 64"
proof -
  have "0 \<le> y mod 64" "y mod 64 < 64" by simp_all
  then show "is_trail x" using assms by (simp add: is_trail_def)
  from trail_mod [OF this] show "of_char x mod 64 = y mod 64" using assms by simp
qed

lemma legal_complete:
  fixes b :: char and ts :: string
  defines "n \<equiv> utf8_countTrailBytes ! nat (of_char b)"
  assumes "scalar c" "0x80 \<le> c" "utf8 c = of_char b # map of_char ts"
  shows "0xc0 \<le> (of_char b :: int)" "(of_char b :: int) < 0xfe" "legal n b ts"
    "trail_value (of_char b mod 2 ^ (6 - n)) ts = c"
proof -
  have c: "0 \<le> c" "c < 0x110000" using assms(2) by (auto simp: scalar_def)
  note lf = lead_facts(2) [OF of_char_bounds, of b]
  have ns: "\<not> CBU_IS_SURROGATE c" using not_surrogate [OF c] assms(2) by simp
  define d e f where def: "d = c div 64" "e = d div 64" "f = e div 64"
  have r: "64 * d + c mod 64 = c" "64 * e + d mod 64 = d" "64 * f + e mod 64 = e" by (simp_all add: def)
  have u: "utf8 c = (if c < 0x800 then [0xC0 + d, 0x80 + c mod 64]
      else if c < 0x10000 then [0xE0 + e, 0x80 + d mod 64, 0x80 + c mod 64]
      else [0xF0 + f, 0x80 + e mod 64, 0x80 + d mod 64, 0x80 + c mod 64])"
    using assms(3) by (simp only: utf8_def def) simp
  have nonneg: "0 \<le> d" "0 \<le> e" "0 \<le> f" using c(1) by (simp_all add: def)
  consider "c < 0x800" | "0x800 \<le> c" "c < 0x10000" | "0x10000 \<le> c" by linarith
  then have "0xc0 \<le> (of_char b :: int) \<and> (of_char b :: int) < 0xfe \<and> legal n b ts \<and>
      trail_value (of_char b mod 2 ^ (6 - n)) ts = c"
  proof cases
    case 1
    then obtain x where x: "of_char b = 0xC0 + d" "ts = [x]" "of_char x = 0x80 + c mod 64"
      using assms(4) u by auto
    have lt: "d < 32" using 1 r(1) pos_mod_sign [of 64 c] by linarith
    then have b: "0xc0 \<le> (of_char b :: int)" "(of_char b :: int) < 0xe0" using x(1) nonneg by linarith+
    then have n: "n = 1" unfolding n_def lf by simp
    have bm: "(of_char b :: int) mod 2 ^ (6 - n) = d" using lead_mod(1) [OF b] x(1) n by simp
    have tv: "trail_value d ts = c" unfolding x(2) trail_value.simps trail_of(2) [OF x(3)] r ..
    show ?thesis using b n x(2) trail_of(1) [OF x(3)] ns assms(3) bm tv
      by (simp add: legal_def utf8_minLegal_def del: trail_value.simps)
  next
    case 2
    then obtain x y where x: "of_char b = 0xE0 + e" "ts = [x, y]" "of_char x = 0x80 + d mod 64" "of_char y = 0x80 + c mod 64"
      using assms(4) u by auto
    have lt: "e < 16" using 2 r pos_mod_sign [of 64 c] pos_mod_sign [of 64 d] by linarith
    then have b: "0xe0 \<le> (of_char b :: int)" "(of_char b :: int) < 0xf0" using x(1) nonneg by linarith+
    then have n: "n = 2" unfolding n_def lf by simp
    have bm: "(of_char b :: int) mod 2 ^ (6 - n) = e" using lead_mod(2) [OF b] x(1) n by simp
    have tv: "trail_value e ts = c"
      unfolding x(2) trail_value.simps trail_of(2) [OF x(3)] trail_of(2) [OF x(4)] r ..
    show ?thesis using b n x(2) trail_of(1) [OF x(3)] trail_of(1) [OF x(4)] ns 2 bm tv
      by (simp add: legal_def utf8_minLegal_def del: trail_value.simps)
  next
    case 3
    then obtain x y z where x: "of_char b = 0xF0 + f" "ts = [x, y, z]" "of_char x = 0x80 + e mod 64"
        "of_char y = 0x80 + d mod 64" "of_char z = 0x80 + c mod 64"
      using assms(4) u by auto
    have lt: "e < 0x110" "f < 8" using c r pos_mod_sign [of 64 c] pos_mod_sign [of 64 d] pos_mod_sign [of 64 e] by linarith+
    then have b: "0xf0 \<le> (of_char b :: int)" "(of_char b :: int) < 0xf8" using x(1) nonneg by linarith+
    then have n: "n = 3" unfolding n_def lf by simp
    have bm: "(of_char b :: int) mod 2 ^ (6 - n) = f" "(of_char b :: int) mod 8 = f" using lead_mod(3) [OF b] x(1) n by simp_all
    have tv: "trail_value f ts = c"
      unfolding x(2) trail_value.simps trail_of(2) [OF x(3)] trail_of(2) [OF x(4)] trail_of(2) [OF x(5)] r ..
    have "64 * f + of_char x mod 64 < 0x110" using r(3) lt trail_of(2) [OF x(3)] by linarith
    then show ?thesis
      using b n bm tv x(2) trail_of(1) [OF x(3)] trail_of(1) [OF x(4)] trail_of(1) [OF x(5)] ns 3
      by (simp add: legal_def utf8_minLegal_def del: trail_value.simps)
  qed
  then show "0xc0 \<le> (of_char b :: int)" "(of_char b :: int) < 0xfe" "legal n b ts"
    "trail_value (of_char b mod 2 ^ (6 - n)) ts = c" by blast+
qed

lemma enc8_of_bytes: "utf8 c = map of_char s \<Longrightarrow> enc8 c = s"
  by (simp add: enc8_def comp_def mk8_of_char)

lemma enc8_prefix:
  assumes "scalar c" "prefix (enc8 c) (b # rest)"
  obtains "c < 0x80" "c = of_char b"
  | ts where "0x80 \<le> c" "utf8 c = of_char b # map of_char ts" "prefix ts rest" "enc8 c = b # ts"
proof -
  have ne: "utf8 c \<noteq> []" by (simp add: utf8_def)
  then obtain ts where e: "enc8 c = b # ts" "prefix ts rest"
    using assms(2) by (cases "enc8 c") (auto simp: enc8_def)
  then have u: "utf8 c = of_char b # map of_char ts" using enc8_bytes [OF assms(1)] by simp
  show thesis
  proof (cases "c < 0x80")
    case True
    then have "c = of_char b" using u by (simp add: utf8_def)
    with True that(1) show thesis by blast
  qed (use that(2) e u in \<open>simp add: not_less\<close>)
qed

definition no_char8 :: "string \<Rightarrow> bool" where
  "no_char8 s \<longleftrightarrow> (\<forall>c. scalar c \<longrightarrow> \<not> prefix (enc8 c) s)"

lemma CBU8_NEXT_cases:
  fixes pre rest :: string
  defines "s \<equiv> pre @ rest"
  assumes "rest \<noteq> []"
  shows "(\<exists>c. scalar c \<and> prefix (enc8 c) rest \<and>
      CBU8_NEXT s (int (length pre)) (int (length s)) = Inr (c, int (length pre + length (enc8 c)))) \<or>
    no_char8 rest \<and> (\<exists>j. CBU8_NEXT s (int (length pre)) (int (length s)) = Inr (- 1, j) \<and>
      int (length pre) + 1 \<le> j \<and> j \<le> int (length s))"
proof -
  obtain b more where rest: "rest = b # more" using assms(2) by (cases rest) auto
  let ?b = "of_char b :: int" and ?n = "utf8_countTrailBytes ! nat (of_char b)"
  let ?c = "trail_value (?b mod 2 ^ (6 - ?n)) (take ?n more)"
  have bb: "0 \<le> ?b" "?b < 256" by (rule of_char_bounds)+
  have s: "elem_at s (int (length pre)) = Inr b" by (simp add: s_def rest)
  consider "?b < 0x80" | "0x80 \<le> ?b" "\<not> (0xc0 \<le> ?b \<and> ?b < 0xfe)"
    | "0xc0 \<le> ?b" "?b < 0xfe" "legal ?n b (take ?n more)" | "0xc0 \<le> ?b" "?b < 0xfe" "\<not> legal ?n b (take ?n more)"
    by linarith
  then show ?thesis
  proof cases
    case 1
    then have "scalar ?b" "enc8 ?b = [b]" using bb by (auto simp: scalar_def enc8_def utf8_def mk8_of_char)
    moreover have "val8 b = ?b" using 1 by (simp add: val8_def)
    ultimately show ?thesis using 1 s by (intro disjI1 exI [of _ ?b]) (simp add: CBU8_NEXT_def u8_val8 rest)
  next
    case 2
    have "no_char8 rest" unfolding no_char8_def rest
    proof (intro allI impI notI)
      fix c assume c: "scalar c" "prefix (enc8 c) (b # more)"
      then show False
      proof (cases rule: enc8_prefix)
        case (2 ts)
        with c legal_complete(1,2) [OF c(1) 2(1,2)] show False using \<open>\<not> (0xc0 \<le> ?b \<and> ?b < 0xfe)\<close> by simp
      qed (use 2 in simp)
    qed
    moreover have "CBU8_NEXT s (int (length pre)) (int (length s)) = Inr (- 1, int (length pre) + 1)"
      using 2 by (auto simp: CBU8_NEXT_def s u8_val8 lead_char CBU_SENTINEL_def Let_def)
    ultimately show ?thesis by (simp add: s_def rest)
  next
    case 3
    then have "scalar ?c" "utf8 ?c = map of_char (b # take ?n more)"
      using legal_sound [OF 3] by simp_all
    moreover from this(2) have "enc8 ?c = b # take ?n more" by (rule enc8_of_bytes)
    moreover have "length (take ?n more) = ?n" using 3(3) by (auto simp: legal_def)
    ultimately show ?thesis using 3 s body_eq [OF 3(1,2), of more pre]
      by (intro disjI1 exI [of _ ?c]) (simp add: CBU8_NEXT_def u8_val8 lead_char s_def rest take_is_prefix)
  next
    case 4
    have "no_char8 rest" unfolding no_char8_def rest
    proof (intro allI impI notI)
      fix c assume c: "scalar c" "prefix (enc8 c) (b # more)"
      then show False
      proof (cases rule: enc8_prefix)
        case (2 ts)
        then have "legal ?n b ts" using legal_complete(3) [OF c(1)] by blast
        moreover from this have "ts = take ?n more" using 2(3) by (auto simp: legal_def prefix_def)
        ultimately show False using 4(3) by simp
      qed (use 4 in simp)
    qed
    then show ?thesis using 4 s body_eq [OF 4(1,2), of more pre]
      by (intro disjI2) (auto simp: CBU8_NEXT_def u8_val8 lead_char s_def rest)
  qed
qed

lemma enc8_unique:
  assumes "scalar c" "scalar d" "prefix (enc8 c) t" "prefix (enc8 d) t"
  shows "c = d"
proof -
  have "enc8 c \<noteq> []" by (simp add: enc8_def utf8_def)
  then obtain b rest where t: "t = b # rest" using assms(3) by (cases t) auto
  let ?n = "utf8_countTrailBytes ! nat (of_char b)"
  show ?thesis
  proof (cases rule: enc8_prefix [OF assms(1) assms(3) [unfolded t]])
    case c: 1
    show ?thesis
    proof (cases rule: enc8_prefix [OF assms(2) assms(4) [unfolded t]])
      case (2 ts)
      with c legal_complete(1) [OF assms(2) 2(1,2)] show ?thesis by simp
    qed (use c in simp)
  next
    case c: (2 ts)
    note lc = legal_complete [OF assms(1) c(1,2)]
    show ?thesis
    proof (cases rule: enc8_prefix [OF assms(2) assms(4) [unfolded t]])
      case (2 us)
      note ld = legal_complete [OF assms(2) 2(1,2)]
      have "ts = take ?n rest" "us = take ?n rest" using lc(3) ld(3) c(3) 2(3) by (auto simp: legal_def prefix_def)
      then show ?thesis using lc(4) ld(4) by simp
    qed (use lc in simp)
  qed
qed

lemma CBU8_NEXT_scalar:
  assumes "scalar c" "s = pre @ enc8 c @ rest"
  shows "CBU8_NEXT s (int (length pre)) (int (length s)) = Inr (c, int (length pre + length (enc8 c)))"
proof -
  have ne: "enc8 c \<noteq> []" by (simp add: enc8_def utf8_def)
  from CBU8_NEXT_cases [of "enc8 c @ rest" pre] ne obtain d where
    d: "scalar d" "prefix (enc8 d) (enc8 c @ rest)"
       "CBU8_NEXT s (int (length pre)) (int (length s)) = Inr (d, int (length pre + length (enc8 d)))"
    using assms by (auto simp: no_char8_def)
  moreover have "d = c" using enc8_unique [OF d(1) assms(1) d(2)] by simp
  ultimately show ?thesis by simp
qed

lemma CBU8_NEXT_none:
  assumes "no_char8 rest" "rest \<noteq> []" "s = pre @ rest"
  shows "\<exists>j. CBU8_NEXT s (int (length pre)) (int (length s)) = Inr (- 1, j) \<and> int (length pre) + 1 \<le> j \<and> j \<le> int (length s)"
  using CBU8_NEXT_cases [of rest pre] assms by (auto simp: no_char8_def)

section \<open>The contract of readers and writers\<close>

text \<open>
  A reader finds the character whose encoding starts at the position, if there is one, and otherwise
  consumes at least one unit and reports an error, without leaving the string.
\<close>

locale unicode_reader =
  fixes enc :: "int \<Rightarrow> 'c list" and read :: "'c list \<Rightarrow> int \<Rightarrow> int \<Rightarrow> (int \<times> int option) result"
  assumes enc_nonempty: "scalar c \<Longrightarrow> enc c \<noteq> []"
    and read_scalar: "scalar c \<Longrightarrow> s = pre @ enc c @ rest \<Longrightarrow>
      read s (int (length s)) (int (length pre)) = Inr (int (length pre + length (enc c)) - 1, Some c)"
    and read_none: "\<forall>c. scalar c \<longrightarrow> \<not> prefix (enc c) rest \<Longrightarrow> rest \<noteq> [] \<Longrightarrow> s = pre @ rest \<Longrightarrow>
      \<exists>j. read s (int (length s)) (int (length pre)) = Inr (j, None) \<and> int (length pre) \<le> j \<and> j < int (length s)"
begin

lemma enc_unique:
  assumes "scalar c" "scalar d" "prefix (enc c) t" "prefix (enc d) t"
  shows "c = d"
proof -
  obtain r where c: "t = [] @ enc c @ r" using assms(3) by (auto elim: prefixE)
  obtain q where d: "t = [] @ enc d @ q" using assms(4) by (auto elim: prefixE)
  from read_scalar [OF assms(1) c] read_scalar [OF assms(2) d] show ?thesis by simp
qed

end

locale unicode_writer =
  fixes enc :: "int \<Rightarrow> 'd list" and put :: "int \<Rightarrow> 'd list \<Rightarrow> (nat \<times> 'd list) result"
  assumes write_scalar: "scalar c \<Longrightarrow> put c out = Inr (length (enc c), out @ enc c)"

section \<open>Readers\<close>

interpretation read8: unicode_reader enc8 ReadUnicodeCharacter8
proof
  show "enc8 c \<noteq> []" for c by (simp add: enc8_def utf8_def)
  show "ReadUnicodeCharacter8 s (int (length s)) (int (length pre)) = Inr (int (length pre + length (enc8 c)) - 1, Some c)"
    if "scalar c" "s = pre @ enc8 c @ rest" for c s pre rest
    using CBU8_NEXT_scalar [OF that] that(1) by (simp add: ReadUnicodeCharacter8_def u32_scalar valid_codepoint scalar_def)
  show "\<exists>j. ReadUnicodeCharacter8 s (int (length s)) (int (length pre)) = Inr (j, None) \<and>
      int (length pre) \<le> j \<and> j < int (length s)"
    if "\<forall>c. scalar c \<longrightarrow> \<not> prefix (enc8 c) rest" "rest \<noteq> []" "s = pre @ rest" for rest s pre
  proof -
    note a = that
    obtain j where "CBU8_NEXT s (int (length pre)) (int (length s)) = Inr (- 1, j)"
        "int (length pre) + 1 \<le> j" "j \<le> int (length s)"
      using CBU8_NEXT_none [OF _ a(2,3)] a(1) by (auto simp: no_char8_def)
    moreover have "\<not> IsValidCodepoint (u32 (- 1))" by (simp add: u32_def IsValidCodepoint_def)
    ultimately show ?thesis by (intro exI [of _ "j - 1"]) (simp add: ReadUnicodeCharacter8_def)
  qed
qed

lemma val16_bounds: "0 \<le> val16 u" "val16 u < 0x10000"
  using uint_lt2p [of u] by (simp_all add: val16_def)

lemma val16_mk16: "0 \<le> x \<Longrightarrow> x < 0x10000 \<Longrightarrow> val16 (mk16 x) = x"
  by (simp add: val16_def mk16_def uint_word_of_int)

lemma mk16_val16: "mk16 (val16 u) = u"
  by (simp add: val16_def mk16_def)

lemma surrogate16:
  "CBU_IS_SURROGATE (val16 u) \<longleftrightarrow> 0xd800 \<le> val16 u \<and> val16 u \<le> 0xdfff"
  "CBU16_IS_TRAIL (val16 u) \<longleftrightarrow> 0xdc00 \<le> val16 u \<and> val16 u \<le> 0xdfff"
  using surrogate_bits [of "val16 u"] val16_bounds [of u] by simp_all

lemma supplementary: "CBU16_GET_SUPPLEMENTARY l t = 1024 * (l - 0xd800) + (t - 0xdc00) + 0x10000"
  by (simp add: CBU16_GET_SUPPLEMENTARY_def CBU16_SURROGATE_OFFSET_def push_bit_eq_mult)

lemma utf16_pair:
  assumes "0xd800 \<le> l" "l \<le> 0xdbff" "0xdc00 \<le> t" "t \<le> 0xdfff" "c = 1024 * (l - 0xd800) + (t - 0xdc00) + 0x10000"
  shows "scalar c" "utf16 c = [l, t]" "0x10000 \<le> c"
proof -
  show c: "0x10000 \<le> c" using assms by simp
  then show "scalar c" using assms by (simp add: scalar_def)
  have "(c - 0x10000) div 1024 = l - 0xd800" "(c - 0x10000) mod 1024 = t - 0xdc00"
    using div_is [of 1024 "c - 0x10000" "l - 0xd800"] low_mod [of 1024 "l - 0xd800" "c - 0x10000"] assms by simp_all
  then show "utf16 c = [l, t]" using c by (simp add: utf16_def)
qed

lemma utf16_supplementary:
  assumes "scalar c" "0x10000 \<le> c"
  obtains l t where "0xd800 \<le> l" "l \<le> 0xdbff" "0xdc00 \<le> t" "t \<le> 0xdfff"
    "c = 1024 * (l - 0xd800) + (t - 0xdc00) + 0x10000" "utf16 c = [l, t]"
proof -
  define q r where "q = (c - 0x10000) div 1024" and "r = (c - 0x10000) mod 1024"
  have "c - 0x10000 = 1024 * q + r" "0 \<le> r" "r < 1024" by (simp_all add: q_def r_def)
  moreover from this have "0 \<le> q" "q < 1024" using assms by (auto simp: scalar_def)
  moreover have "utf16 c = [0xD800 + q, 0xDC00 + r]" using assms(2) by (simp add: utf16_def q_def r_def)
  ultimately show thesis by (intro that [of "0xD800 + q" "0xDC00 + r"]) auto
qed

lemma enc16_bmp:
  assumes "scalar (val16 u)"
  shows "enc16 (val16 u) = [u]"
  using val16_bounds [of u] by (simp add: enc16_def utf16_def mk16_val16)

lemma enc16_pair:
  assumes "0xd800 \<le> val16 u" "val16 u \<le> 0xdbff" "CBU16_IS_TRAIL (val16 t)"
  defines "c \<equiv> CBU16_GET_SUPPLEMENTARY (val16 u) (val16 t)"
  shows "scalar c" "enc16 c = [u, t]"
  using utf16_pair [of "val16 u" "val16 t" c] assms surrogate16(2) [of t]
  by (simp_all add: supplementary enc16_def mk16_val16)

lemma scalar_read16:
  assumes "scalar c" "s = pre @ enc16 c @ rest"
  shows "ReadUnicodeCharacter16 s (int (length s)) (int (length pre)) = Inr (int (length pre + length (enc16 c)) - 1, Some c)"
proof (cases "c < 0x10000")
  case True
  then have c: "val16 (mk16 c) = c" "\<not> CBU_IS_SURROGATE c" "IsValidCodepoint c"
    using assms(1) val16_mk16 [of c] surrogate16(1) [of "mk16 c"] by (auto simp: scalar_def valid_codepoint)
  have "enc16 c = [mk16 c]" using True by (simp add: enc16_def utf16_def)
  then show ?thesis using c assms(2) by (simp add: ReadUnicodeCharacter16_def Let_def)
next
  case False
  then obtain l t where lt: "0xd800 \<le> l" "l \<le> 0xdbff" "0xdc00 \<le> t" "t \<le> 0xdfff"
      "c = 1024 * (l - 0xd800) + (t - 0xdc00) + 0x10000" "utf16 c = [l, t]"
    using utf16_supplementary [OF assms(1)] by (auto simp: not_less)
  then have v: "val16 (mk16 l) = l" "val16 (mk16 t) = t" by (simp_all add: val16_mk16)
  have m: "CBU_IS_SURROGATE l" "CBU16_IS_SURROGATE_LEAD l" "CBU16_IS_TRAIL t" "CBU16_GET_SUPPLEMENTARY l t = c"
    using surrogate16(1) [of "mk16 l"] surrogate16(2) [of "mk16 t"] surrogate_lead [of l] lt v
    by (simp_all add: supplementary)
  have e: "enc16 c = [mk16 l, mk16 t]" using lt by (simp add: enc16_def)
  have "elem_at s (int (length pre)) = Inr (mk16 l)" "elem_at s (int (length pre) + 1) = Inr (mk16 t)"
    using assms(2) e by (simp_all add: elem_at_def nth_append nat_add_distrib)
  then show ?thesis using v m e assms u32_scalar [OF assms(1)]
    by (simp add: ReadUnicodeCharacter16_def Let_def valid_codepoint scalar_def)
qed

interpretation read16: unicode_reader enc16 ReadUnicodeCharacter16
proof
  show "enc16 c \<noteq> []" for c by (simp add: enc16_def utf16_def)
  show "ReadUnicodeCharacter16 s (int (length s)) (int (length pre)) = Inr (int (length pre + length (enc16 c)) - 1, Some c)"
    if "scalar c" "s = pre @ enc16 c @ rest" for c s pre rest using that by (rule scalar_read16)
  show "\<exists>j. ReadUnicodeCharacter16 s (int (length s)) (int (length pre)) = Inr (j, None) \<and>
      int (length pre) \<le> j \<and> j < int (length s)"
    if "\<forall>c. scalar c \<longrightarrow> \<not> prefix (enc16 c) rest" "rest \<noteq> []" "s = pre @ rest" for rest s pre
  proof -
    note a = that
    obtain u more where rest: "rest = u # more" using a(2) by (cases rest) auto
    have "\<not> scalar (val16 u)" using a(1) enc16_bmp [of u] rest by fastforce
    then have sur: "0xd800 \<le> val16 u" "val16 u \<le> 0xdfff" using val16_bounds [of u] by (auto simp: scalar_def)
    then have c: "CBU_IS_SURROGATE (val16 u)" "CBU16_IS_SURROGATE_LEAD (val16 u) \<longleftrightarrow> val16 u < 0xdc00"
      by (simp_all add: surrogate16 surrogate_lead)
    have "\<not> (val16 u < 0xdc00 \<and> CBU16_IS_TRAIL (val16 t))" if "more = t # ys" for t ys
      using enc16_pair [of u t] sur that rest \<open>\<forall>c. scalar c \<longrightarrow> \<not> prefix (enc16 c) rest\<close> by fastforce
    moreover have "elem_at s (int (length pre) + 1) = Inr t" if "more = t # ys" for t ys
      using rest that \<open>s = pre @ rest\<close> by (simp add: elem_at_def nth_append nat_add_distrib)
    ultimately show ?thesis using c rest \<open>s = pre @ rest\<close>
      by (cases more) (auto simp: ReadUnicodeCharacter16_def Let_def)
  qed
qed

lemma u32_val32: "u32 (val32 w) = uint w"
  using uint_sint [of w] by (simp add: u32_def val32_def take_bit_eq_mod)

interpretation read32: unicode_reader enc32 ReadUnicodeCharacter32
proof
  show "enc32 c \<noteq> []" for c by (simp add: enc32_def)
  show "ReadUnicodeCharacter32 s (int (length s)) (int (length pre)) = Inr (int (length pre + length (enc32 c)) - 1, Some c)"
    if "scalar c" "s = pre @ enc32 c @ rest" for c s pre rest
  proof -
    have "uint (mk32 c) = c" using that(1) by (auto simp: mk32_def uint_word_of_int scalar_def)
    then show ?thesis using that by (simp add: ReadUnicodeCharacter32_def enc32_def u32_val32 Let_def valid_codepoint scalar_def)
  qed
  show "\<exists>j. ReadUnicodeCharacter32 s (int (length s)) (int (length pre)) = Inr (j, None) \<and>
      int (length pre) \<le> j \<and> j < int (length s)"
    if "\<forall>c. scalar c \<longrightarrow> \<not> prefix (enc32 c) rest" "rest \<noteq> []" "s = pre @ rest" for rest s pre
  proof -
    note a = that
    obtain w more where rest: "rest = w # more" using a(2) by (cases rest) auto
    have "enc32 (uint w) = [w]" by (simp add: enc32_def mk32_def)
    then have "\<not> scalar (uint w)" using a(1) rest by fastforce
    then show ?thesis using rest a(3) by (simp add: ReadUnicodeCharacter32_def u32_val32 Let_def valid_codepoint)
  qed
qed

section \<open>Writers\<close>

lemma store_append: "n = length xs \<Longrightarrow> store (xs @ y # zs) n x = Inr (xs @ x # zs)"
  by (simp add: store_def)

lemma or_low:
  fixes x :: int
  shows "0 \<le> x \<Longrightarrow> x < 64 \<Longrightarrow> x OR 0x80 = 0x80 + x" "0 \<le> x \<Longrightarrow> x < 32 \<Longrightarrow> x OR 0xc0 = 0xc0 + x"
    "0 \<le> x \<Longrightarrow> x < 16 \<Longrightarrow> x OR 0xe0 = 0xe0 + x" "0 \<le> x \<Longrightarrow> x < 8 \<Longrightarrow> x OR 0xf0 = 0xf0 + x"
    "0 \<le> x \<Longrightarrow> x < 1024 \<Longrightarrow> x OR 0xdc00 = 0xdc00 + x"
  using or_shift [of x 6 2] or_shift [of x 5 6] or_shift [of x 4 14] or_shift [of x 3 30] or_shift [of x 10 55]
  by (simp_all add: or.commute push_bit_eq_mult)

lemma resize_cut: "std_string_resize nul (xs @ ys) (length xs) = xs"
  by (simp add: std_string_resize_def)

lemma resize_four: "std_string_resize nul xs (length xs + 4) = xs @ [nul, nul, nul, nul]"
  by (simp add: std_string_resize_def numeral_eq_Suc)

lemma append_stores:
  "bind_result (store (xs @ y # zs) (length xs) x) f = f (xs @ x # zs)"
  "bind_result (store (xs @ w # y # zs) (Suc (length xs)) x) f = f (xs @ w # x # zs)"
  "bind_result (store (xs @ v # w # y # zs) (Suc (Suc (length xs))) x) f = f (xs @ v # w # x # zs)"
  "bind_result (store (xs @ u # v # w # y # zs) (Suc (Suc (Suc (length xs)))) x) f = f (xs @ u # v # w # x # zs)"
  by (simp_all add: store_def list_update_append)

lemma u8_id: "0 \<le> x \<Longrightarrow> x < 256 \<Longrightarrow> u8 x = x"
  by (simp add: u8_def)

lemma append8:
  assumes "scalar c" "0x80 \<le> c"
  shows "\<exists>zs. CBU8_APPEND_UNSAFE (out @ [nul, nul, nul, nul]) (length out) c = Inr (out @ enc8 c @ zs, length out + length (enc8 c))"
proof -
  have c: "0 \<le> c" "c < 0x110000" "u32 c = c" using assms(1) by (auto simp: scalar_def u32_scalar)
  define d e f where def: "d = c div 64" "e = d div 64" "f = e div 64"
  have dr: "drop_bit 6 c = d" "drop_bit 12 c = e" "drop_bit 18 c = f"
    by (simp_all add: drop_bit_eq_div def div_mult2_eq [symmetric])
  have low: "u8 ((x AND 0x3f) OR 0x80) = 0x80 + x mod 64" for x :: int
    using pos_mod_bound [of 64 x] pos_mod_sign [of 64 x] or_low(1) [of "x mod 64"] by (simp add: and_low_numerals u8_id)
  have nonneg: "0 \<le> d" "0 \<le> e" "0 \<le> f" using c(1) by (simp_all add: def)
  have r: "64 * d + c mod 64 = c" "64 * e + d mod 64 = d" "64 * f + e mod 64 = e" by (simp_all add: def)
  note m = pos_mod_sign [of 64 c] pos_mod_sign [of 64 d] pos_mod_sign [of 64 e]
  consider "c < 0x800" | "0x800 \<le> c" "c < 0x10000" | "0x10000 \<le> c" by linarith
  then show ?thesis
  proof cases
    case 1
    then have "d < 32" using r m by linarith
    then have "u8 (d OR 0xc0) = 0xc0 + d" using nonneg or_low(2) [of d] by (simp add: u8_id)
    then show ?thesis using 1 c assms(2) low dr
      by (simp add: CBU8_APPEND_UNSAFE_def append_stores enc8_def utf8_def def(1) [symmetric])
  next
    case 2
    then have "e < 16" using r m by linarith
    then have "u8 (e OR 0xe0) = 0xe0 + e" using nonneg or_low(3) [of e] by (simp add: u8_id)
    then show ?thesis using 2 c low dr
      by (simp add: CBU8_APPEND_UNSAFE_def append_stores enc8_def utf8_def def(1) [symmetric] def(2) [symmetric])
  next
    case 3
    then have "f < 8" using r m c by linarith
    then have "u8 (f OR 0xf0) = 0xf0 + f" using nonneg or_low(4) [of f] by (simp add: u8_id)
    then show ?thesis using 3 c low dr
      by (simp add: CBU8_APPEND_UNSAFE_def append_stores enc8_def utf8_def def(1) [symmetric] def(2) [symmetric] def(3) [symmetric])
  qed
qed

interpretation write8: unicode_writer enc8 WriteUnicodeCharacter8
proof
  fix c and out :: string
  assume c: "scalar c"
  show "WriteUnicodeCharacter8 c out = Inr (length (enc8 c), out @ enc8 c)"
  proof (cases "c < 0x80")
    case True
    then show ?thesis by (simp add: WriteUnicodeCharacter8_def enc8_def utf8_def)
  next
    case False
    then obtain zs where "CBU8_APPEND_UNSAFE (out @ [CHR 0x00, CHR 0x00, CHR 0x00, CHR 0x00]) (length out) c =
        Inr ((out @ enc8 c) @ zs, length (out @ enc8 c))"
      using append8 [OF c, of out "CHR 0x00"] by auto
    then show ?thesis using False
      by (simp add: WriteUnicodeCharacter8_def CBU8_MAX_LENGTH_def resize_four resize_cut Let_def
          del: append_assoc length_append) simp
  qed
qed

interpretation write16: unicode_writer enc16 WriteUnicodeCharacter16
proof
  fix c and out :: "16 word list"
  assume c: "scalar c"
  show "WriteUnicodeCharacter16 c out = Inr (length (enc16 c), out @ enc16 c)"
  proof (cases "c < 0x10000")
    case True
    then show ?thesis using c by (simp add: WriteUnicodeCharacter16_def CBU16_LENGTH_def u32_scalar enc16_def utf16_def)
  next
    case False
    then have "(c - 0x10000) div 1024 = c div 1024 - 64" "(c - 0x10000) mod 1024 = c mod 1024"
      using div_mult_self3 [of 1024 "- 64" c] mod_mult_self3 [of "- 64" 1024 c] by simp_all
    then have e: "enc16 c = [mk16 (0xd7c0 + c div 1024), mk16 (0xdc00 + c mod 1024)]"
      using False by (simp add: enc16_def utf16_def)
    have "c mod 1024 OR 0xdc00 = 0xdc00 + c mod 1024" by (rule or_low(5)) simp_all
    moreover have "mk16 (u16 x) = mk16 x" for x by (simp add: mk16_def u16_def word_of_int_eq_iff take_bit_eq_mod)
    moreover have "std_string_resize 0 out (length out + 2) = out @ [0, 0]"
      by (simp add: std_string_resize_def numeral_eq_Suc)
    ultimately show ?thesis using False e u32_scalar [OF c]
      by (simp add: WriteUnicodeCharacter16_def CBU16_LENGTH_def CBU16_MAX_LENGTH_def CBU16_APPEND_UNSAFE_def
          append_stores and_low_numerals drop_bit_eq_div add.commute Let_def)
  qed
qed

interpretation write32: unicode_writer enc32 WriteUnicodeCharacter32
  by unfold_locales (simp add: WriteUnicodeCharacter32_def enc32_def)

end
