(* ===== verification/Utf_Convert.thy ===== *)
theory Utf_Convert
  imports Utf String_Text
begin

text \<open>
  base/strings/utf_string_conversions.cc on a target whose \<^verbatim>\<open>wchar_t\<close> has 32 bits. The template \<^verbatim>\<open>ConvertUnicode\<close> is one definition
  over a reader and a writer; its loop ends only if the reader moves on, so it is a partial function,
  \<^const>\<open>None\<close> standing for a loop that does not end, and the theorems show the result. The argument \<open>addr\<close> is
  the address at which the test for ASCII finds the string. What \<^verbatim>\<open>PrepareForUTF8Output\<close> reserves is not
  visible in the value of the output.
\<close>

section \<open>The converter\<close>

partial_function (option) convert_loop ::
  "('c list \<Rightarrow> int \<Rightarrow> int \<Rightarrow> (int \<times> int option) result) \<Rightarrow> (int \<Rightarrow> 'd list \<Rightarrow> (nat \<times> 'd list) result) \<Rightarrow>
   'c list \<Rightarrow> int \<Rightarrow> int \<Rightarrow> bool \<Rightarrow> 'd list \<Rightarrow> (bool \<times> 'd list) result option"
where
  "convert_loop rd wr src src_len32 i success output =
     (if i < src_len32 then
        (case rd src src_len32 i of
           Inl e \<Rightarrow> Some (Inl e)
         | Inr r \<Rightarrow>
             (case wr (case snd r of Some code_point \<Rightarrow> code_point | None \<Rightarrow> 0xFFFD) output of
                Inl e \<Rightarrow> Some (Inl e)
              | Inr w \<Rightarrow> convert_loop rd wr src src_len32 (fst r + 1) (if snd r = None then False else success) (snd w)))
      else Some (Inr (success, output)))"

definition ConvertUnicode ::
  "('c list \<Rightarrow> int \<Rightarrow> int \<Rightarrow> (int \<times> int option) result) \<Rightarrow> (int \<Rightarrow> 'd list \<Rightarrow> (nat \<times> 'd list) result) \<Rightarrow>
   'c list \<Rightarrow> 'd list \<Rightarrow> (bool \<times> 'd list) result option"
where
  "ConvertUnicode rd wr src output =
     convert_loop rd wr src (wrap32 (int (length src))) 0 True output"

definition PrepareForUTF8Output :: "'c list \<Rightarrow> string \<Rightarrow> string" where
  "PrepareForUTF8Output src output = []"

definition PrepareForUTF16Or32Output :: "string \<Rightarrow> 'd list \<Rightarrow> 'd list" where
  "PrepareForUTF16Or32Output src output = []"

section \<open>The conversions\<close>

text \<open>
  \<open>ascii_or\<close> is the shape that four of the conversions have: an ASCII string is copied unit by unit, any
  other one is converted. The versions that return a string ignore the flag.
\<close>

definition ascii_or :: "bool result \<Rightarrow> 'd list \<Rightarrow> (bool \<times> 'd list) result option \<Rightarrow> (bool \<times> 'd list) result option" where
  "ascii_or ascii copied converted =
     (case ascii of Inl e \<Rightarrow> Some (Inl e) | Inr b \<Rightarrow> if b then Some (Inr (True, copied)) else converted)"

definition ignore_flag :: "(bool \<times> 'd list) result option \<Rightarrow> 'd list result option" where
  "ignore_flag r = map_option (\<lambda>r. bind_result r (\<lambda>(_, output). Inr output)) r"

definition WideToUTF8 :: "nat \<Rightarrow> 32 word list \<Rightarrow> string \<Rightarrow> (bool \<times> string) result option" where
  "WideToUTF8 addr src output =
     ascii_or (DoIsStringASCII 4 addr (map val32 src)) (map (\<lambda>w. mk8 (val32 w)) src)
       (ConvertUnicode ReadUnicodeCharacter32 WriteUnicodeCharacter8 src (PrepareForUTF8Output src output))"

definition WideToUTF8_string :: "nat \<Rightarrow> 32 word list \<Rightarrow> string result option" where
  "WideToUTF8_string addr wide =
     ignore_flag (ascii_or (DoIsStringASCII 4 addr (map val32 wide)) (map (\<lambda>w. mk8 (val32 w)) wide)
       (ConvertUnicode ReadUnicodeCharacter32 WriteUnicodeCharacter8 wide (PrepareForUTF8Output wide [])))"

definition UTF8ToWide :: "nat \<Rightarrow> string \<Rightarrow> 32 word list \<Rightarrow> (bool \<times> 32 word list) result option" where
  "UTF8ToWide addr src output =
     ascii_or (DoIsStringASCII 1 addr (map val8 src)) (map (\<lambda>c. mk32 (val8 c)) src)
       (ConvertUnicode ReadUnicodeCharacter8 WriteUnicodeCharacter32 src (PrepareForUTF16Or32Output src output))"

definition UTF8ToWide_string :: "nat \<Rightarrow> string \<Rightarrow> 32 word list result option" where
  "UTF8ToWide_string addr str8 =
     ignore_flag (ascii_or (DoIsStringASCII 1 addr (map val8 str8)) (map (\<lambda>c. mk32 (val8 c)) str8)
       (ConvertUnicode ReadUnicodeCharacter8 WriteUnicodeCharacter32 str8 (PrepareForUTF16Or32Output str8 [])))"

definition WideToUTF16 :: "32 word list \<Rightarrow> 16 word list \<Rightarrow> (bool \<times> 16 word list) result option" where
  "WideToUTF16 src output = ConvertUnicode ReadUnicodeCharacter32 WriteUnicodeCharacter16 src []"

definition WideToUTF16_string :: "32 word list \<Rightarrow> 16 word list result option" where
  "WideToUTF16_string wide = ignore_flag (WideToUTF16 wide [])"

definition UTF16ToWide :: "16 word list \<Rightarrow> 32 word list \<Rightarrow> (bool \<times> 32 word list) result option" where
  "UTF16ToWide src output = ConvertUnicode ReadUnicodeCharacter16 WriteUnicodeCharacter32 src []"

definition UTF16ToWide_string :: "16 word list \<Rightarrow> 32 word list result option" where
  "UTF16ToWide_string str16 = ignore_flag (UTF16ToWide str16 [])"

definition UTF8ToUTF16 :: "nat \<Rightarrow> string \<Rightarrow> 16 word list \<Rightarrow> (bool \<times> 16 word list) result option" where
  "UTF8ToUTF16 addr src output =
     ascii_or (DoIsStringASCII 1 addr (map val8 src)) (map (\<lambda>c. mk16 (val8 c)) src)
       (ConvertUnicode ReadUnicodeCharacter8 WriteUnicodeCharacter16 src (PrepareForUTF16Or32Output src output))"

definition UTF8ToUTF16_string :: "nat \<Rightarrow> string \<Rightarrow> 16 word list result option" where
  "UTF8ToUTF16_string addr str8 =
     ignore_flag (ascii_or (DoIsStringASCII 1 addr (map val8 str8)) (map (\<lambda>c. mk16 (val8 c)) str8)
       (ConvertUnicode ReadUnicodeCharacter8 WriteUnicodeCharacter16 str8 (PrepareForUTF16Or32Output str8 [])))"

definition UTF16ToUTF8 :: "nat \<Rightarrow> 16 word list \<Rightarrow> string \<Rightarrow> (bool \<times> string) result option" where
  "UTF16ToUTF8 addr src output =
     ascii_or (DoIsStringASCII 2 addr (map val16 src)) (map (\<lambda>u. mk8 (val16 u)) src)
       (ConvertUnicode ReadUnicodeCharacter16 WriteUnicodeCharacter8 src (PrepareForUTF8Output src output))"

definition UTF16ToUTF8_string :: "nat \<Rightarrow> 16 word list \<Rightarrow> string result option" where
  "UTF16ToUTF8_string addr str16 =
     ignore_flag (ascii_or (DoIsStringASCII 2 addr (map val16 str16)) (map (\<lambda>u. mk8 (val16 u)) str16)
       (UTF16ToUTF8 addr str16 []))"

definition ASCIIToUTF16 :: "nat \<Rightarrow> string \<Rightarrow> 16 word list result" where
  "ASCIIToUTF16 addr ascii =
     bind_result (DoIsStringASCII 1 addr (map val8 ascii)) (\<lambda>b.
     bind_result (dcheck b) (\<lambda>_. Inr (map (\<lambda>c. mk16 (val8 c)) ascii)))"

definition UTF16ToASCII :: "nat \<Rightarrow> 16 word list \<Rightarrow> string result" where
  "UTF16ToASCII addr str16 =
     bind_result (DoIsStringASCII 2 addr (map val16 str16)) (\<lambda>b.
     bind_result (dcheck b) (\<lambda>_. Inr (map (\<lambda>u. mk8 (val16 u)) str16)))"

section \<open>What a converter computes\<close>

text \<open>Text is a sequence of encoded scalar values.\<close>

definition is_text :: "(int \<Rightarrow> 'c list) \<Rightarrow> int list \<Rightarrow> 'c list \<Rightarrow> bool" where
  "is_text enc cs s \<longleftrightarrow> list_all scalar cs \<and> s = concat (map enc cs)"

lemma is_text_simps [simp]:
  "is_text enc [] s \<longleftrightarrow> s = []"
  "is_text enc (c # cs) s \<longleftrightarrow> scalar c \<and> (\<exists>r. s = enc c @ r \<and> is_text enc cs r)"
  by (auto simp: is_text_def)

lemma replacement_scalar: "scalar 0xFFFD"
  by (simp add: scalar_def)

lemma convert_loop_step:
  assumes "i < len" "rd s len i = Inr (j, r)"
    "wr (case r of Some c \<Rightarrow> c | None \<Rightarrow> 0xFFFD) out = Inr (n, out')"
  shows "convert_loop rd wr s len i ok out = convert_loop rd wr s len (j + 1) (if r = None then False else ok) out'"
  using assms by (subst convert_loop.simps) simp

context unicode_reader
begin

lemma text_head:
  assumes "scalar c" "is_text enc ds (enc c @ r)"
  shows "\<exists>es. ds = c # es \<and> is_text enc es r"
proof (cases ds)
  case Nil
  then show ?thesis using assms enc_nonempty by simp
next
  case (Cons d es)
  then obtain q where d: "scalar d" "enc c @ r = enc d @ q" "is_text enc es q" using assms(2) by auto
  have "prefix (enc d) (enc c @ r)" unfolding d(2) by simp
  then have "c = d" using enc_unique [OF assms(1) d(1), of "enc c @ r"] by simp
  with d Cons show ?thesis by simp
qed

lemma no_text:
  assumes "\<forall>c. scalar c \<longrightarrow> \<not> prefix (enc c) rest" "rest \<noteq> []"
  shows "\<not> is_text enc ds rest"
  using assms by (cases ds) auto

end

locale unicode_converter = unicode_reader enc rd + unicode_writer enc' wr
  for enc :: "int \<Rightarrow> 'c list" and rd and enc' :: "int \<Rightarrow> 'd list" and wr
begin

lemma loop_converts:
  "\<exists>cs. list_all scalar cs \<and>
     convert_loop rd wr (pre @ rest) (int (length (pre @ rest))) (int (length pre)) ok out =
       Some (Inr (ok \<and> (\<exists>ds. is_text enc ds rest), out @ concat (map enc' cs))) \<and>
     (\<forall>ds. is_text enc ds rest \<longrightarrow> cs = ds)"
proof (induction "length rest" arbitrary: pre rest ok out rule: less_induct)
  case less
  let ?s = "pre @ rest"
  show ?case
  proof (cases "rest = []")
    case True
    then have "is_text enc ds rest \<longleftrightarrow> ds = []" for ds
      using enc_nonempty by (cases ds) auto
    then show ?thesis using True by (intro exI [of _ "[]"]) (simp add: convert_loop.simps)
  next
    case ne: False
    then have lt: "int (length pre) < int (length ?s)" by simp
    show ?thesis
    proof (cases "\<exists>c. scalar c \<and> prefix (enc c) rest")
      case True
      then obtain c r where c: "scalar c" "rest = enc c @ r" by (auto elim: prefixE)
      have "length r < length rest" using c enc_nonempty by (cases "enc c") auto
      from less.hyps [OF this, of "pre @ enc c" ok "out @ enc' c"] obtain cs where
        cs: "list_all scalar cs" "\<forall>ds. is_text enc ds r \<longrightarrow> cs = ds"
          "convert_loop rd wr ?s (int (length ?s)) (int (length (pre @ enc c))) ok (out @ enc' c) =
            Some (Inr (ok \<and> (\<exists>ds. is_text enc ds r), out @ enc' c @ concat (map enc' cs)))"
        using c(2) by auto
      have "convert_loop rd wr ?s (int (length ?s)) (int (length pre)) ok out =
          convert_loop rd wr ?s (int (length ?s)) (int (length (pre @ enc c))) ok (out @ enc' c)"
        using convert_loop_step [where rd = rd and s = ?s, OF lt read_scalar [OF c(1), of ?s pre r], of wr out _ "out @ enc' c" ok]
          write_scalar [OF c(1), of out] c(2) by simp
      moreover have "(\<exists>ds. is_text enc ds rest) \<longleftrightarrow> (\<exists>ds. is_text enc ds r)"
        using text_head [OF c(1), of _ r] c by (metis is_text_simps(2))
      moreover have "\<forall>ds. is_text enc ds rest \<longrightarrow> c # cs = ds"
        using text_head [OF c(1), of _ r] c cs(2) by blast
      ultimately show ?thesis using cs c(1) by (intro exI [of _ "c # cs"]) simp
    next
      case False
      then obtain j where j: "rd ?s (int (length ?s)) (int (length pre)) = Inr (j, None)"
          "int (length pre) \<le> j" "j < int (length ?s)"
        using read_none [OF _ ne, of ?s pre] by blast
      define k where "k = nat j + 1 - length pre"
      have k: "0 < k" "k \<le> length rest" "j + 1 = int (length (pre @ take k rest))" using j(2,3) by (auto simp: k_def)
      have sp: "(pre @ take k rest) @ drop k rest = ?s" by simp
      have "length (drop k rest) < length rest" using k ne by simp
      from less.hyps [OF this, of "pre @ take k rest" False "out @ enc' 0xFFFD", unfolded sp k(3) [symmetric]]
      obtain cs where
        cs: "list_all scalar cs" "convert_loop rd wr ?s (int (length ?s)) (j + 1) False (out @ enc' 0xFFFD) =
            Some (Inr (False, out @ enc' 0xFFFD @ concat (map enc' cs)))"
        by auto
      have nt: "\<not> is_text enc ds rest" for ds using no_text False ne by blast
      have "convert_loop rd wr ?s (int (length ?s)) (int (length pre)) ok out =
          convert_loop rd wr ?s (int (length ?s)) (j + 1) False (out @ enc' 0xFFFD)"
        using convert_loop_step [where rd = rd and s = ?s, OF lt j(1), of wr out _ "out @ enc' 0xFFFD" ok]
          write_scalar [OF replacement_scalar, of out] by simp
      then show ?thesis using cs nt replacement_scalar by (intro exI [of _ "0xFFFD # cs"]) simp
    qed
  qed
qed

lemma ConvertUnicode_converts:
  assumes "length s < 2 ^ 31"
  shows "\<exists>cs. list_all scalar cs \<and>
     ConvertUnicode rd wr s out = Some (Inr ((\<exists>ds. is_text enc ds s), out @ concat (map enc' cs))) \<and>
     (\<forall>ds. is_text enc ds s \<longrightarrow> cs = ds)"
proof -
  have "wrap32 (int (length s)) = int (length s)" using assms by (intro wrap32_id) (simp add: is_i32_def)
  then show ?thesis using loop_converts [of "[]" s True out] by (simp add: ConvertUnicode_def)
qed

end

interpretation c32_8: unicode_converter enc32 ReadUnicodeCharacter32 enc8 WriteUnicodeCharacter8 ..
interpretation c8_32: unicode_converter enc8 ReadUnicodeCharacter8 enc32 WriteUnicodeCharacter32 ..
interpretation c32_16: unicode_converter enc32 ReadUnicodeCharacter32 enc16 WriteUnicodeCharacter16 ..
interpretation c16_32: unicode_converter enc16 ReadUnicodeCharacter16 enc32 WriteUnicodeCharacter32 ..
interpretation c8_16: unicode_converter enc8 ReadUnicodeCharacter8 enc16 WriteUnicodeCharacter16 ..
interpretation c16_8: unicode_converter enc16 ReadUnicodeCharacter16 enc8 WriteUnicodeCharacter8 ..

section \<open>ASCII\<close>

text \<open>A unit below 128 is its own encoding; this is what the copying of ASCII strings rests on.\<close>

locale ascii_unit = character val mk for val :: "'c \<Rightarrow> int" and mk +
  fixes enc :: "int \<Rightarrow> 'c list"
  assumes enc_ascii: "0 \<le> c \<Longrightarrow> c < 128 \<Longrightarrow> enc c = [mk c]"
begin

lemma ascii_text: "all_ascii (map val s) \<Longrightarrow> is_text enc (map val s) s"
  by (induction s) (auto simp: all_ascii_def scalar_def enc_ascii mk_val)

lemma ascii_copy: "all_ascii cs \<Longrightarrow> map mk cs = concat (map enc cs)"
  by (induction cs) (simp_all add: all_ascii_def enc_ascii)

end

interpretation unit8: ascii_unit val8 mk8 enc8
  by unfold_locales (simp add: enc8_def utf8_def)

interpretation unit16: ascii_unit val16 mk16 enc16
  by unfold_locales (simp add: enc16_def utf16_def)

interpretation unit32: ascii_unit val32 mk32 enc32
proof
  show "mk32 (val32 c) = c" for c by (simp add: mk32_def val32_def)
  show "val32 (mk32 i) = i" if "0 \<le> i" "i < 128" for i
    using that by (simp add: val32_def mk32_def signed_of_int signed_take_bit_int_eq_self)
qed (simp add: enc32_def)

lemma widths:
  "of_width 1 (map val8 s)" "of_width 2 (map val16 t)" "of_width 4 (map val32 w)"
proof -
  have "- 128 \<le> val8 c" "val8 c < 256" for c
    using of_char_bounds [of c] by (auto simp: val8_def Let_def)
  then show "of_width 1 (map val8 s)" by (simp add: of_width_def list_all_iff)
  show "of_width 2 (map val16 t)" using val16_bounds by (auto simp: of_width_def list_all_iff intro: order_trans [of _ 0])
  have "- (2 ^ 31) \<le> val32 u" "val32 u < 2 ^ 32" for u
    using sint_greater_eq [of u] sint_less [of u] by (simp_all add: val32_def)
  then show "of_width 4 (map val32 w)" by (simp add: of_width_def list_all_iff)
qed

text \<open>
  The specification of a conversion: it returns whatever the input is, its output is text, and the flag
  says whether the input was text; the output is then the same text.
\<close>

definition converts ::
  "(int \<Rightarrow> 'c list) \<Rightarrow> (int \<Rightarrow> 'd list) \<Rightarrow> 'c list \<Rightarrow> (bool \<times> 'd list) result option \<Rightarrow> bool" where
  "converts enc enc' s r \<longleftrightarrow>
     (\<exists>cs. list_all scalar cs \<and> r = Some (Inr ((\<exists>ds. is_text enc ds s), concat (map enc' cs))) \<and>
       (\<forall>ds. is_text enc ds s \<longrightarrow> cs = ds))"

lemma converts_ignore: "converts enc enc' s r \<Longrightarrow> \<exists>cs. list_all scalar cs \<and> ignore_flag r = Some (Inr (concat (map enc' cs))) \<and>
    (\<forall>ds. is_text enc ds s \<longrightarrow> cs = ds)"
  by (auto simp: converts_def ignore_flag_def)

lemma converts_text:
  assumes "is_text enc cs s" "\<forall>ds. is_text enc ds s \<longrightarrow> ds = cs"
  shows "converts enc enc' s (Some (Inr (True, concat (map enc' cs))))"
proof -
  have "list_all scalar cs" using assms(1) by (simp add: is_text_def)
  then show ?thesis using assms unfolding converts_def by blast
qed

locale ascii_converter = unicode_converter enc rd enc' wr + src: ascii_unit val mk enc + dst: ascii_unit val' mk' enc'
  for enc :: "int \<Rightarrow> 'c list" and rd and enc' :: "int \<Rightarrow> 'd list" and wr and val mk val' mk'
begin

lemma ascii_or_converts:
  assumes "length s < 2 ^ 31"
  shows "converts enc enc' s (ascii_or (Inr (all_ascii (map val s))) (map (\<lambda>c. mk' (val c)) s) (ConvertUnicode rd wr s []))"
proof (cases "all_ascii (map val s)")
  case True
  have t: "is_text enc (map val s) s" using src.ascii_text [OF True] .
  have "map (\<lambda>c. mk' (val c)) s = concat (map enc' (map val s))"
    using dst.ascii_copy [OF True] by (simp add: comp_def)
  then have r: "ascii_or (Inr (all_ascii (map val s))) (map (\<lambda>c. mk' (val c)) s) (ConvertUnicode rd wr s []) =
      Some (Inr (True, concat (map enc' (map val s))))" using True by (simp add: ascii_or_def)
  obtain cs where "\<forall>ds. is_text enc ds s \<longrightarrow> cs = ds" using ConvertUnicode_converts [OF assms] by blast
  with t have "\<forall>ds. is_text enc ds s \<longrightarrow> ds = map val s" by blast
  then show ?thesis unfolding r by (rule converts_text [OF t])
next
  case False
  then show ?thesis using ConvertUnicode_converts [OF assms, of "[]"] by (simp add: converts_def ascii_or_def)
qed

end

interpretation a32_8: ascii_converter enc32 ReadUnicodeCharacter32 enc8 WriteUnicodeCharacter8 val32 mk32 val8 mk8 ..
interpretation a8_32: ascii_converter enc8 ReadUnicodeCharacter8 enc32 WriteUnicodeCharacter32 val8 mk8 val32 mk32 ..
interpretation a8_16: ascii_converter enc8 ReadUnicodeCharacter8 enc16 WriteUnicodeCharacter16 val8 mk8 val16 mk16 ..
interpretation a16_8: ascii_converter enc16 ReadUnicodeCharacter16 enc8 WriteUnicodeCharacter8 val16 mk16 val8 mk8 ..

section \<open>Properties of the conversions\<close>

text \<open>Where the test for ASCII may find a string of \<open>n\<close> units of \<open>sz\<close> bytes, and lengths that fit in 32 bits.\<close>

definition fits :: "nat \<Rightarrow> nat \<Rightarrow> nat \<Rightarrow> bool" where
  "fits sz addr n \<longleftrightarrow> n < 2 ^ 31 \<and> addr + sz * n < 2 ^ 64"

lemma fits_test:
  "fits 1 addr (length s) \<Longrightarrow> DoIsStringASCII 1 addr (map val8 s) = Inr (all_ascii (map val8 s))"
  "fits 2 addr (length t) \<Longrightarrow> DoIsStringASCII 2 addr (map val16 t) = Inr (all_ascii (map val16 t))"
  "fits 4 addr (length w) \<Longrightarrow> DoIsStringASCII 4 addr (map val32 w) = Inr (all_ascii (map val32 w))"
  using ascii_test_eq [OF _ widths(1) [of s], of addr] ascii_test_eq [OF _ widths(2) [of t], of addr]
    ascii_test_eq [OF _ widths(3) [of w], of addr] by (simp_all add: fits_def)


lemma utf8_utf16_converts:
  "fits 1 addr (length s) \<Longrightarrow> converts enc8 enc16 s (UTF8ToUTF16 addr s out)"
  "fits 2 addr (length t) \<Longrightarrow> converts enc16 enc8 t (UTF16ToUTF8 addr t out')"
  using a8_16.ascii_or_converts [of s] a16_8.ascii_or_converts [of t] fits_test(1) [of addr s] fits_test(2) [of addr t]
  by (simp_all add: UTF8ToUTF16_def UTF16ToUTF8_def PrepareForUTF8Output_def PrepareForUTF16Or32Output_def fits_def)

lemma utf8_wide_converts:
  "fits 1 addr (length s) \<Longrightarrow> converts enc8 enc32 s (UTF8ToWide addr s out)"
  "fits 4 addr (length w) \<Longrightarrow> converts enc32 enc8 w (WideToUTF8 addr w out')"
  using a8_32.ascii_or_converts [of s] a32_8.ascii_or_converts [of w] fits_test(1) [of addr s] fits_test(3) [of addr w]
  by (simp_all add: UTF8ToWide_def WideToUTF8_def PrepareForUTF8Output_def PrepareForUTF16Or32Output_def fits_def)

lemma utf16_wide_converts:
  "length t < 2 ^ 31 \<Longrightarrow> converts enc16 enc32 t (UTF16ToWide t out)"
  "length w < 2 ^ 31 \<Longrightarrow> converts enc32 enc16 w (WideToUTF16 w out')"
  using c16_32.ConvertUnicode_converts [of t "[]"] c32_16.ConvertUnicode_converts [of w "[]"]
  by (simp_all add: UTF16ToWide_def WideToUTF16_def converts_def)

lemma string_versions:
  "UTF8ToUTF16_string addr s = ignore_flag (UTF8ToUTF16 addr s [])"
  "UTF16ToUTF8_string addr t = ignore_flag (UTF16ToUTF8 addr t [])"
  "UTF8ToWide_string addr s = ignore_flag (UTF8ToWide addr s [])"
  "WideToUTF8_string addr w = ignore_flag (WideToUTF8 addr w [])"
  by (simp_all add: UTF8ToUTF16_string_def UTF8ToUTF16_def UTF16ToUTF8_string_def UTF16ToUTF8_def
      UTF8ToWide_string_def UTF8ToWide_def WideToUTF8_string_def WideToUTF8_def ascii_or_def split: sum.split)

text \<open>
  C37. All six conversions between UTF-8, UTF-16 and wide strings. On every input below two gigabytes they
  return without a read or a write outside a string. The output is well-formed, also when the input is
  not; the flag says exactly whether the input is well-formed, surrogates, overlong forms, truncated
  sequences and values above 10FFFF excluded; and of well-formed input the output is the encoding of the
  same characters. The versions that return a string give that output.
\<close>

theorem conversions_correct:
  assumes "fits 1 a1 (length s)" "fits 2 a2 (length t)" "fits 4 a4 (length w)"
  shows "converts enc8 enc16 s (UTF8ToUTF16 a1 s out16) \<and> converts enc16 enc8 t (UTF16ToUTF8 a2 t out8) \<and>
    converts enc8 enc32 s (UTF8ToWide a1 s out32) \<and> converts enc32 enc8 w (WideToUTF8 a4 w out8) \<and>
    converts enc16 enc32 t (UTF16ToWide t out32) \<and> converts enc32 enc16 w (WideToUTF16 w out16) \<and>
    UTF8ToUTF16_string a1 s = ignore_flag (UTF8ToUTF16 a1 s []) \<and>
    UTF16ToUTF8_string a2 t = ignore_flag (UTF16ToUTF8 a2 t []) \<and>
    UTF8ToWide_string a1 s = ignore_flag (UTF8ToWide a1 s []) \<and>
    WideToUTF8_string a4 w = ignore_flag (WideToUTF8 a4 w [])"
  using assms utf8_utf16_converts utf8_wide_converts utf16_wide_converts string_versions
  by (auto simp: fits_def)

theorem conversions_correct_witness:
  "\<exists>cs. list_all scalar cs \<and> UTF8ToUTF16 64 [CHR 0xED, CHR 0xA0, CHR 0x80] [] = Some (Inr (False, concat (map enc16 cs)))"
proof -
  let ?s = "[CHR 0xED, CHR 0xA0, CHR 0x80]"
  have "CBU8_NEXT ?s 0 3 = Inr (- 1, 3)" by code_simp
  then have "no_char8 ?s" using CBU8_NEXT_cases [of ?s "[]"] by (auto simp: scalar_def)
  then have "\<not> is_text enc8 ds ?s" for ds using read8.no_text [of ?s ds] by (simp add: no_char8_def)
  then show ?thesis using conversions_correct [of 64 ?s 64 "[]" 64 "[]" "[]" "[]" "[]"]
    by (auto simp: converts_def fits_def)
qed



end
