(* ===== verification/Utf_Text.thy ===== *)
theory Utf_Text
  imports Utf_Convert
begin

text \<open>
  The two functions of base/strings/string_util.cc that walk over UTF-8: \<^verbatim>\<open>IsStringUTF8\<close> forwards and
  \<^verbatim>\<open>TruncateUTF8ToByteSize\<close> backwards.
\<close>

section \<open>Walking over UTF-8\<close>

text \<open>The loop of \<^verbatim>\<open>IsStringUTF8\<close>; its end rests on the macro as well.\<close>

partial_function (option) utf8_loop :: "string \<Rightarrow> int \<Rightarrow> int \<Rightarrow> bool result option" where
  "utf8_loop src src_len char_index =
     (if char_index < src_len then
        (case CBU8_NEXT src char_index src_len of
           Inl e \<Rightarrow> Some (Inl e)
         | Inr r \<Rightarrow> if \<not> IsValidCharacter (u32 (fst r)) then Some (Inr False) else utf8_loop src src_len (snd r))
      else Some (Inr True))"

definition IsStringUTF8 :: "string \<Rightarrow> bool result option" where
  "IsStringUTF8 str = utf8_loop str (wrap32 (int (length str))) 0"

text \<open>
  The loop of \<^verbatim>\<open>TruncateUTF8ToByteSize\<close> goes back from \<open>char_index\<close> to a position where a valid character
  ends before the limit; the value is the position behind it, or a negative one.
\<close>

function truncate_loop :: "string \<Rightarrow> int \<Rightarrow> int \<Rightarrow> int result" where
  "truncate_loop data truncation_length char_index =
     (if char_index \<ge> 0 then
        bind_result (CBU8_NEXT data char_index truncation_length) (\<lambda>(code_point, next).
          if \<not> IsValidCharacter (u32 code_point) \<or> \<not> IsValidCodepoint (u32 code_point)
          then truncate_loop data truncation_length (char_index - 1)
          else Inr next)
      else Inr char_index)"
  by pat_completeness auto
termination by (relation "measure (\<lambda>(data, truncation_length, char_index). nat (char_index + 1))") auto

declare truncate_loop.simps [simp del]

definition TruncateUTF8ToByteSize :: "string \<Rightarrow> nat \<Rightarrow> string result" where
  "TruncateUTF8ToByteSize inp byte_size =
     (if byte_size > length inp then Inr inp
      else bind_result (dcheck (byte_size \<le> 2 ^ 31 - 1)) (\<lambda>_.
        let truncation_length = wrap32 (int byte_size) in
        bind_result (truncate_loop inp truncation_length (sub32 truncation_length 1)) (\<lambda>char_index.
          Inr (if char_index \<ge> 0 then take (nat char_index) inp else []))))"

section \<open>Well-formed UTF-8 and its prefixes\<close>

definition noncharacter :: "int \<Rightarrow> bool" where
  "noncharacter c \<longleftrightarrow> 0xFDD0 \<le> c \<and> c \<le> 0xFDEF \<or> c mod 0x10000 \<in> {0xFFFE, 0xFFFF}"

lemma valid_character:
  assumes "scalar c"
  shows "IsValidCharacter c \<longleftrightarrow> \<not> noncharacter c"
proof -
  have c: "0 \<le> c" "c < 2 ^ 32" using assms by (auto simp: scalar_def)
  have "c AND 0xFFFE = c mod 2 ^ 16 AND 0xFFFE"
    unfolding and_low [symmetric] by (simp add: and.assoc)
  moreover have "c mod 2 ^ 16 AND (2 ^ 1 * (2 ^ 15 - 1)) = c mod 2 ^ 16 - c mod 2 ^ 16 mod 2 ^ 1"
    by (rule and_high) simp_all
  ultimately have m: "c AND 0xFFFE = c mod 0x10000 - c mod 0x10000 mod 2" by simp
  have "c mod 0x10000 - c mod 0x10000 mod 2 = 0xFFFE \<longleftrightarrow> c mod 0x10000 \<in> {0xFFFE, 0xFFFF}"
    by (auto simp: minus_mod_eq_mult_div)
  moreover have "c < 0xD800 \<or> 0xE000 \<le> c \<and> c < 0xFDD0 \<Longrightarrow> c mod 0x10000 = c" using c by auto
  ultimately show ?thesis using assms m by (auto simp: IsValidCharacter_def noncharacter_def scalar_def)
qed

lemma sentinel_invalid: "\<not> IsValidCharacter (u32 (- 1))"
  by (simp add: u32_def IsValidCharacter_def)

text \<open>Text without noncharacters.\<close>

definition plain_text :: "int list \<Rightarrow> string \<Rightarrow> bool" where
  "plain_text cs s \<longleftrightarrow> is_text enc8 cs s \<and> list_all (\<lambda>c. \<not> noncharacter c) cs"

lemma utf8_loop_step:
  assumes "i < len" "CBU8_NEXT s i len = Inr (c, j)"
  shows "utf8_loop s len i = (if IsValidCharacter (u32 c) then utf8_loop s len j else Some (Inr False))"
  using assms by (subst utf8_loop.simps) simp

lemma utf8_loop_eq:
  "utf8_loop (pre @ rest) (int (length (pre @ rest))) (int (length pre)) = Some (Inr (\<exists>cs. plain_text cs rest))"
proof (induction "length rest" arbitrary: pre rest rule: less_induct)
  case less
  let ?s = "pre @ rest"
  show ?case
  proof (cases "rest = []")
    case True
    then have "plain_text [] rest" by (simp add: plain_text_def)
    then show ?thesis using True by (subst utf8_loop.simps) auto
  next
    case False
    then have lt: "int (length pre) < int (length ?s)" by simp
    from CBU8_NEXT_cases [OF False, of pre] show ?thesis
    proof (elim disjE exE conjE)
      fix c assume c: "scalar c" "prefix (enc8 c) rest"
        "CBU8_NEXT ?s (int (length pre)) (int (length ?s)) = Inr (c, int (length pre + length (enc8 c)))"
      obtain r where r: "rest = enc8 c @ r" using c(2) by (auto elim: prefixE)
      have step: "utf8_loop ?s (int (length ?s)) (int (length pre)) =
          (if \<not> noncharacter c then utf8_loop ((pre @ enc8 c) @ r) (int (length ((pre @ enc8 c) @ r))) (int (length (pre @ enc8 c)))
           else Some (Inr False))"
        using utf8_loop_step [OF lt c(3)] c(1) r by (simp add: u32_scalar valid_character)
      have "length r < length rest" using r read8.enc_nonempty [OF c(1)] by simp
      from less.hyps [OF this, of "pre @ enc8 c"] step
      have "utf8_loop ?s (int (length ?s)) (int (length pre)) = Some (Inr (\<not> noncharacter c \<and> (\<exists>cs. plain_text cs r)))"
        by simp
      moreover have "(\<exists>cs. plain_text cs rest) \<longleftrightarrow> \<not> noncharacter c \<and> (\<exists>cs. plain_text cs r)"
      proof
        assume "\<exists>cs. plain_text cs rest"
        then show "\<not> noncharacter c \<and> (\<exists>cs. plain_text cs r)"
          using read8.text_head [OF c(1), of _ r] r by (fastforce simp: plain_text_def)
      next
        assume "\<not> noncharacter c \<and> (\<exists>cs. plain_text cs r)"
        then obtain cs where "plain_text cs r" "\<not> noncharacter c" by blast
        then have "plain_text (c # cs) rest" using c(1) r by (auto simp: plain_text_def)
        then show "\<exists>cs. plain_text cs rest" ..
      qed
      ultimately show ?thesis by simp
    next
      fix j assume n: "no_char8 rest" "CBU8_NEXT ?s (int (length pre)) (int (length ?s)) = Inr (- 1, j)"
      have "\<not> is_text enc8 cs rest" for cs using read8.no_text [of rest cs] n(1) False by (simp add: no_char8_def)
      then show ?thesis using utf8_loop_step [OF lt n(2)] sentinel_invalid by (auto simp: plain_text_def)
    qed
  qed
qed

text \<open>
  C39. \<open>IsStringUTF8\<close> returns on every string below two gigabytes, without reading outside it, and says
  whether the string is well-formed UTF-8 of characters other than the noncharacters.
\<close>

theorem IsStringUTF8_correct:
  assumes "length s < 2 ^ 31"
  shows "IsStringUTF8 s = Some (Inr (\<exists>cs. is_text enc8 cs s \<and> list_all (\<lambda>c. \<not> noncharacter c) cs))"
proof -
  have "wrap32 (int (length s)) = int (length s)" using assms by (intro wrap32_id) (simp add: is_i32_def)
  then show ?thesis using utf8_loop_eq [of "[]" s] by (simp add: IsStringUTF8_def plain_text_def)
qed

theorem IsStringUTF8_correct_witness:
  "IsStringUTF8 [CHR 0xE6, CHR 0x95, CHR 0xB4, CHR 0x21] = Some (Inr True)"
proof -
  have "is_text enc8 [0x6574, 0x21] [CHR 0xE6, CHR 0x95, CHR 0xB4, CHR 0x21] \<and> list_all (\<lambda>c. \<not> noncharacter c) [0x6574, 0x21]"
    unfolding is_text_def noncharacter_def by code_simp
  then have "\<exists>cs. is_text enc8 cs [CHR 0xE6, CHR 0x95, CHR 0xB4, CHR 0x21] \<and> list_all (\<lambda>c. \<not> noncharacter c) cs" by blast
  then show ?thesis using IsStringUTF8_correct [of "[CHR 0xE6, CHR 0x95, CHR 0xB4, CHR 0x21]"] by simp
qed

text \<open>The macro with a limit reads only what is before the limit.\<close>

lemma byte_at_take: "i < int n \<Longrightarrow> byte_at s i = byte_at (take n s) i"
  by (auto simp: byte_at_def elem_at_def)

lemma next_trail_take: "i < int n \<Longrightarrow> next_trail s i c = next_trail (take n s) i c"
  using byte_at_take [of i n s] by (simp add: next_trail_def)

lemma last_trails_take: "i + int k \<le> int n \<Longrightarrow> last_trails s k (i, c, bad) = last_trails (take n s) k (i, c, bad)"
proof (induction k arbitrary: i c bad)
  case (Suc k)
  have "next_trail s i c = next_trail (take n s) i c" using Suc.prems by (intro next_trail_take) simp
  moreover have "last_trails s k (i + 1, c', bad') = last_trails (take n s) k (i + 1, c', bad')" for c' bad'
    using Suc.prems by (intro Suc.IH) simp
  ultimately show ?case
    by (cases "next_trail (take n s) i c") (auto simp: next_trail_def bind_result_def split: sum.splits)
qed simp

lemma trail_switch_take: "i + int k \<le> int n \<Longrightarrow> trail_switch s k i c = trail_switch (take n s) k i c"
proof -
  assume i: "i + int k \<le> int n"
  have "last_trails s 2 (i + 1, c', bad) = last_trails (take n s) 2 (i + 1, c', bad)" if "k = 3" for c' bad
    using i that by (intro last_trails_take) simp
  moreover have "next_trail s i c = next_trail (take n s) i c" if "k = 3" using i that by (intro next_trail_take) simp
  moreover have "last_trails s k (i, c, 0) = last_trails (take n s) k (i, c, 0)" using i by (rule last_trails_take)
  ultimately show ?thesis
    by (cases "k = 3") (auto simp: trail_switch_def next_trail_def bind_result_def split: sum.splits)
qed

lemma skip_trails_take: "i + int k \<le> int n \<Longrightarrow> skip_trails s i k = skip_trails (take n s) i k"
proof (induction k arbitrary: i)
  case (Suc k)
  have "byte_at s i = byte_at (take n s) i" using Suc.prems by (intro byte_at_take) simp
  then show ?case using Suc.IH [of "i + 1"] Suc.prems by (simp add: bind_result_def split: sum.split)
qed simp

lemma skip_trails_to_take: "skip_trails_to s i (int n) = skip_trails_to (take n s) i (int n)"
proof (induction s i "int n" rule: skip_trails_to.induct)
  case (1 s i)
  show ?case
  proof (cases "i < int n")
    case True
    then show ?thesis using 1 byte_at_take [OF True, of s]
      by (auto simp: skip_trails_to.simps [of _ i] bind_result_def split: sum.split)
  qed (simp add: skip_trails_to.simps [of _ i])
qed

lemma body_take: "utf8_nextCharSafeBody s i (int n) c strict = utf8_nextCharSafeBody (take n s) i (int n) c strict"
proof (cases "i + int (CBU8_COUNT_TRAIL_BYTES c) \<le> int n")
  case True
  show ?thesis
    unfolding utf8_nextCharSafeBody_def Let_def trail_switch_take [OF True, of s] skip_trails_take [OF True, of s]
    using True by simp
next
  case False
  then show ?thesis using skip_trails_to_take [of s i n] by (simp add: utf8_nextCharSafeBody_def Let_def)
qed

lemma CBU8_NEXT_take: "i < int n \<Longrightarrow> CBU8_NEXT s i (int n) = CBU8_NEXT (take n s) i (int n)"
proof -
  assume "i < int n"
  then have "elem_at s i = elem_at (take n s) i" by (auto simp: elem_at_def)
  then show ?thesis unfolding CBU8_NEXT_def by (simp only: body_take [of s])
qed

section \<open>Truncation\<close>

lemma enc8_trails:
  assumes "scalar c" "enc8 c = b # ts"
  shows "list_all is_trail ts"
proof -
  have "prefix (enc8 c) (b # ts)" using assms(2) by simp
  with assms(1) show ?thesis
  proof (cases rule: enc8_prefix)
    case 1
    then show ?thesis using assms(2) by (simp add: enc8_def utf8_def)
  next
    case (2 us)
    then show ?thesis using legal_complete(3) [OF assms(1) 2(1,2)] assms(2) by (simp add: legal_def)
  qed
qed

lemma trail_no_char: "is_trail x \<Longrightarrow> no_char8 (x # xs)"
  unfolding no_char8_def
proof (intro allI impI notI)
  fix c assume a: "is_trail x" "scalar c" "prefix (enc8 c) (x # xs)"
  from a(2,3) show False
  proof (cases rule: enc8_prefix)
    case (2 ts)
    then show False using legal_complete(1) [OF a(2) 2(1,2)] a(1) by (simp add: is_trail_def)
  qed (use a(1) in \<open>simp add: is_trail_def\<close>)
qed

lemma inside_no_char:
  assumes "scalar c" "0 < i" "i < length (enc8 c)"
  shows "no_char8 (drop i (enc8 c) @ q)"
proof -
  obtain b ts where e: "enc8 c = b # ts" using assms(3) by (cases "enc8 c") auto
  obtain j where j: "i = Suc j" "j < length ts" using assms e by (cases i) auto
  then have "drop i (enc8 c) = ts ! j # drop i ts" using e by (simp add: Cons_nth_drop_Suc)
  moreover have "is_trail (ts ! j)" using enc8_trails [OF assms(1) e] j(2) by (simp add: list_all_length)
  ultimately show ?thesis by (simp add: trail_no_char)
qed

lemma part_no_char:
  assumes "scalar d" "strict_prefix q (enc8 d)" "i < length q"
  shows "no_char8 (drop i q)"
proof (cases "i = 0")
  case True
  have "\<not> prefix (enc8 c) q" if c: "scalar c" for c
  proof
    assume p: "prefix (enc8 c) q"
    then have "prefix (enc8 c) (enc8 d)" using assms(2) by (meson prefix_order.le_less_trans prefix_order.less_imp_le)
    then have "c = d" using enc8_unique [OF c assms(1), of "enc8 d"] by simp
    with p assms(2) show False by (meson prefix_order.less_le_not_le)
  qed
  then show ?thesis using True by (simp add: no_char8_def)
next
  case False
  obtain r where r: "enc8 d = q @ r" using assms(2) by (auto simp: strict_prefix_def prefix_def)
  obtain b ts where e: "enc8 d = b # ts" using read8.enc_nonempty [OF assms(1)] by (cases "enc8 d") auto
  have "drop i q = q ! i # drop (Suc i) q" using assms(3) by (simp add: Cons_nth_drop_Suc)
  moreover have "q ! i = ts ! (i - 1)"
  proof -
    have "(q @ r) ! i = (b # ts) ! i" using r e by simp
    then show ?thesis using assms(3) False by (simp add: nth_append)
  qed
  moreover have "i - 1 < length ts"
  proof -
    have "length (q @ r) = length (b # ts)" using r e by simp
    then show ?thesis using assms(3) False by simp
  qed
  moreover have "is_trail (ts ! (i - 1))" using enc8_trails [OF assms(1) e] calculation(3) by (simp add: list_all_length)
  ultimately show ?thesis by (simp add: trail_no_char)
qed

lemma truncate_skip:
  assumes "n \<le> length s" "n < 2 ^ 31" "a \<le> b" "b < int n" "- 1 \<le> a"
    "\<forall>i. a < int i \<and> int i \<le> b \<longrightarrow> no_char8 (drop i (take n s))"
  shows "truncate_loop s (int n) b = truncate_loop s (int n) a"
  using assms(3-6)
proof (induction "nat (b - a)" arbitrary: b)
  case (Suc k)
  then have b: "0 \<le> b" "a < b" by auto
  let ?t = "take n s"
  have t: "?t = take (nat b) ?t @ drop (nat b) ?t" "length (take (nat b) ?t) = nat b" "length ?t = n"
    using assms(1) b Suc.prems(2) by (simp only: append_take_drop_id, simp_all)
  have "no_char8 (drop (nat b) ?t)" using Suc.prems(4) b by auto
  then obtain j where "CBU8_NEXT ?t (int (nat b)) (int n) = Inr (- 1, j)"
    using CBU8_NEXT_none [OF _ _ t(1)] t(2,3) b Suc.prems(2) by fastforce
  then have "CBU8_NEXT s b (int n) = Inr (- 1, j)" using b Suc.prems(2) CBU8_NEXT_take [of b n s] by simp
  then have "truncate_loop s (int n) b = truncate_loop s (int n) (b - 1)"
    using b sentinel_invalid by (simp add: truncate_loop.simps [of s "int n" b])
  also have "\<dots> = truncate_loop s (int n) a" using Suc b by (intro Suc.hyps(1)) auto
  finally show ?case .
qed simp

lemma truncate_found:
  assumes "scalar c" "\<not> noncharacter c" "n \<le> length s" "take n s = A @ enc8 c @ q"
  shows "truncate_loop s (int n) (int (length A)) = Inr (int (length (A @ enc8 c)))"
proof -
  have l: "length (take n s) = n" using assms(3) by simp
  have "int (length A) < int n" using assms(4) l read8.enc_nonempty [OF assms(1)] by (metis length_append length_greater_0_conv less_add_same_cancel1 trans_less_add1 add.assoc of_nat_less_iff)
  then have "CBU8_NEXT s (int (length A)) (int n) = Inr (c, int (length A + length (enc8 c)))"
    using CBU8_NEXT_scalar [OF assms(1,4)] CBU8_NEXT_take [of "int (length A)" n s] l by simp
  then show ?thesis using assms(1,2)
    by (simp add: truncate_loop.simps [of s "int n" "int (length A)"] u32_scalar valid_character valid_codepoint scalar_def)
qed

text \<open>Where the limit falls in a text.\<close>

definition bytes_of :: "int list \<Rightarrow> string" where "bytes_of cs = concat (map enc8 cs)"

lemma bytes_of_take_Suc: "k < length cs \<Longrightarrow> bytes_of (take (Suc k) cs) = bytes_of (take k cs) @ enc8 (cs ! k)"
  by (simp add: bytes_of_def take_Suc_conv_app_nth)

lemma bytes_of_take_prefix: "prefix (bytes_of (take k cs)) (bytes_of cs)"
  by (metis bytes_of_def append_take_drop_id concat_append map_append prefixI)

lemma limit_in_text:
  obtains k where "k \<le> length cs" "length (bytes_of (take k cs)) \<le> n"
    "k < length cs \<longrightarrow> n < length (bytes_of (take (Suc k) cs))"
proof -
  let ?P = "\<lambda>k. k \<le> length cs \<and> length (bytes_of (take k cs)) \<le> n"
  have "?P 0" by (simp add: bytes_of_def)
  then obtain k where k: "?P k" "\<forall>j. ?P j \<longrightarrow> j \<le> k"
    using Nat.ex_has_greatest_nat [of ?P 0 "length cs"] by blast
  have "n < length (bytes_of (take (Suc k) cs))" if "k < length cs"
  proof (rule ccontr)
    assume "\<not> n < length (bytes_of (take (Suc k) cs))"
    then have "?P (Suc k)" using that by simp
    then show False using k(2) by fastforce
  qed
  with k(1) that show thesis by blast
qed

lemma truncate_text:
  assumes "list_all scalar cs" "list_all (\<lambda>c. \<not> noncharacter c) cs" "n \<le> length (bytes_of cs)" "n < 2 ^ 31"
    "k \<le> length cs" "length (bytes_of (take k cs)) \<le> n" "k < length cs \<longrightarrow> n < length (bytes_of (take (Suc k) cs))"
  shows "\<exists>r. truncate_loop (bytes_of cs) (int n) (int n - 1) = Inr r \<and>
    (if 0 \<le> r then take (nat r) (bytes_of cs) else []) = bytes_of (take k cs)"
proof -
  let ?s = "bytes_of cs" and ?P = "bytes_of (take k cs)"
  obtain R where R: "?s = ?P @ R" using bytes_of_take_prefix [of k cs] by (auto elim: prefixE)
  define q where "q = take (n - length ?P) R"
  have t: "take n ?s = ?P @ q" using R assms(6) by (simp add: q_def)
  have part: "no_char8 (drop i q)" if "i < length q" for i
  proof (cases "k < length cs")
    case True
    then have "prefix (enc8 (cs ! k)) R"
      using bytes_of_take_prefix [of "Suc k" cs] bytes_of_take_Suc [OF True] R by simp
    moreover have "n - length ?P < length (enc8 (cs ! k))"
      using assms(6,7) True bytes_of_take_Suc [OF True] by simp
    moreover from this have "q = take (n - length ?P) (enc8 (cs ! k))"
      using calculation by (auto simp: q_def elim: prefixE)
    ultimately have "strict_prefix q (enc8 (cs ! k))"
      by (auto simp: strict_prefix_def take_is_prefix)
    moreover have "scalar (cs ! k)" using assms(1) True by (simp add: list_all_length)
    ultimately show ?thesis using part_no_char that by blast
  next
    case False
    then have "R = []" using R assms(5) by simp
    then show ?thesis using that by (simp add: q_def)
  qed
  have L: "length (take n ?s) = n" using assms(3) by simp
  show ?thesis
  proof (cases k)
    case 0
    then have "take n ?s = q" using t by (simp add: bytes_of_def)
    then have "\<forall>i. - 1 < int i \<and> int i \<le> int n - 1 \<longrightarrow> no_char8 (drop i (take n ?s))" using part L by auto
    then have "truncate_loop ?s (int n) (int n - 1) = truncate_loop ?s (int n) (- 1)"
      using assms(3,4) by (intro truncate_skip) auto
    also have "\<dots> = Inr (- 1)" by (simp add: truncate_loop.simps [of ?s "int n" "- 1"])
    finally show ?thesis using 0 by (simp add: bytes_of_def)
  next
    case (Suc m)
    define c A where "c = cs ! m" and "A = bytes_of (take m cs)"
    have P: "?P = A @ enc8 c" using bytes_of_take_Suc [of m cs] Suc assms(5) by (simp add: c_def A_def)
    have c: "scalar c" "\<not> noncharacter c" using assms(1,2,5) Suc by (simp_all add: c_def list_all_length)
    have "no_char8 (drop i (take n ?s))" if i: "length A < i" "i < n" for i
    proof (cases "i < length A + length (enc8 c)")
      case True
      then have "drop i (take n ?s) = drop (i - length A) (enc8 c) @ q" using t P i by simp
      then show ?thesis using inside_no_char [OF c(1), of "i - length A" q] True i by simp
    next
      case False
      then have "drop i (take n ?s) = drop (i - length ?P) q" "i - length ?P < length q" using t P i L by auto
      then show ?thesis using part by simp
    qed
    then have "\<forall>i. int (length A) < int i \<and> int i \<le> int n - 1 \<longrightarrow> no_char8 (drop i (take n ?s))" by auto
    moreover have "length A < n" using P assms(6) read8.enc_nonempty [OF c(1)] by (cases "enc8 c") auto
    ultimately have "truncate_loop ?s (int n) (int n - 1) = truncate_loop ?s (int n) (int (length A))"
      using assms(3,4) by (intro truncate_skip) auto
    also have "\<dots> = Inr (int (length ?P))" using truncate_found [OF c assms(3), of A q] t P by simp
    finally show ?thesis using R by simp
  qed
qed

lemma truncate_eq:
  assumes "n \<le> length s" "n < 2 ^ 31"
  shows "TruncateUTF8ToByteSize s n = bind_result (truncate_loop s (int n) (int n - 1)) (\<lambda>r.
    Inr (if 0 \<le> r then take (nat r) s else []))"
proof -
  have "wrap32 (int n) = int n" "sub32 (int n) 1 = int n - 1"
    using assms(2) by (simp_all add: wrap32_id sub32_id is_i32_def)
  then show ?thesis using assms by (simp add: TruncateUTF8ToByteSize_def dcheck_def Let_def)
qed

text \<open>
  C40. Truncation: of a well-formed string without noncharacters \<open>TruncateUTF8ToByteSize\<close> keeps the largest
  number of whole characters that fits, also when the limit is zero or beyond the string, and the loop
  stays inside the string. A noncharacter at the end is lost although it would fit.
\<close>

theorem TruncateUTF8ToByteSize_correct:
  assumes "is_text enc8 cs s" "list_all (\<lambda>c. \<not> noncharacter c) cs" "n \<le> length s \<longrightarrow> n < 2 ^ 31"
  shows "(\<exists>k \<le> length cs. TruncateUTF8ToByteSize s n = Inr (bytes_of (take k cs)) \<and> length (bytes_of (take k cs)) \<le> n \<and>
      (k < length cs \<longrightarrow> n < length (bytes_of (take (Suc k) cs)))) \<and>
    TruncateUTF8ToByteSize (''a'' @ enc8 0xFFFE) 4 = Inr ''a''"
proof
  have s: "s = bytes_of cs" "list_all scalar cs" using assms(1) by (simp_all add: is_text_def bytes_of_def)
  show "\<exists>k \<le> length cs. TruncateUTF8ToByteSize s n = Inr (bytes_of (take k cs)) \<and> length (bytes_of (take k cs)) \<le> n \<and>
      (k < length cs \<longrightarrow> n < length (bytes_of (take (Suc k) cs)))"
  proof (cases "n > length s")
    case True
    then show ?thesis using s by (intro exI [of _ "length cs"]) (simp add: TruncateUTF8ToByteSize_def)
  next
    case False
    then have n: "n \<le> length s" "n < 2 ^ 31" using assms(3) by auto
    obtain k where k: "k \<le> length cs" "length (bytes_of (take k cs)) \<le> n" "k < length cs \<longrightarrow> n < length (bytes_of (take (Suc k) cs))"
      by (rule limit_in_text)
    from truncate_text [OF s(2) assms(2) n [unfolded s(1)] k] obtain r where
      r: "truncate_loop s (int n) (int n - 1) = Inr r" "(if 0 \<le> r then take (nat r) s else []) = bytes_of (take k cs)"
      unfolding s(1) by blast
    then have "TruncateUTF8ToByteSize s n = Inr (bytes_of (take k cs))" by (simp add: truncate_eq [OF n])
    with k show ?thesis by blast
  qed
  show "TruncateUTF8ToByteSize (''a'' @ enc8 0xFFFE) 4 = Inr ''a''"
  proof -
    have "enc8 0xFFFE = [CHR 0xEF, CHR 0xBF, CHR 0xBE]"
      "truncate_loop [CHR ''a'', CHR 0xEF, CHR 0xBF, CHR 0xBE] 4 3 = Inr 1" by code_simp+
    then show ?thesis using truncate_eq [of 4 "[CHR ''a'', CHR 0xEF, CHR 0xBF, CHR 0xBE]"] by simp
  qed
qed

theorem TruncateUTF8ToByteSize_correct_witness:
  "\<exists>k \<le> length [0x21, 0x6574 :: int]. TruncateUTF8ToByteSize [CHR 0x21, CHR 0xE6, CHR 0x95, CHR 0xB4] 3 = Inr (bytes_of (take k [0x21, 0x6574]))"
proof -
  have "is_text enc8 [0x21, 0x6574] [CHR 0x21, CHR 0xE6, CHR 0x95, CHR 0xB4]" "list_all (\<lambda>c. \<not> noncharacter c) [0x21, 0x6574]"
    unfolding is_text_def noncharacter_def by code_simp+
  from TruncateUTF8ToByteSize_correct [OF this, of 3] show ?thesis by fastforce
qed

end
