(* ===== verification/Spec2Isabelle.thy ===== *)
theory Spec2Isabelle
  imports Layout_Decision Eureka Ctpn Command_Line Version Md5 Sha1 Pickle_Reader File_Path Utf_Text
begin

text \<open>
  A verification development for the note neatness service, a program that decides whether a
  photographed page of notes is neat.

  \<^bold>\<open>The program.\<close> The service's own code is three components under src/src: the layout detector
  \<^verbatim>\<open>det_layout\<close>, which measures a page with OpenCV and decides about it; the text detector
  \<^verbatim>\<open>det_ge_mma_ctpn\<close>, which hands an image to a neural network in an embedded Python interpreter; and
  \<^verbatim>\<open>eureka\<close>, which registers the running service with a Eureka server and keeps the registration alive
  from a thread of its own. The main program that serves HTTP requests and connects the three is named
  by the build files but is not in the repository. All of it is linked with the in-tree library
  \<^verbatim>\<open>base\<close>, from which the development takes the parts that hold program logic rather than operating
  system calls: strings, the command line the service is started with, conversions of numbers,
  versions, message digests, the pickles in which typed values are passed between processes, and file
  paths.

  \<^bold>\<open>Conventions\<close> (theory \<open>Prelude\<close>). A fallible operation returns \<^typ>\<open>'a result\<close>, a fault or a value:
  a read or write outside an array, an exception, a failed \<^verbatim>\<open>CHECK\<close> or \<^verbatim>\<open>DCHECK\<close>, the use of a freed or
  uninitialised object. Integers keep the width of the source: 32-bit signed values with \<open>wrap32\<close>, sizes
  modulo two to the 64 with \<open>szadd\<close> and \<open>szsub\<close>, the types of the number conversions with \<open>wrap_to\<close>, and
  the hashes as \<^typ>\<open>32 word\<close>. Doubles are IEEE binary64 values (theory \<open>Binary64\<close>). The targets are
  x86-64 and little-endian, as the build files set them. Code that is not in the repository (OpenCV,
  jsoncpp, libcurl, the Python interpreter, the clock, the locale's \<^verbatim>\<open>isspace\<close>) and the order in which
  \<^verbatim>\<open>std::sort\<close> leaves equivalent elements are arguments of the definitions; what the code relies on is
  a named hypothesis, and each theorem that has one is applied to a concrete instance by its witness.

  \<^bold>\<open>Layout detector.\<close> \<open>Det_Layout\<close> models det_layout/api/src/det_layout.cpp: non-maximum suppression
  in its two overloads (\<open>Nms\<close>, \<open>Nms_stats\<close>), the intersection over union in binary64, the grouping of
  components to lines (\<open>ConnectBlock\<close>), the proportions of the page (\<open>CalcProportion\<close>), the thresholds
  (\<open>globals\<close>, \<open>Init\<close>) and the decision (\<open>IsNoteNeat\<close>). C1 to C3 specify suppression as the greedy choice
  of largest boxes without overlap and show that the overloads agree. \<open>Layout_Page\<close>: C4, the lines
  partition the components and enclose their members; C5 and C6, the proportions of a page and the
  size from which their 32-bit sum overflows. \<open>Layout_Decision\<close>: C7, on which images \<open>IsNoteNeat\<close>
  returns, and the read out of bounds on a blank page; C8, what its answer is determined by; lemma
  \<open>Init_again\<close>, what a second initialisation does.

  \<^bold>\<open>Eureka client.\<close> \<open>Eureka\<close> models eureka/eureka_client.cpp: the object as the record \<open>eureka\<close>, its
  requests as entries of a log, the heartbeat thread and its owner as the step relation \<open>estep\<close> over
  all interleavings. C9, the protocol of the first heartbeat; C10 and C11, when the timer registers
  again and what its failure count means; C12 to C14, the invariant of the traffic, that the object is
  not deleted under the thread, and that stopping ends within three steps.

  \<^bold>\<open>Text detector.\<close> \<open>Ctpn\<close> models det_ge_mma_ctpn/api with the reference counts of CPython. C15, the
  order of the pixels handed to the model; C16, the result codes and the reference released twice;
  lemma \<open>detector_lifetime\<close>, what construction and destruction leave behind.

  \<^bold>\<open>Strings.\<close> \<open>String_Piece\<close> models base/strings/string_piece.cc; every search is one of two scans, and
  C17 and lemma \<open>set_searches_correct\<close> specify the searches by the first or last index with a property
  (lemma \<open>set_searches_8_16\<close> compares the 8-bit with the 16-bit versions). \<open>String_Util\<close>, \<open>String_Text\<close>
  and \<open>String_Replace\<close> model base/strings/string_util.cc. The function templates are definitions over a
  character type, whose contract is the locale \<open>character\<close>, interpreted for 8 and 16 bits; trimming
  relies on the locale \<open>complement_search\<close>. lemmas \<open>trim_correct\<close> and \<open>CollapseWhitespace_correct\<close>,
  trimming, and collapsing white space inside its buffer; C18, the word-at-a-time test for ASCII equals the test per character; C19 and
  C20, replacement is the left-to-right replacement, and the case in which
  lengthening leaves the string. Lemmas
  \<open>ReplaceChars_correct\<close>, \<open>compare_case_insensitive\<close>, \<open>starts_ends_with\<close> and \<open>strlcpy_correct\<close> treat replacing characters,
  comparison without case, prefixes, suffixes and bounded copies. \<open>String_Split\<close> models base/strings/string_split.cc over the
  locale \<open>delimiter_search\<close>: C21, the pieces; lemma \<open>split_join_inverse\<close>, splitting and joining are inverse; lemma
  \<open>key_value_roundtrip\<close>, key-value pairs are read back; lemma \<open>split_substr_correct\<close>, splitting at a substring, and its endless loop for
  an empty one.

  \<^bold>\<open>Command line.\<close> \<open>Command_Line\<close> models base/command_line.cc in its POSIX build. C22, how an argument
  vector is read; C23, the invariant of the object under every sequence of its operations; lemma
  \<open>reparse_idempotent\<close>, when reading it again changes nothing (lemma \<open>reparse_dangling\<close> has the exception).

  \<^bold>\<open>Numbers and versions.\<close> \<open>Number_Conversions\<close> models base/strings/string_number_conversions.cc. The
  two signs of the digit loop share the locale \<open>digit_sign\<close>. C24, what a conversion returns on every
  text, without overflow; C25 and lemma \<open>hex_bytes_roundtrip\<close>, round trips of decimal and hexadecimal
  text. \<open>Version\<close> models base/version.cc on top of splitting and conversions: C26, which strings are
  versions and that they are read back; lemma \<open>version_order\<close>, their order and wildcards.

  \<^bold>\<open>Message digests.\<close> \<open>Block_Hash\<close> states the contract of a hash that takes its message in pieces, the
  locale \<open>stream_hash\<close>: an update absorbs blocks, the end absorbs the padding. \<open>Md5\<close> models base/md5.cc
  and \<open>Sha1\<close> models base/sha1_portable.cc; both interpret the locale, so C27 and C28 say that the digest
  of a message does not depend on the pieces and is that of RFC 1321 and FIPS 180; the unrolled and
  in-place code is shown equal to the standards' loops, and the witnesses evaluate published test
  vectors.

  \<^bold>\<open>Pickles.\<close> \<open>Pickle\<close> models base/pickle.cc and base/pickle.h with \<open>Align\<close> of base/bits.h: the buffer and
  its growth, every writer and reader, over a memory in which bytes may be uninitialised. \<open>pickle_rep\<close> is
  the invariant and the abstraction to the payload. \<open>Pickle_Codec\<close> states the contract of writers and
  readers as the locales \<open>appender\<close> and \<open>codec\<close> and interprets them: C29, every operation is one on the
  payload and keeps the invariant; C30, what is written is read back, also by another process.
  \<open>Pickle_Reader\<close>: C31, arbitrary bytes are read without leaving the buffer; C32, what a failed read
  leaves; C33, writing to the copy of a read-only pickle; lemma \<open>FindNext_correct\<close>, finding the end of a
  message. The theorems about writing ask for payloads below four gigabytes, the bound that the source
  checks, and for an allocator that grants memory.

  \<^bold>\<open>File paths.\<close> \<open>File_Path\<close> models base/files/file_path.cc in its POSIX build, on top of the pickles and the
  constructor in \<open>Command_Line\<close>. \<open>stripped\<close> and \<open>path_at\<close> describe trailing separators and the last name, and
  \<open>components\<close> is the specification of a path's parts. C34, the walk to the root ends and collects the
  components; lemma \<open>path_recompose\<close>, a path is its directory and base name; C35, parents and relative paths;
  C36, the invariant that a path holds no zero byte; theorem \<open>extension_correct\<close>, extensions; lemma
  \<open>path_pickle_roundtrip\<close>, a path is read back from a pickle.

  \<^bold>\<open>Unicode.\<close> \<open>Utf\<close> models the in-tree macros of ICU (base/third_party/icu) and the readers and writers of
  single characters (base/strings/utf_string_conversion_utils.cc), whose contracts are the locales
  \<open>unicode_reader\<close> and \<open>unicode_writer\<close>, interpreted for UTF-8, UTF-16 and 32-bit wide characters against the
  arithmetic definition of the encodings. \<open>Utf_Convert\<close> models base/strings/utf_string_conversions.cc: the
  template is treated once in the locale \<open>unicode_converter\<close>, and with its shortcut for ASCII in
  \<open>ascii_converter\<close>. C37, what every conversion does on every input; C38, round trips. \<open>Utf_Text\<close> adds two
  functions of string_util.cc: C39, the test for UTF-8; C40, truncation between characters.

  \<^bold>\<open>Loops and bounds.\<close> Loops are total functions with a measure, except the loops of the UTF
  conversions, whose progress rests on the reader (partial functions, shown to return), and two that can run on: the
  lengthening replacement, whose fuel is one more than the length of the result, and the splitter at
  a substring, whose fuel is one more than the length of the input; both bounds are shown to be enough
  where the loop ends. Theorems about strings ask for lengths below \<^const>\<open>npos\<close>, which no string of a
  64-bit process reaches.

  \<^bold>\<open>Not modelled.\<close> The main program and its settings reader, which are missing from the repository. In
  det_layout.cpp, \<^verbatim>\<open>ShowImgWithRect\<close>, which only draws. In string_util.cc, what depends on printf of doubles
  (byte formatting); in string_number_conversions.cc, the conversions of double, which call the
  third-party dmg_fp; in file_path.cc, the conversions to and from the locale's encoding; branches
  compiled for Windows and macOS only. The rest of base (threads, message loops,
  files, tracing, metrics, processes). The Python model and its generated C extensions, breakpad, grpc,
  OpenCV and the other vendored libraries.
\<close>

end
